(* ===== verification/Prelude.thy ===== *)
theory Prelude
  imports Complex_Main "HOL-Library.Char_ord" "HOL-Library.List_Lexorder" "HOL-Library.Multiset"
begin

text \<open>
  What every component of the development shares: the parts of the Go language and of its
  standard library the sources use (sized integers, \<^verbatim>\<open>time.Time\<close>, byte-wise
  string order, small maps), the rule collections, and the generic lemmas on lists, options and
  maps.

  Strings are lists of bytes; \<^verbatim>\<open>sort.Strings\<close> and \<^verbatim>\<open><\<close> on strings are
  the lexicographic order of \<^verbatim>\<open>HOL-Library.List_Lexorder\<close> over the byte order of
  \<^verbatim>\<open>HOL-Library.Char_ord\<close>.
\<close>

subsection \<open>Rule collections\<close>

named_theorems admits_iff \<open>the condition under which a check admits its subject\<close>

subsection \<open>Sized integers\<close>

text \<open>
  A Go conversion to \<^verbatim>\<open>int32\<close> or \<^verbatim>\<open>int64\<close> keeps the low bits and reads
  them as two's complement; \<^verbatim>\<open>uint64\<close> arithmetic is modulo 2 to the 64.
\<close>

definition wrap32 :: "int \<Rightarrow> int" where
  "wrap32 i = (i + 2 ^ 31) mod 2 ^ 32 - 2 ^ 31"

definition wrap64 :: "int \<Rightarrow> int" where
  "wrap64 i = (i + 2 ^ 63) mod 2 ^ 64 - 2 ^ 63"

definition max_int32 :: int where
  "max_int32 = 2 ^ 31 - 1"

definition max_int64 :: int where
  "max_int64 = 2 ^ 63 - 1"

definition max_uint64 :: nat where
  "max_uint64 = 2 ^ 64 - 1"

lemma wrap32_id: "- (2 ^ 31) \<le> i \<Longrightarrow> i \<le> max_int32 \<Longrightarrow> wrap32 i = i"
  by (simp add: wrap32_def max_int32_def)

lemma wrap64_id: "- (2 ^ 63) \<le> i \<Longrightarrow> i \<le> max_int64 \<Longrightarrow> wrap64 i = i"
  by (simp add: wrap64_def max_int64_def)

lemma wrap32_range: "- (2 ^ 31) \<le> wrap32 i \<and> wrap32 i \<le> max_int32"
proof -
  have "0 \<le> (i + 2 ^ 31) mod 2 ^ 32" "(i + 2 ^ 31) mod 2 ^ 32 < 2 ^ 32"
    by simp_all
  then show ?thesis
    unfolding wrap32_def max_int32_def by simp
qed

lemma wrap64_range: "- (2 ^ 63) \<le> wrap64 i \<and> wrap64 i \<le> max_int64"
proof -
  have "0 \<le> (i + 2 ^ 63) mod 2 ^ 64" "(i + 2 ^ 63) mod 2 ^ 64 < 2 ^ 64"
    by simp_all
  then show ?thesis
    unfolding wrap64_def max_int64_def by simp
qed

subsection \<open>Time\<close>

text \<open>
  \<^verbatim>\<open>time.Time\<close> is an instant in nanoseconds since the Unix epoch and
  \<^verbatim>\<open>time.Duration\<close> a count of nanoseconds. The zero \<^verbatim>\<open>time.Time\<close>,
  which \<^verbatim>\<open>IsZero\<close> recognises, is 1 January of the year 1.
  \<^verbatim>\<open>Time.Sub\<close> saturates at the ends of the \<^verbatim>\<open>int64\<close> range.
\<close>

type_synonym time = int
type_synonym duration = int

definition zero_time :: time where
  "zero_time = - 62135596800000000000"

definition second :: duration where
  "second = 1000000000"

definition time_sub :: "time \<Rightarrow> time \<Rightarrow> duration" where
  "time_sub t u = max (- (2 ^ 63)) (min max_int64 (t - u))"

lemma second_pos [simp]: "0 < second"
  by (simp add: second_def)

lemma time_sub_pos [simp]: "0 < time_sub t u \<longleftrightarrow> u < t"
  by (auto simp: time_sub_def max_int64_def)

lemma time_sub_exact: "\<bar>t - u\<bar> \<le> max_int64 \<Longrightarrow> time_sub t u = t - u"
  by (auto simp: time_sub_def max_int64_def)

subsection \<open>Lists and options\<close>

lemma filter_idem_if: "(\<And>x. x \<in> set xs \<Longrightarrow> P x) \<Longrightarrow> filter P xs = xs"
  by (simp add: filter_id_conv)

lemma find_Some_D: "find P xs = Some x \<Longrightarrow> x \<in> set xs \<and> P x"
  by (induction xs) (auto split: if_splits)

lemma find_None_D: "find P xs = None \<Longrightarrow> x \<in> set xs \<Longrightarrow> \<not> P x"
  by (induction xs) (auto split: if_splits)

lemma length_filter_add_not:
  "length (filter P xs) + length (filter (\<lambda>x. \<not> P x) xs) = length xs"
  by (induction xs) auto

lemma length_filter_eq_iff: "length (filter P xs) = length xs \<longleftrightarrow> (\<forall>x \<in> set xs. P x)"
  by (metis filter_id_conv length_filter_less less_irrefl)

subsection \<open>Association lists as Go maps\<close>

text \<open>
  A Go map whose entries the code enumerates is an association list with distinct keys; the
  order of the list stands for the unspecified iteration order. \<open>put\<close> overwrites an
  entry in place or appends a new one.
\<close>

fun put :: "'k \<Rightarrow> 'v \<Rightarrow> ('k \<times> 'v) list \<Rightarrow> ('k \<times> 'v) list" where
  "put k v [] = [(k, v)]"
| "put k v ((k', v') # ps) = (if k = k' then (k, v) # ps else (k', v') # put k v ps)"

definition keys :: "('k \<times> 'v) list \<Rightarrow> 'k list" where
  "keys m = map fst m"

definition map_vals :: "('k \<Rightarrow> 'v \<Rightarrow> 'w) \<Rightarrow> ('k \<times> 'v) list \<Rightarrow> ('k \<times> 'w) list" where
  "map_vals f m = map (\<lambda>(k, v). (k, f k v)) m"

lemma map_of_put [simp]: "map_of (put k v m) = (map_of m)(k \<mapsto> v)"
  by (induction k v m rule: put.induct) auto

lemma set_keys_put [simp]: "set (keys (put k v m)) = insert k (set (keys m))"
  by (induction k v m rule: put.induct) (auto simp: keys_def)

lemma distinct_keys_put [simp]: "distinct (keys (put k v m)) = distinct (keys m)"
proof (induction k v m rule: put.induct)
  case (2 k v k' v' ps)
  then show ?case
    using set_keys_put[of k v ps] by (auto simp: keys_def)
qed (simp add: keys_def)

lemma put_new: "(a, b) \<in> set (put k v m) \<Longrightarrow> (a, b) \<notin> set m \<Longrightarrow> a = k \<and> b = v"
  by (induction m) (auto split: if_splits)

lemma put_entry: "(a, b) \<in> set (put k v m) \<Longrightarrow> a = k \<and> b = v \<or> (a, b) \<in> set m"
  by (induction m) (auto split: if_splits)

lemma put_same: "map_of m k = Some v \<Longrightarrow> put k v m = m"
  by (induction k v m rule: put.induct) (auto split: if_splits)

lemma put_not_Nil [simp]: "put k v m \<noteq> []"
  by (cases m) (auto split: if_splits prod.splits)

lemma keys_map_vals [simp]: "keys (map_vals f m) = keys m"
  by (induction m) (auto simp: keys_def map_vals_def)

lemma map_of_map_vals [simp]: "map_of (map_vals f m) k = map_option (f k) (map_of m k)"
  by (induction m) (auto simp: map_vals_def)

lemma map_of_keys: "k \<in> set (keys m) \<longleftrightarrow> map_of m k \<noteq> None"
  by (simp add: keys_def map_of_eq_None_iff image_iff)

lemma map_of_in_set: "map_of m k = Some v \<Longrightarrow> (k, v) \<in> set m"
  by (rule map_of_SomeD)

lemma set_map_of: "distinct (keys m) \<Longrightarrow> (k, v) \<in> set m \<Longrightarrow> map_of m k = Some v"
  by (simp add: keys_def)

subsection \<open>Ordered insertion and stable sorting\<close>

fun insert_before :: "('a \<Rightarrow> 'a \<Rightarrow> bool) \<Rightarrow> 'a \<Rightarrow> 'a list \<Rightarrow> 'a list" where
  "insert_before before x [] = [x]"
| "insert_before before x (y # ys) =
     (if before x y then x # y # ys else y # insert_before before x ys)"

definition ordered_by :: "('a \<Rightarrow> 'a \<Rightarrow> bool) \<Rightarrow> 'a list \<Rightarrow> bool" where
  "ordered_by before xs = sorted_wrt (\<lambda>x y. \<not> before y x) xs"

text \<open>
  \<^verbatim>\<open>sort.SliceStable\<close> with a comparison that is a strict weak order: elements that tie keep
  their order.
\<close>

definition slice_stable :: "('a \<Rightarrow> 'a \<Rightarrow> bool) \<Rightarrow> 'a list \<Rightarrow> 'a list" where
  "slice_stable before xs = fold (insert_before before) xs []"

lemma insert_before_mset [simp]: "mset (insert_before b x xs) = add_mset x (mset xs)"
  by (induction xs) auto

lemma slice_stable_snoc [simp]: "slice_stable before (xs @ [x]) = insert_before before x (slice_stable before xs)"
  by (simp add: slice_stable_def)

lemma slice_stable_mset [simp]: "mset (slice_stable before xs) = mset xs"
proof (induction xs rule: rev_induct)
  case Nil
  then show ?case by (simp add: slice_stable_def)
qed simp

lemma set_slice_stable [simp]: "set (slice_stable before xs) = set xs"
  by (metis set_mset_mset slice_stable_mset)

lemma slice_stable_Nil_iff [simp]: "slice_stable before xs = [] \<longleftrightarrow> xs = []"
  by (metis mset_zero_iff slice_stable_mset)

text \<open>
  The contract a comparison gives a queue or a sort: \<open>before\<close> is a strict weak order. Insertion then
  keeps the list ordered, and puts the entry behind every entry it is not before, so entries that
  tie are served in the order in which they were queued.
\<close>

locale strict_weak_order =
  fixes before :: "'a \<Rightarrow> 'a \<Rightarrow> bool"
  assumes before_asym: "before x y \<Longrightarrow> \<not> before y x"
    and before_neg_trans: "\<not> before x y \<Longrightarrow> \<not> before y z \<Longrightarrow> \<not> before x z"
begin

lemma insert_before_split:
  "ordered_by before xs \<Longrightarrow>
     \<exists>ys zs. xs = ys @ zs \<and> insert_before before x xs = ys @ x # zs
       \<and> (\<forall>y \<in> set ys. \<not> before x y) \<and> (\<forall>z \<in> set zs. before x z)"
proof (induction xs)
  case Nil
  then show ?case by simp
next
  case (Cons a xs)
  show ?case
  proof (cases "before x a")
    case True
    then have "\<forall>z \<in> set (a # xs). before x z"
      using Cons.prems before_neg_trans by (auto simp: ordered_by_def)
    then show ?thesis
      using True by (intro exI [of _ "[]"] exI [of _ "a # xs"]) simp
  next
    case False
    obtain ys zs where s: "xs = ys @ zs" "insert_before before x xs = ys @ x # zs"
      "\<forall>y \<in> set ys. \<not> before x y" "\<forall>z \<in> set zs. before x z"
      using Cons by (auto simp: ordered_by_def)
    show ?thesis
      using False s by (intro exI [of _ "a # ys"] exI [of _ zs]) simp
  qed
qed

lemma insert_before_ordered:
  assumes "ordered_by before xs"
  shows "ordered_by before (insert_before before x xs)"
proof -
  obtain ys zs where s: "xs = ys @ zs" "insert_before before x xs = ys @ x # zs"
    "\<forall>y \<in> set ys. \<not> before x y" "\<forall>z \<in> set zs. before x z"
    using insert_before_split [OF assms] by blast
  then show ?thesis
    using assms by (auto simp: ordered_by_def sorted_wrt_append dest: before_asym)
qed

lemma slice_stable_ordered: "ordered_by before (slice_stable before xs)"
proof (induction xs rule: rev_induct)
  case Nil
  then show ?case by (simp add: slice_stable_def ordered_by_def)
qed (simp add: insert_before_ordered)

text \<open>The head of a stably sorted list is the first of the elements no other is before.\<close>

lemma slice_stable_hd:
  "slice_stable before xs = y # ys \<Longrightarrow>
     \<exists>us vs. xs = us @ y # vs \<and> (\<forall>u \<in> set us. before y u) \<and> (\<forall>v \<in> set vs. \<not> before v y)"
proof (induction xs arbitrary: y ys rule: rev_induct)
  case Nil
  then show ?case by (simp add: slice_stable_def)
next
  case (snoc x xs)
  show ?case
  proof (cases "slice_stable before xs")
    case Nil
    then have "xs = []" by simp
    then show ?thesis
      using snoc.prems by (intro exI [of _ "[]"] exI [of _ "[]"]) (simp add: slice_stable_def)
  next
    case (Cons z zs)
    show ?thesis
    proof (cases "before x z")
      case True
      then have "y = x" using snoc.prems Cons by simp
      moreover have "before x u" if "u \<in> set xs" for u
      proof -
        have "u \<in> set (z # zs)" using that Cons set_slice_stable [of before xs] by simp
        then have "\<not> before u z" using slice_stable_ordered [of xs] Cons before_asym by (auto simp: ordered_by_def)
        then show ?thesis using True before_neg_trans by blast
      qed
      ultimately show ?thesis by (intro exI [of _ xs] exI [of _ "[]"]) simp
    next
      case False
      then have "y = z" using snoc.prems Cons by simp
      obtain us vs where "xs = us @ z # vs" "\<forall>u \<in> set us. before z u" "\<forall>v \<in> set vs. \<not> before v z"
        using snoc.IH [OF Cons] by blast
      then show ?thesis using False \<open>y = z\<close> by (intro exI [of _ us] exI [of _ "vs @ [x]"]) simp
    qed
  qed
qed

end

subsection \<open>Results of fallible calls\<close>

text \<open>The error monad of \<^verbatim>\<open>(value, error)\<close> returns: \<open>Inl\<close> is the error.\<close>

definition bind_err :: "'e + 'a \<Rightarrow> ('a \<Rightarrow> 'e + 'b) \<Rightarrow> 'e + 'b" where
  "bind_err r f = (case r of Inl e \<Rightarrow> Inl e | Inr x \<Rightarrow> f x)"

lemma bind_err_simps [simp]:
  "bind_err (Inl e) f = Inl e"
  "bind_err (Inr x) f = f x"
  by (simp_all add: bind_err_def)

lemma bind_err_Inr_iff: "bind_err r f = Inr y \<longleftrightarrow> (\<exists>x. r = Inr x \<and> f x = Inr y)"
  by (cases r) auto

text \<open>
  A guard chain \<^verbatim>\<open>if c1 { return e1 }; if c2 { return e2 }; ...\<close>: the violation of the first
  condition that holds.
\<close>

fun first_violation :: "(bool \<times> 'v) list \<Rightarrow> 'v option" where
  "first_violation [] = None"
| "first_violation ((c, v) # gs) = (if c then Some v else first_violation gs)"

lemma first_violation_None: "first_violation gs = None \<longleftrightarrow> (\<forall>(c, v) \<in> set gs. \<not> c)"
  by (induction gs rule: first_violation.induct) auto

definition or_else :: "'v option \<Rightarrow> 'v option \<Rightarrow> 'v option" where
  "or_else a b = (case a of Some v \<Rightarrow> Some v | None \<Rightarrow> b)"

lemma or_else_None: "or_else a b = None \<longleftrightarrow> a = None \<and> b = None"
  by (simp add: or_else_def split: option.splits)

lemma bind_None_iff: "Option.bind x f = None \<longleftrightarrow> (\<forall>y. x = Some y \<longrightarrow> f y = None)"
  by (cases x) auto

end
