(* ===== verification/GoStrconv.thy ===== *)
theory GoStrconv
  imports Prelude
begin

text \<open>
  The conversions of Go's \<^verbatim>\<open>strconv\<close> and \<^verbatim>\<open>strings\<close> packages the
  sources call: decimal printing and parsing of integers (\<^verbatim>\<open>FormatUint\<close>,
  \<^verbatim>\<open>ParseUint\<close>, \<^verbatim>\<open>Atoi\<close>), \<^verbatim>\<open>strings.Split\<close>, and
  \<^verbatim>\<open>ParseFloat\<close> with the comparisons of \<^verbatim>\<open>float64\<close>. A conversion
  that returns a non-nil error is \<open>None\<close>.
\<close>

subsection \<open>Decimal integers\<close>

definition digit_char :: "nat \<Rightarrow> char" where
  "digit_char d = char_of (48 + d)"

definition char_val :: "char \<Rightarrow> nat" where
  "char_val c = of_char c"

definition digit_val :: "char \<Rightarrow> nat option" where
  "digit_val c = (if 48 \<le> char_val c \<and> char_val c \<le> 57 then Some (char_val c - 48) else None)"

text \<open>\<^verbatim>\<open>strconv.FormatUint(n, 10)\<close> and the verb \<^verbatim>\<open>%d\<close>.\<close>

fun format_uint :: "nat \<Rightarrow> string" where
  "format_uint n = (if n < 10 then [digit_char n]
     else format_uint (n div 10) @ [digit_char (n mod 10)])"

declare format_uint.simps [simp del]

text \<open>The value of a string of decimal digits, read from the left.\<close>

fun digits_from :: "nat \<Rightarrow> string \<Rightarrow> nat option" where
  "digits_from acc [] = Some acc"
| "digits_from acc (c # cs) =
     (case digit_val c of None \<Rightarrow> None | Some d \<Rightarrow> digits_from (10 * acc + d) cs)"

definition parse_digits :: "string \<Rightarrow> nat option" where
  "parse_digits s = (if s = [] then None else digits_from 0 s)"

text \<open>\<^verbatim>\<open>strconv.ParseUint(s, 10, 64)\<close>: digits only, and no more than 64 bits.\<close>

definition parse_uint :: "string \<Rightarrow> nat option" where
  "parse_uint s = (case parse_digits s of
     None \<Rightarrow> None
   | Some n \<Rightarrow> if n \<le> max_uint64 then Some n else None)"

text \<open>
  \<^verbatim>\<open>strconv.Atoi\<close> on a 64-bit platform: an optional sign, then digits. Both signs are
  accepted.
\<close>

definition atoi :: "string \<Rightarrow> int option" where
  "atoi s =
     (let neg = (case s of c # _ \<Rightarrow> c = CHR ''-'' | [] \<Rightarrow> False);
          body = (case s of c # cs \<Rightarrow> if c = CHR ''-'' \<or> c = CHR ''+'' then cs else s | [] \<Rightarrow> s)
      in case parse_digits body of
           None \<Rightarrow> None
         | Some n \<Rightarrow>
             if neg then (if int n \<le> 2 ^ 63 then Some (- int n) else None)
             else (if int n \<le> max_int64 then Some (int n) else None))"

text \<open>\<^verbatim>\<open>strconv.FormatInt(i, 10)\<close>; \<^verbatim>\<open>strconv.ParseInt(s, 10, 64)\<close> is \<open>atoi\<close>.\<close>

definition format_int :: "int \<Rightarrow> string" where
  "format_int i = (if i < 0 then CHR ''-'' # format_uint (nat (- i)) else format_uint (nat i))"

lemma digit_val_digit_char: "d < 10 \<Longrightarrow> digit_val (digit_char d) = Some d"
  by (simp add: digit_val_def digit_char_def char_val_def)

lemma digits_from_append:
  "digits_from acc (s @ t) = (case digits_from acc s of None \<Rightarrow> None | Some n \<Rightarrow> digits_from n t)"
  by (induction acc s rule: digits_from.induct) (auto split: option.splits)

lemma digits_from_format_uint: "digits_from 0 (format_uint n) = Some n"
proof (induction n rule: format_uint.induct)
  case (1 n)
  show ?case
  proof (cases "n < 10")
    case True
    then show ?thesis by (simp add: format_uint.simps[of n] digit_val_digit_char)
  next
    case False
    with 1 have "digits_from 0 (format_uint (n div 10)) = Some (n div 10)" by simp
    with False show ?thesis
      by (simp add: format_uint.simps[of n] digits_from_append digit_val_digit_char)
  qed
qed

lemma format_uint_nonempty [simp]: "format_uint n \<noteq> []"
  by (simp add: format_uint.simps[of n])

lemma parse_digits_format_uint [simp]: "parse_digits (format_uint n) = Some n"
  by (simp add: parse_digits_def digits_from_format_uint)

lemma parse_uint_format_uint: "n \<le> max_uint64 \<Longrightarrow> parse_uint (format_uint n) = Some n"
  by (simp add: parse_uint_def)

lemma parse_uint_bound: "parse_uint s = Some n \<Longrightarrow> n \<le> max_uint64"
  by (auto simp: parse_uint_def split: option.splits if_splits)

lemma parse_digits_head: "parse_digits (c # cs) = Some n \<Longrightarrow> \<exists>d. digit_val c = Some d"
  by (auto simp: parse_digits_def split: option.splits)

lemma digit_val_sign [simp]: "digit_val CHR ''-'' = None" "digit_val CHR ''+'' = None"
  by (simp_all add: digit_val_def char_val_def)

lemma atoi_format_uint: "int n \<le> max_int64 \<Longrightarrow> atoi (format_uint n) = Some (int n)"
proof -
  assume n: "int n \<le> max_int64"
  obtain c cs where s: "format_uint n = c # cs" by (cases "format_uint n") simp_all
  have pd: "parse_digits (c # cs) = Some n" using parse_digits_format_uint[of n] s by simp
  then have "c \<noteq> CHR ''-''" "c \<noteq> CHR ''+''"
    using parse_digits_head[OF pd] by auto
  with s pd n show ?thesis by (simp add: atoi_def)
qed

lemma atoi_format_int: "- (2 ^ 63) \<le> i \<Longrightarrow> i \<le> max_int64 \<Longrightarrow> atoi (format_int i) = Some i"
  using atoi_format_uint [of "nat i"] by (auto simp: format_int_def atoi_def)

lemma atoi_range: "atoi s = Some i \<Longrightarrow> - (2 ^ 63) \<le> i \<and> i \<le> max_int64"
  by (auto simp: atoi_def Let_def max_int64_def split: option.splits if_splits)

subsection \<open>Splitting\<close>

text \<open>\<^verbatim>\<open>strings.Split(s, sep)\<close> for a one-byte separator.\<close>

fun split_on :: "char \<Rightarrow> string \<Rightarrow> string list" where
  "split_on c [] = [[]]"
| "split_on c (x # xs) =
     (if x = c then [] # split_on c xs
      else case split_on c xs of [] \<Rightarrow> [[x]] | p # ps \<Rightarrow> (x # p) # ps)"

lemma split_on_nonempty [simp]: "split_on c s \<noteq> []"
  by (induction c s rule: split_on.induct) (auto split: list.splits)

lemma split_on_plain: "c \<notin> set s \<Longrightarrow> split_on c s = [s]"
  by (induction s) auto

lemma split_on_sep: "c \<notin> set s \<Longrightarrow> split_on c (s @ c # t) = s # split_on c t"
  by (induction s) auto

lemma digit_char_dot: "d < 10 \<Longrightarrow> digit_char d \<noteq> CHR ''.''"
  using digit_val_digit_char[of d] by (auto simp: digit_val_def char_val_def)

lemma format_uint_dot [simp]: "CHR ''.'' \<notin> set (format_uint n)"
proof (induction n rule: format_uint.induct)
  case (1 n)
  then show ?case
    using digit_char_dot[of "n mod 10"] digit_char_dot[of n]
    by (auto simp: format_uint.simps[of n])
qed

subsection \<open>Floating point\<close>

text \<open>
  A \<^verbatim>\<open>float64\<close> is a NaN, an infinity (the flag says negative) or a finite value,
  which the code only compares; both zeros are the finite value 0, as they compare equal.
\<close>

datatype float64 = NaN | Infinite bool | Fin rat

fun flt :: "float64 \<Rightarrow> float64 \<Rightarrow> bool" where
  "flt (Fin a) (Fin b) = (a < b)"
| "flt (Fin a) (Infinite neg) = (\<not> neg)"
| "flt (Infinite neg) (Fin b) = neg"
| "flt (Infinite m) (Infinite n) = (m \<and> \<not> n)"
| "flt _ _ = False"

definition feq :: "float64 \<Rightarrow> float64 \<Rightarrow> bool" where
  "feq a b = (a \<noteq> NaN \<and> a = b)"

definition fle :: "float64 \<Rightarrow> float64 \<Rightarrow> bool" where
  "fle a b = (flt a b \<or> feq a b)"

text \<open>Rounding to the nearest \<^verbatim>\<open>float64\<close>, ties to even; \<open>None\<close> is a range error.\<close>

definition round_even :: "rat \<Rightarrow> int" where
  "round_even r = (let f = \<lfloor>r\<rfloor>; d = r - of_int f in
     if d < 1 / 2 then f else if 1 / 2 < d then f + 1 else if even f then f else f + 1)"

fun bit_length :: "nat \<Rightarrow> nat" where
  "bit_length n = (if n = 0 then 0 else Suc (bit_length (n div 2)))"

declare bit_length.simps [simp del]

definition pow2 :: "int \<Rightarrow> rat" where
  "pow2 e = (if 0 \<le> e then 2 ^ nat e else 1 / 2 ^ nat (- e))"

text \<open>The exponent of the leading bit of a positive rational.\<close>

definition top_exp :: "rat \<Rightarrow> int" where
  "top_exp a = (let (p, q) = quotient_of a;
       k = int (bit_length (nat p)) - int (bit_length (nat q))
     in if a < pow2 k then k - 1 else k)"

definition round_float64 :: "rat \<Rightarrow> float64 option" where
  "round_float64 x =
     (if x = 0 then Some (Fin 0)
      else let a = \<bar>x\<bar>; e = max (top_exp a - 52) (- 1074);
               v = of_int (round_even (a / pow2 e)) * pow2 e
           in if pow2 1024 \<le> v then None else Some (Fin (sgn x * v)))"

text \<open>The grammar of \<^verbatim>\<open>strconv.ParseFloat(s, 64)\<close>.\<close>

definition lower :: "char \<Rightarrow> char" where
  "lower c = (if 65 \<le> char_val c \<and> char_val c \<le> 90 then char_of (char_val c + 32) else c)"

definition hex_val :: "char \<Rightarrow> nat option" where
  "hex_val c = (case digit_val c of Some d \<Rightarrow> Some d
     | None \<Rightarrow> (let v = char_val (lower c) in if 97 \<le> v \<and> v \<le> 102 then Some (v - 87) else None))"

text \<open>
  The mantissa loop: the value of the digits read, the number of digits after the point, whether
  a digit and an underscore were seen, and the unread rest.
\<close>

fun scan_mant :: "bool \<Rightarrow> string \<Rightarrow> nat \<Rightarrow> nat \<Rightarrow> bool \<Rightarrow> bool \<Rightarrow> bool
    \<Rightarrow> nat \<times> nat \<times> bool \<times> bool \<times> string" where
  "scan_mant hex [] m k dot dig und = (m, k, dig, und, [])"
| "scan_mant hex (c # cs) m k dot dig und =
     (if c = CHR ''_'' then scan_mant hex cs m k dot dig True
      else if c = CHR ''.'' then
        (if dot then (m, k, dig, und, c # cs) else scan_mant hex cs m k True dig und)
      else case (if hex then hex_val c else digit_val c) of
          Some d \<Rightarrow> scan_mant hex cs ((if hex then 16 else 10) * m + d)
            (if dot then Suc k else k) dot True und
        | None \<Rightarrow> (m, k, dig, und, c # cs))"

fun scan_exp :: "string \<Rightarrow> nat \<Rightarrow> bool \<Rightarrow> nat \<times> bool \<times> string" where
  "scan_exp [] e und = (e, und, [])"
| "scan_exp (c # cs) e und =
     (if c = CHR ''_'' then scan_exp cs e True
      else case digit_val c of
          Some d \<Rightarrow> scan_exp cs (if e < 10000 then 10 * e + d else e) und
        | None \<Rightarrow> (e, und, c # cs))"

datatype seen = SeenStart | SeenDigit | SeenUnderscore | SeenOther

fun underscore_run :: "bool \<Rightarrow> seen \<Rightarrow> string \<Rightarrow> bool" where
  "underscore_run hex saw [] = (saw \<noteq> SeenUnderscore)"
| "underscore_run hex saw (c # cs) =
     (if digit_val c \<noteq> None \<or> hex \<and> hex_val c \<noteq> None then underscore_run hex SeenDigit cs
      else if c = CHR ''_'' then saw = SeenDigit \<and> underscore_run hex SeenUnderscore cs
      else saw \<noteq> SeenUnderscore \<and> underscore_run hex SeenOther cs)"

text \<open>Underscores stand between digits, or between the base prefix and a digit; no sign here.\<close>

definition underscore_ok :: "string \<Rightarrow> bool" where
  "underscore_ok s = (case s of
     CHR ''0'' # c # cs \<Rightarrow>
       (if lower c \<in> {CHR ''b'', CHR ''o'', CHR ''x''}
        then underscore_run (lower c = CHR ''x'') SeenDigit cs
        else underscore_run False SeenStart s)
   | _ \<Rightarrow> underscore_run False SeenStart s)"

text \<open>An unsigned number: its exact value, or \<open>None\<close> when the syntax is wrong.\<close>

definition read_float :: "string \<Rightarrow> rat option" where
  "read_float s =
     (let hex = (case s of CHR ''0'' # c # _ # _ \<Rightarrow> lower c = CHR ''x'' | _ \<Rightarrow> False);
          body = (if hex then drop 2 s else s);
          (m, k, dig, und, rest) = scan_mant hex body 0 0 False False False;
          mant = of_nat m / (if hex then 16 else 10) ^ k
      in if \<not> dig then None
         else case rest of
             [] \<Rightarrow> if hex \<or> und \<and> \<not> underscore_ok s then None else Some mant
           | c # cs \<Rightarrow>
               if lower c \<noteq> (if hex then CHR ''p'' else CHR ''e'') then None
               else let neg = (case cs of d # _ \<Rightarrow> d = CHR ''-'' | [] \<Rightarrow> False);
                        ds = (case cs of d # ds' \<Rightarrow>
                               if d = CHR ''-'' \<or> d = CHR ''+'' then ds' else cs | [] \<Rightarrow> cs)
                    in if (case ds of [] \<Rightarrow> True | d # _ \<Rightarrow> digit_val d = None) then None
                       else let (e, und', rest') = scan_exp ds 0 und;
                                b = (if hex then 2 else 10)
                            in if rest' \<noteq> [] \<or> und' \<and> \<not> underscore_ok s then None
                               else Some (if neg then mant / b ^ e else mant * b ^ e))"

definition parse_float :: "string \<Rightarrow> float64 option" where
  "parse_float s =
     (let low = map lower s;
          signed = (case s of c # _ \<Rightarrow> c = CHR ''-'' \<or> c = CHR ''+'' | [] \<Rightarrow> False);
          neg = (case s of c # _ \<Rightarrow> c = CHR ''-'' | [] \<Rightarrow> False);
          body = (if signed then tl s else s)
      in if low = ''nan'' then Some NaN
         else if (if signed then tl low else low) \<in> {''inf'', ''infinity''} then Some (Infinite neg)
         else case read_float body of
             None \<Rightarrow> None
           | Some x \<Rightarrow> round_float64 (if neg then - x else x))"

lemma fle_refl: "a \<noteq> NaN \<Longrightarrow> fle a a"
  by (simp add: fle_def feq_def)

lemma flt_trans: "flt a b \<Longrightarrow> flt b c \<Longrightarrow> flt a c"
  by (cases a; cases b; cases c) auto

lemma flt_irrefl: "\<not> flt a a"
  by (cases a) auto

lemma flt_fle_trans: "flt a b \<Longrightarrow> fle b c \<Longrightarrow> flt a c"
  by (auto simp: fle_def feq_def dest: flt_trans)

end
