(* ===== verification/Api.thy ===== *)
theory Api
  imports GoStrconv
begin

text \<open>
  The custom-resource types of \<^verbatim>\<open>api/v1\<close> that more than one component reads. A Go
  enumeration is a string type: the declared values are constructors and every other string,
  the empty one included, is the last constructor. A struct is a record with the fields the
  modelled code reads or writes; an unset pointer is \<open>None\<close>.
\<close>

subsection \<open>Enumerations\<close>

datatype action_phase =
    PhasePending | PhaseAssigned | PhaseInProgress | PhaseSucceeded | PhaseFailed
  | PhaseCancelled | PhasePaused | PhaseRevoking | PhasePreempted | PhaseOther string

datatype action_priority =
    PriorityCritical | PriorityHigh | PriorityNormal | PriorityLow | PriorityOther string

definition CanPreempt :: "action_priority \<Rightarrow> bool" where
  "CanPreempt p = (p = PriorityCritical \<or> p = PriorityHigh)"

datatype robot_phase =
    RobotDiscovered | RobotIdle | RobotAssigned | RobotInProgress | RobotCharging | RobotError
  | RobotOffline | RobotMaintenance | RobotPhaseOther string

datatype robot_estop_state =
    EstopNormal | EstopStopping | EstopStopped | EstopResuming | EstopFailed
  | EstopStateOther string

datatype capability_status =
    CapActive | CapDegraded | CapPaused | CapInactive | CapUnavailable | CapFailed
  | CapOther string

datatype reservation_state = Reserved | Occupied | ReservationOther string

datatype reservation_policy =
    PolicyFIFO | PolicyPriority | PolicyPriorityWithDuration | PolicyManual | PolicyOther string

datatype model_status = ModelActive | ModelUpdating | ModelFailed | ModelInactive | ModelStatusOther string

datatype hardware_status =
    HardwareHealthy | HardwareDegraded | HardwareFailed | HardwareDisabled | HardwareOther string

datatype stop_scope =
    StopScopeRobot | StopScopeZone | StopScopeNamespace | StopScopeReported | StopScopeEndState
  | StopScopeOther string

datatype stop_carrier_kind = StopCarrierRobot | StopCarrierFleetZone | StopCarrierSwarmadaConfig | StopCarrierOther string

datatype estop_hold_kind = HoldFleetZone | HoldSwarmadaConfig | HoldOther string

subsection \<open>FleetZone\<close>

record zone_reservation =
  zr_robot :: string
  zr_action :: string
  zr_priority :: action_priority
  zr_state :: reservation_state
  zr_granted_at :: time
  zr_expires_at :: "time option"
  zr_entered_at :: "time option"

record resource_holder =
  h_robot :: string
  h_action :: string
  h_priority :: action_priority
  h_since :: time

record wait_entry =
  w_robot :: string
  w_action :: string
  w_priority :: action_priority
  w_requested_at :: time
  w_estimate :: "int option"

record resource_queue =
  q_name :: string
  q_holders :: "resource_holder list"
  q_waiting :: "wait_entry list"

record shared_resource =
  sr_name :: string
  sr_capacity :: int
  sr_policy :: reservation_policy

record zone_estop_policy =
  propagate_to_children :: "bool option"

definition PropagatesToChildren :: "zone_estop_policy \<Rightarrow> bool" where
  "PropagatesToChildren p =
     (propagate_to_children p = None \<or> propagate_to_children p = Some True)"

record fleet_zone =
  z_namespace :: string
  z_name :: string
  z_uid :: string
  z_annotations :: "string \<rightharpoonup> string"
  z_finalizers :: "string list"
  z_parent :: string
  z_members :: "string list"
  z_max_robots :: int
  z_shared :: "shared_resource list"
  z_estop_policy :: "zone_estop_policy option"
  z_reservations :: "zone_reservation list"
  z_queues :: "resource_queue list"
  z_current_robots :: int

record swarmada_config =
  c_name :: string
  c_uid :: string
  c_annotations :: "string \<rightharpoonup> string"

subsection \<open>Robot\<close>

record capability_entry =
  cap_name :: string
  cap_status :: capability_status
  cap_paused :: bool
  cap_reason :: string
  cap_params :: "string \<rightharpoonup> float64"
  cap_degraded_schedulable :: bool
  cap_degraded_since :: "time option"

record sensor_stream =
  ss_id :: string
  ss_required :: "string list"

record estop_hold =
  eh_kind :: estop_hold_kind
  eh_name :: string
  eh_uid :: string
  eh_since :: time

record stop_carrier_ref =
  sc_kind :: stop_carrier_kind
  sc_name :: string
  sc_uid :: string

record robot_stop =
  stop_id :: string
  stop_scope :: stop_scope
  stop_carrier :: "stop_carrier_ref option"
  stop_sent_at :: time
  stop_acknowledged_at :: "time option"
  stop_cleared_at :: "time option"

record estop_baseline =
  bl_active :: "string list"
  bl_recorded_at :: time

text \<open>
  Of the models a robot carries, the record keeps what names a capability: the capabilities each
  model of the spec grants (\<open>r_spec_models\<close>), those a rollout granted (\<open>r_model_grants\<close>), and the
  model that provides each declared capability (\<open>r_capability_models\<close>). \<open>r_min_battery\<close> is
  \<^verbatim>\<open>spec.constraints.minBatteryPctForAction\<close>.
\<close>

record robot =
  r_namespace :: string
  r_name :: string
  r_uid :: string
  r_annotations :: "string \<rightharpoonup> string"
  r_deletion_timestamp :: "time option"
  r_manufacturer :: string
  r_adapter :: string
  r_spec_zone :: string
  r_phase :: robot_phase
  r_battery :: "int option"
  r_capabilities :: "capability_entry list"
  r_sensor_streams :: "sensor_stream list"
  r_current_zone :: string
  r_estop_state :: robot_estop_state
  r_held_by :: "estop_hold list"
  r_estop_baseline :: "estop_baseline option"
  r_stops :: "robot_stop list"
  r_hardware :: "(string \<times> hardware_status) list"
  r_assigned_action :: string
  r_min_battery :: "int option"
  r_spec_models :: "(string \<times> string list) list"
  r_model_grants :: "(string \<times> string list) list"
  r_capability_models :: "(string \<times> string) list"
  r_model_status :: "(string \<times> model_status) list"

subsection \<open>FleetAction\<close>

text \<open>
  \<^verbatim>\<open>spec.executor\<close> is only tested for presence, so its content is left abstract as the
  endpoint's name. Of a status condition the type and the reason are kept.
\<close>

record owner_reference =
  or_api_version :: string
  or_kind :: string
  or_name :: string
  or_controller :: "bool option"

record fleet_action =
  a_namespace :: string
  a_name :: string
  a_owners :: "owner_reference list"
  a_executor :: "string option"
  a_required :: "string list"
  a_constraints :: "(string \<times> float64) list"
  a_accept_degraded :: "bool option"
  a_zone :: string
  a_min_battery :: "int option"
  a_robot_selector :: string
  a_preferred_robot :: string
  a_preferred_manufacturer :: string
  a_on_failure :: string
  a_max_retries :: "int option"
  a_created :: time
  a_phase :: action_phase
  a_assigned_robot :: string
  a_generation :: int
  a_scheduled_at :: "time option"
  a_retry_count :: int
  a_lease_expires :: "time option"
  a_pending_since :: "time option"
  a_completion :: "time option"
  a_failed_at :: "time option"
  a_conditions :: "(string \<times> string) list"

subsection \<open>The robot identity on the wire\<close>

definition RobotIDAnnotation :: string where
  "RobotIDAnnotation = ''swarmada.io/robot-id''"

text \<open>
  \<^verbatim>\<open>robotid.Wire\<close> (\<^verbatim>\<open>internal/robotid\<close>): the annotation, or the name when
  the annotation is absent or empty.
\<close>

definition Wire :: "robot \<Rightarrow> string" where
  "Wire r = (case r_annotations r RobotIDAnnotation of
     Some w \<Rightarrow> if w \<noteq> [] then w else r_name r
   | None \<Rightarrow> r_name r)"

text \<open>
  \<^verbatim>\<open>robotid.Lookup\<close> over the robots a successful list of the namespace returned: no match
  is \<open>Inr None\<close>, more than one match is an error, which names the first two.
\<close>

datatype lookup_error = Unreadable | Ambiguous string string

fun lookup_scan :: "string \<Rightarrow> robot option \<Rightarrow> robot list \<Rightarrow> lookup_error + robot option" where
  "lookup_scan wid m [] = Inr m"
| "lookup_scan wid m (r # rs) =
     (if Wire r \<noteq> wid then lookup_scan wid m rs
      else case m of
          Some m' \<Rightarrow> Inl (Ambiguous (r_name m') (r_name r))
        | None \<Rightarrow> lookup_scan wid (Some r) rs)"

definition Lookup :: "robot list option \<Rightarrow> string \<Rightarrow> lookup_error + robot option" where
  "Lookup listed wid = (case listed of None \<Rightarrow> Inl Unreadable | Some rs \<Rightarrow> lookup_scan wid None rs)"

subsection \<open>Sample objects\<close>

text \<open>A robot and an action the witnesses of several components start from.\<close>

definition sample_robot :: "string \<Rightarrow> int \<Rightarrow> robot" where
  "sample_robot n b = \<lparr>r_namespace = ''n'', r_name = n, r_uid = n, r_annotations = Map.empty,
     r_deletion_timestamp = None, r_manufacturer = ''acme'', r_adapter = ''ad'', r_spec_zone = ''z'',
     r_phase = RobotIdle, r_battery = Some b,
     r_capabilities = [\<lparr>cap_name = ''lift'', cap_status = CapActive, cap_paused = False, cap_reason = [], cap_params = [''kg'' \<mapsto> Fin 20],
       cap_degraded_schedulable = False, cap_degraded_since = None\<rparr>],
     r_sensor_streams = [], r_current_zone = ''z'', r_estop_state = EstopNormal, r_held_by = [],
     r_estop_baseline = None, r_stops = [], r_hardware = [], r_assigned_action = [], r_min_battery = None, r_spec_models = [],
     r_model_grants = [], r_capability_models = [], r_model_status = []\<rparr>"

definition sample_action :: fleet_action where
  "sample_action = \<lparr>a_namespace = ''n'', a_name = ''act'', a_owners = [], a_executor = None, a_required = [''lift''],
     a_constraints = [(''kg'', Fin 10)], a_accept_degraded = None, a_zone = [], a_min_battery = None, a_robot_selector = [],
     a_preferred_robot = [], a_preferred_manufacturer = [], a_on_failure = [], a_max_retries = None, a_created = 0, a_phase = PhasePending, a_assigned_robot = [], a_generation = 0,
     a_scheduled_at = None, a_retry_count = 0,
     a_lease_expires = None, a_pending_since = None, a_completion = None, a_failed_at = None, a_conditions = []\<rparr>"

subsection \<open>Lemmas\<close>

lemma lookup_scan_Some:
  "lookup_scan wid (Some m) rs = Inr x \<longleftrightarrow>
     x = Some m \<and> filter (\<lambda>r. Wire r = wid) rs = []"
  by (induction rs) auto

lemma lookup_scan_None:
  "lookup_scan wid None rs = Inr x \<longleftrightarrow>
     filter (\<lambda>r. Wire r = wid) rs = (case x of None \<Rightarrow> [] | Some m \<Rightarrow> [m])"
  by (induction rs) (auto simp: lookup_scan_Some split: option.splits)

lemma Lookup_unique:
  "Lookup (Some rs) wid = Inr (Some m) \<longleftrightarrow> filter (\<lambda>r. Wire r = wid) rs = [m]"
  by (simp add: Lookup_def lookup_scan_None)

end
