(* ===== verification/FlowTypes.thy ===== *)
theory FlowTypes
  imports Api
begin

text \<open>
  The data of a \<^verbatim>\<open>FleetTaskSpec.flow\<close> tree (\<^verbatim>\<open>api/v1/fleettask_flow_types.go\<close>)
  and of its evaluation (the types at the head of \<^verbatim>\<open>internal/flow/evaluator.go\<close>).
  Every node keeps all five optional fields of the Go struct: that at most one is set is a rule
  the validator checks, not a fact of the type.
\<close>

subsection \<open>The tree\<close>

datatype join_mode = JoinAll | JoinAny | JoinQuorum | JoinFirst | JoinModeOther string

datatype on_join = CancelSiblings | LetRunToCompletion | OnJoinOther string

datatype on_branch_failure = FailNode | IgnoreFailure | OnBranchFailureOther string

datatype loop_mode = LoopOnce | LoopTimes | LoopForever | LoopModeOther string

record join_spec =
  js_mode :: join_mode
  js_quorum :: "int option"

record until_event =
  ue_type :: string
  ue_from :: string

record until_result =
  ur_member :: string
  ur_field :: string
  ur_equals :: string

record until_condition =
  uc_event :: "until_event option"
  uc_result :: "until_result option"

record flow_retention =
  keep_iteration_records :: int
  keep_children :: int
  keep_failed_children :: int

record select_subject =
  sj_member :: string
  sj_event :: "string option"
  sj_from :: string
  sj_field :: string

definition Producer :: "select_subject \<Rightarrow> string" where
  "Producer s = (if sj_event s \<noteq> None then sj_from s else sj_member s)"

record select_range =
  rg_field :: string
  rg_lt :: "float64 option"
  rg_lte :: "float64 option"
  rg_gt :: "float64 option"
  rg_gte :: "float64 option"

datatype flow_node =
  FlowNode
    (n_run: "string option")
    (n_sequence: "flow_node list")
    (n_parallel: "parallel_node option")
    (n_loop: "loop_node option")
    (n_select: "select_node option")
and parallel_node =
  ParallelNode
    (p_branches: "flow_node list")
    (p_join: "join_spec option")
    (p_on_join: on_join)
    (p_on_branch_failure: on_branch_failure)
and loop_node =
  LoopNode
    (l_mode: loop_mode)
    (l_times: "int option")
    (l_body: flow_node)
    (l_until: "until_condition list option")
    (l_interrupt_running: bool)
    (l_max_iterations: "int option")
    (l_max_duration_seconds: "int option")
    (l_retention: "flow_retention option")
and select_node =
  SelectNode
    (s_subject: select_subject)
    (s_cases: "select_case list")
    (s_default: flow_node)
and select_case =
  SelectCase
    (k_equals: "string option")
    (k_in: "string list")
    (k_range: "select_range option")
    (k_present: "bool option")
    (k_when: "string option")
    (k_then: flow_node)

subsection \<open>Evaluation state\<close>

datatype outcome = InProgress | Succeeded | Failed | Cancelled

definition Settled :: "outcome \<Rightarrow> bool" where
  "Settled o' = (o' = Succeeded \<or> o' = Failed \<or> o' = Cancelled)"

lemma Settled_simps [simp]:
  "\<not> Settled InProgress" "Settled Succeeded" "Settled Failed" "Settled Cancelled"
  by (simp_all add: Settled_def)

lemma not_Settled_iff: "\<not> Settled o' \<longleftrightarrow> o' = InProgress"
  by (cases o') auto

record ref =
  ref_member :: string
  ref_iteration :: int

record action_event =
  ev_type :: string
  ev_seq :: int
  ev_payload :: "string \<rightharpoonup> string"

text \<open>
  Of \<^verbatim>\<open>status.result\<close> the evaluator reads \<^verbatim>\<open>values\<close> only, so the result of a
  child is the map of its values.
\<close>

record child_state =
  cs_exists :: bool
  cs_phase :: action_phase
  cs_result :: "(string \<rightharpoonup> string) option"
  cs_events :: "action_event list"
  cs_events_dropped :: int

record loop_progress =
  lp_iteration :: int
  lp_started_at :: "time option"

record flow_context =
  ctx_now :: time
  ctx_child :: "string \<Rightarrow> int \<Rightarrow> child_state"
  ctx_loop :: "string \<Rightarrow> loop_progress"

record iteration_settlement =
  is_anchor :: string
  is_iteration :: int
  is_outcome :: outcome

text \<open>
  The messages of \<^verbatim>\<open>Eval.Diagnostic\<close>, by the values they print: an event that was not
  readable when its producer settled (with the note on evicted events), and a case whose
  \<^verbatim>\<open>when\<close> clause cannot be evaluated.
\<close>

datatype absence_note = EventsEvicted int | NeverRaised

datatype flow_diagnostic =
    NoDiagnostic
  | EventNotReadable string string outcome absence_note
  | WhenNotEvaluable nat string

record flow_eval =
  e_ensure :: "ref list"
  e_cancel :: "ref list"
  e_settled :: "iteration_settlement list"
  e_start :: "(string \<times> int) list"
  e_diagnostic :: flow_diagnostic

end
