(* ===== verification/Flow.thy ===== *)
theory Flow
  imports FlowTypes
begin

text \<open>
  The flow evaluator (\<^verbatim>\<open>internal/flow/evaluator.go\<close>): a pure function of the tree and of
  the members' current children, which returns the tree's outcome and the requests of one pass.
  The Go code appends to the \<^verbatim>\<open>*Eval\<close> it is handed; here every function takes the
  \<^typ>\<open>flow_eval\<close> built so far and returns it extended.
\<close>

subsection \<open>Children\<close>

fun latest_from :: "string \<Rightarrow> action_event option \<Rightarrow> action_event list \<Rightarrow> action_event option" where
  "latest_from et best [] = best"
| "latest_from et best (e # es) =
     (if ev_type e \<noteq> et then latest_from et best es
      else case best of
          None \<Rightarrow> latest_from et (Some e) es
        | Some b \<Rightarrow> latest_from et (Some (if ev_seq b < ev_seq e then e else b)) es)"

definition LatestEvent :: "child_state \<Rightarrow> string \<Rightarrow> action_event option" where
  "LatestEvent c et = latest_from et None (cs_events c)"

definition EventAbsenceNote :: "child_state \<Rightarrow> absence_note" where
  "EventAbsenceNote c =
     (if 0 < cs_events_dropped c then EventsEvicted (cs_events_dropped c) else NeverRaised)"

definition child_outcome :: "child_state \<Rightarrow> outcome" where
  "child_outcome c =
     (if \<not> cs_exists c then InProgress
      else case cs_phase c of
          PhaseSucceeded \<Rightarrow> Succeeded
        | PhaseFailed \<Rightarrow> Failed
        | PhaseCancelled \<Rightarrow> Cancelled
        | _ \<Rightarrow> InProgress)"

definition nonTerminal :: "child_state \<Rightarrow> bool" where
  "nonTerminal c = (cs_exists c \<and> \<not> Settled (child_outcome c))"

subsection \<open>Requests\<close>

definition ensure :: "string \<Rightarrow> int \<Rightarrow> flow_eval \<Rightarrow> flow_eval" where
  "ensure m it out = out\<lparr>e_ensure := e_ensure out @ [\<lparr>ref_member = m, ref_iteration = it\<rparr>]\<rparr>"

definition cancel :: "string \<Rightarrow> int \<Rightarrow> flow_eval \<Rightarrow> flow_eval" where
  "cancel m it out = out\<lparr>e_cancel := e_cancel out @ [\<lparr>ref_member = m, ref_iteration = it\<rparr>]\<rparr>"

definition empty_eval :: flow_eval where
  "empty_eval = \<lparr>e_ensure = [], e_cancel = [], e_settled = [], e_start = [],
     e_diagnostic = NoDiagnostic\<rparr>"

subsection \<open>The anchor of a loop, and cancellation of a subtree\<close>

text \<open>\<^verbatim>\<open>anchorMember\<close>: the first \<^verbatim>\<open>run:\<close> leaf of a pre-order walk, or the empty string.\<close>

fun anchorMember :: "flow_node \<Rightarrow> string"
and anchor_list :: "flow_node list \<Rightarrow> string"
and anchor_cases :: "select_case list \<Rightarrow> string" where
  "anchorMember (FlowNode run seq par lp sel) =
     (case run of
        Some m \<Rightarrow> m
      | None \<Rightarrow>
          if seq \<noteq> [] then anchor_list seq
          else case par of
              Some (ParallelNode bs _ _ _) \<Rightarrow> anchor_list bs
            | None \<Rightarrow> (case lp of
                Some (LoopNode _ _ body _ _ _ _ _) \<Rightarrow> anchorMember body
              | None \<Rightarrow> (case sel of
                  Some (SelectNode _ cs d) \<Rightarrow>
                    (if anchor_cases cs \<noteq> [] then anchor_cases cs else anchorMember d)
                | None \<Rightarrow> [])))"
| "anchor_list [] = []"
| "anchor_list (n # ns) = (if anchorMember n \<noteq> [] then anchorMember n else anchor_list ns)"
| "anchor_cases [] = []"
| "anchor_cases (SelectCase _ _ _ _ _ n # cs) =
     (if anchorMember n \<noteq> [] then anchorMember n else anchor_cases cs)"

fun collectCancel :: "flow_node \<Rightarrow> int \<Rightarrow> flow_context \<Rightarrow> flow_eval \<Rightarrow> flow_eval"
and collect_list :: "flow_node list \<Rightarrow> int \<Rightarrow> flow_context \<Rightarrow> flow_eval \<Rightarrow> flow_eval"
and collect_cases :: "select_case list \<Rightarrow> int \<Rightarrow> flow_context \<Rightarrow> flow_eval \<Rightarrow> flow_eval" where
  "collectCancel (FlowNode run seq par lp sel) iter ctx out =
     (case run of
        Some m \<Rightarrow> if nonTerminal (ctx_child ctx m iter) then cancel m iter out else out
      | None \<Rightarrow>
          if seq \<noteq> [] then collect_list seq iter ctx out
          else case par of
              Some (ParallelNode bs _ _ _) \<Rightarrow> collect_list bs iter ctx out
            | None \<Rightarrow> (case lp of
                Some (LoopNode _ _ body _ _ _ _ _) \<Rightarrow>
                  (if anchorMember body = [] then out
                   else let p = ctx_loop ctx (anchorMember body) in
                     if 0 < lp_iteration p then collectCancel body (lp_iteration p) ctx out
                     else out)
              | None \<Rightarrow> (case sel of
                  Some (SelectNode _ cs d) \<Rightarrow>
                    collectCancel d iter ctx (collect_cases cs iter ctx out)
                | None \<Rightarrow> out)))"
| "collect_list [] iter ctx out = out"
| "collect_list (n # ns) iter ctx out = collect_list ns iter ctx (collectCancel n iter ctx out)"
| "collect_cases [] iter ctx out = out"
| "collect_cases (SelectCase _ _ _ _ _ n # cs) iter ctx out =
     collect_cases cs iter ctx (collectCancel n iter ctx out)"

subsection \<open>Joins\<close>

definition join_mode_of :: "parallel_node \<Rightarrow> join_mode" where
  "join_mode_of p = (case p_join p of
     None \<Rightarrow> JoinAll
   | Some j \<Rightarrow> if js_mode j \<noteq> JoinModeOther [] then js_mode j else JoinAll)"

definition quorum_of :: "parallel_node \<Rightarrow> int" where
  "quorum_of p = (case Option.bind (p_join p) js_quorum of
     Some q \<Rightarrow> q
   | None \<Rightarrow> wrap32 (int (length (p_branches p))))"

definition on_branch_failure_of :: "parallel_node \<Rightarrow> on_branch_failure" where
  "on_branch_failure_of p =
     (if p_on_branch_failure p \<noteq> OnBranchFailureOther [] then p_on_branch_failure p else FailNode)"

definition on_join_of :: "parallel_node \<Rightarrow> on_join" where
  "on_join_of p = (if p_on_join p \<noteq> OnJoinOther [] then p_on_join p else CancelSiblings)"

text \<open>
  The join table: \<open>None\<close> while the join is not satisfied, and the node's outcome once it
  is. A mode that is none of First, Any and Quorum is treated as All.
\<close>

definition join_result :: "parallel_node \<Rightarrow> outcome list \<Rightarrow> outcome option" where
  "join_result p outs =
     (let succeeded = length (filter (\<lambda>o'. o' = Succeeded) outs);
          settled = length (filter Settled outs);
          total = length outs
      in case join_mode_of p of
          JoinFirst \<Rightarrow> find Settled outs
        | JoinAny \<Rightarrow>
            (if 1 \<le> succeeded then Some Succeeded
             else if settled = total then Some Failed else None)
        | JoinQuorum \<Rightarrow>
            (if quorum_of p \<le> wrap32 (int succeeded) then Some Succeeded
             else if wrap32 (int (succeeded + (total - settled))) < quorum_of p then Some Failed
             else None)
        | _ \<Rightarrow>
            (if (\<exists>o' \<in> set outs. o' = Failed \<and> on_branch_failure_of p = FailNode \<or> o' = Cancelled)
             then Some Failed
             else if settled = total then Some Succeeded else None))"

fun cancel_unsettled :: "flow_node list \<Rightarrow> outcome list \<Rightarrow> int \<Rightarrow> flow_context \<Rightarrow> flow_eval
    \<Rightarrow> flow_eval" where
  "cancel_unsettled (b # bs) (o' # os) iter ctx out =
     cancel_unsettled bs os iter ctx (if Settled o' then out else collectCancel b iter ctx out)"
| "cancel_unsettled _ _ iter ctx out = out"

text \<open>The rest of \<^verbatim>\<open>evalParallel\<close>, once the branches have been evaluated.\<close>

definition settle_parallel :: "parallel_node \<Rightarrow> outcome list \<Rightarrow> int \<Rightarrow> flow_context \<Rightarrow> flow_eval
    \<Rightarrow> outcome \<times> flow_eval" where
  "settle_parallel p outs iter ctx out =
     (case join_result p outs of
        None \<Rightarrow> (InProgress, out)
      | Some o' \<Rightarrow>
          let out' = (if on_join_of p = CancelSiblings
                      then cancel_unsettled (p_branches p) outs iter ctx out else out)
          in if length (filter Settled outs) < length outs then (InProgress, out') else (o', out'))"

subsection \<open>Loop bounds\<close>

definition resolveUntilEvent :: "until_event \<Rightarrow> int \<Rightarrow> flow_context \<Rightarrow> bool" where
  "resolveUntilEvent e it ctx =
     (let has = (\<lambda>i. let st = ctx_child ctx (ue_from e) i
                     in cs_exists st \<and> LatestEvent st (ue_type e) \<noteq> None)
      in has it \<or> it \<noteq> 0 \<and> has 0)"

definition resolveUntilResult :: "until_result \<Rightarrow> int \<Rightarrow> flow_context \<Rightarrow> string option" where
  "resolveUntilResult r it ctx =
     (let val = (\<lambda>i. let st = ctx_child ctx (ur_member r) i
                     in if cs_exists st then Option.bind (cs_result st) (\<lambda>vs. vs (ur_field r))
                        else None)
      in case val it of Some v \<Rightarrow> Some v | None \<Rightarrow> val 0)"

definition until_matches :: "until_condition \<Rightarrow> int \<Rightarrow> flow_context \<Rightarrow> bool" where
  "until_matches c it ctx =
     (case uc_event c of
        Some e \<Rightarrow> resolveUntilEvent e it ctx
      | None \<Rightarrow> (case uc_result c of
          Some r \<Rightarrow> resolveUntilResult r it ctx = Some (ur_equals r)
        | None \<Rightarrow> False))"

definition loopBoundSatisfied :: "loop_node \<Rightarrow> loop_progress \<Rightarrow> flow_context \<Rightarrow> bool" where
  "loopBoundSatisfied l p ctx =
     ((case l_until l of
         Some cs \<Rightarrow> list_ex (\<lambda>c. until_matches c (lp_iteration p) ctx) cs
       | None \<Rightarrow> False)
      \<or> (case l_max_iterations l of Some n \<Rightarrow> n \<le> lp_iteration p | None \<Rightarrow> False)
      \<or> (case (l_max_duration_seconds l, lp_started_at p) of
           (Some d, Some t) \<Rightarrow> \<not> ctx_now ctx < t + d * second
         | _ \<Rightarrow> False))"

subsection \<open>Selection\<close>

definition in_range :: "select_range \<Rightarrow> float64 \<Rightarrow> bool" where
  "in_range r f =
     ((case rg_lt r of Some b \<Rightarrow> flt f b | None \<Rightarrow> True)
      \<and> (case rg_lte r of Some b \<Rightarrow> fle f b | None \<Rightarrow> True)
      \<and> (case rg_gt r of Some b \<Rightarrow> flt b f | None \<Rightarrow> True)
      \<and> (case rg_gte r of Some b \<Rightarrow> fle b f | None \<Rightarrow> True))"

definition caseMatches :: "select_case \<Rightarrow> string \<Rightarrow> (string \<rightharpoonup> string) \<Rightarrow> bool" where
  "caseMatches c field vals =
     (case k_present c of
        Some b \<Rightarrow> (vals field \<noteq> None) = b
      | None \<Rightarrow> (case k_equals c of
          Some x \<Rightarrow> vals field = Some x
        | None \<Rightarrow>
            if k_in c \<noteq> [] then (case vals field of None \<Rightarrow> False | Some v \<Rightarrow> v \<in> set (k_in c))
            else (case k_range c of
              Some r \<Rightarrow>
                (case vals (if rg_field r \<noteq> [] then rg_field r else field) of
                   None \<Rightarrow> False
                 | Some v \<Rightarrow> (case parse_float v of None \<Rightarrow> False | Some f \<Rightarrow> in_range r f))
            | None \<Rightarrow> False)))"

definition resultValues :: "(string \<rightharpoonup> string) option \<Rightarrow> string \<rightharpoonup> string" where
  "resultValues r = (case r of None \<Rightarrow> Map.empty | Some vs \<Rightarrow> vs)"

subsection \<open>The evaluator\<close>

definition evalRun :: "string \<Rightarrow> int \<Rightarrow> flow_context \<Rightarrow> flow_eval \<Rightarrow> outcome \<times> flow_eval" where
  "evalRun m iter ctx out =
     (let st = ctx_child ctx m iter
      in (child_outcome st, if cs_exists st then out else ensure m iter out))"

text \<open>
  The two halves of \<^verbatim>\<open>evalLoop\<close> around the evaluation of its body: the cancellation of the
  running iteration once the loop may exit, and what the outcome of the body leads to.
\<close>

definition interrupt_running :: "loop_node \<Rightarrow> flow_context \<Rightarrow> flow_eval \<Rightarrow> flow_eval" where
  "interrupt_running l ctx out =
     (let p = ctx_loop ctx (anchorMember (l_body l))
      in if l_interrupt_running l \<and> loopBoundSatisfied l p ctx
         then collectCancel (l_body l) (lp_iteration p) ctx out else out)"

definition loop_continue :: "loop_node \<Rightarrow> flow_context \<Rightarrow> outcome \<Rightarrow> flow_eval
    \<Rightarrow> outcome \<times> flow_eval" where
  "loop_continue l ctx o' out0 =
     (let anchor = anchorMember (l_body l);
          p = ctx_loop ctx anchor;
          exitReady = loopBoundSatisfied l p ctx;
          out = out0\<lparr>e_settled := e_settled out0 @
            [\<lparr>is_anchor = anchor, is_iteration = lp_iteration p, is_outcome = o'\<rparr>]\<rparr>;
          again = (InProgress, out\<lparr>e_start := put anchor (wrap32 (lp_iteration p + 1)) (e_start out)\<rparr>)
      in if \<not> Settled o' then (InProgress, out0)
         else if o' = Failed then (Failed, out)
         else if o' = Cancelled \<and> \<not> exitReady then (Cancelled, out)
         else case l_mode l of
             LoopOnce \<Rightarrow> (Succeeded, out)
           | LoopTimes \<Rightarrow>
               (if (case l_times l of Some n \<Rightarrow> n | None \<Rightarrow> 1) \<le> lp_iteration p
                then (Succeeded, out) else again)
           | LoopForever \<Rightarrow> (if exitReady then (Succeeded, out) else again)
           | LoopModeOther _ \<Rightarrow> (Failed, out))"

text \<open>
  How \<^verbatim>\<open>evalSelect\<close> reads its subject: \<open>Inl\<close> is the outcome of a pass that does not get to
  the cases, \<open>Inr\<close> the map of values the cases are matched against.
\<close>

definition read_subject :: "select_subject \<Rightarrow> int \<Rightarrow> flow_context \<Rightarrow> flow_eval
    \<Rightarrow> (outcome \<times> flow_eval) + (string \<rightharpoonup> string)" where
  "read_subject subj iter ctx out =
     (case sj_event subj of
        Some et \<Rightarrow>
          (let st = ctx_child ctx (sj_from subj) iter
           in if \<not> cs_exists st then Inl (InProgress, ensure (sj_from subj) iter out)
              else case LatestEvent st et of
                  None \<Rightarrow>
                    (if \<not> Settled (child_outcome st) then Inl (InProgress, out)
                     else Inl (Failed, out\<lparr>e_diagnostic := EventNotReadable et (sj_from subj)
                             (child_outcome st) (EventAbsenceNote st)\<rparr>))
                | Some ev \<Rightarrow> Inr (ev_payload ev))
      | None \<Rightarrow>
          (let st = ctx_child ctx (sj_member subj) iter
           in if \<not> cs_exists st then Inl (InProgress, ensure (sj_member subj) iter out)
              else if \<not> Settled (child_outcome st) then Inl (InProgress, out)
              else if child_outcome st \<noteq> Succeeded then Inl (child_outcome st, out)
              else Inr (resultValues (cs_result st))))"

function (sequential) evalNode :: "flow_node \<Rightarrow> int \<Rightarrow> flow_context \<Rightarrow> flow_eval \<Rightarrow> outcome \<times> flow_eval"
and evalSequence :: "flow_node list \<Rightarrow> int \<Rightarrow> flow_context \<Rightarrow> flow_eval \<Rightarrow> outcome \<times> flow_eval"
and evalBranches :: "flow_node list \<Rightarrow> int \<Rightarrow> flow_context \<Rightarrow> flow_eval \<Rightarrow> outcome list \<times> flow_eval"
and evalParallel :: "parallel_node \<Rightarrow> int \<Rightarrow> flow_context \<Rightarrow> flow_eval \<Rightarrow> outcome \<times> flow_eval"
and evalLoop :: "loop_node \<Rightarrow> flow_context \<Rightarrow> flow_eval \<Rightarrow> outcome \<times> flow_eval"
and evalSelect :: "select_node \<Rightarrow> int \<Rightarrow> flow_context \<Rightarrow> flow_eval \<Rightarrow> outcome \<times> flow_eval"
and evalCases :: "select_case list \<Rightarrow> nat \<Rightarrow> string \<Rightarrow> (string \<rightharpoonup> string) \<Rightarrow> int \<Rightarrow> flow_context
    \<Rightarrow> flow_eval \<Rightarrow> (outcome \<times> flow_eval) option" where
  "evalNode (FlowNode run seq par lp sel) iter ctx out =
     (case run of
        Some m \<Rightarrow> evalRun m iter ctx out
      | None \<Rightarrow>
          if seq \<noteq> [] then evalSequence seq iter ctx out
          else case par of
              Some p \<Rightarrow> evalParallel p iter ctx out
            | None \<Rightarrow> (case lp of
                Some l \<Rightarrow> evalLoop l ctx out
              | None \<Rightarrow> (case sel of
                  Some s \<Rightarrow> evalSelect s iter ctx out
                | None \<Rightarrow> (Succeeded, out))))"
| "evalSequence [] iter ctx out = (Succeeded, out)"
| "evalSequence (n # ns) iter ctx out =
     (case evalNode n iter ctx out of (o', out') \<Rightarrow>
        if o' = Succeeded then evalSequence ns iter ctx out' else (o', out'))"
| "evalBranches [] iter ctx out = ([], out)"
| "evalBranches (n # ns) iter ctx out =
     (case evalNode n iter ctx out of (o', out') \<Rightarrow>
        (case evalBranches ns iter ctx out' of (os, out'') \<Rightarrow> (o' # os, out'')))"
| "evalParallel (ParallelNode bs j oj obf) iter ctx out =
     (case evalBranches bs iter ctx out of (outs, out') \<Rightarrow>
        settle_parallel (ParallelNode bs j oj obf) outs iter ctx out')"
| "evalLoop (LoopNode mode tms body unt intr maxit maxdur ret) ctx out =
     (if anchorMember body = [] then (Succeeded, out)
      else if lp_iteration (ctx_loop ctx (anchorMember body)) = 0
      then (InProgress, out\<lparr>e_start := put (anchorMember body) 1 (e_start out)\<rparr>)
      else case evalNode body (lp_iteration (ctx_loop ctx (anchorMember body))) ctx
                  (interrupt_running (LoopNode mode tms body unt intr maxit maxdur ret) ctx out)
           of (o', out') \<Rightarrow>
             loop_continue (LoopNode mode tms body unt intr maxit maxdur ret) ctx o' out')"
| "evalSelect (SelectNode subj cs d) iter ctx out =
     (case read_subject subj iter ctx out of
        Inl r \<Rightarrow> r
      | Inr vals \<Rightarrow>
          (case evalCases cs 0 (sj_field subj) vals iter ctx out of
             Some r \<Rightarrow> r
           | None \<Rightarrow> evalNode d iter ctx out))"
| "evalCases [] i field vals iter ctx out = None"
| "evalCases (SelectCase eq ins rng pres wh thn # cs) i field vals iter ctx out =
     (case wh of
        Some w \<Rightarrow> Some (Failed, out\<lparr>e_diagnostic := WhenNotEvaluable i w\<rparr>)
      | None \<Rightarrow>
          if caseMatches (SelectCase eq ins rng pres wh thn) field vals
          then Some (evalNode thn iter ctx out)
          else evalCases cs (Suc i) field vals iter ctx out)"
  by pat_completeness auto

termination
  by (relation "measure (case_sum
        (case_sum (\<lambda>(n, _). size n)
          (case_sum (\<lambda>(ns, _). size_list size ns) (\<lambda>(ns, _). size_list size ns)))
        (case_sum (case_sum (\<lambda>(p, _). size p) (\<lambda>(l, _). size l))
          (case_sum (\<lambda>(s, _). size s) (\<lambda>(cs, _). size_list size cs))))")
    auto

text \<open>\<^verbatim>\<open>Evaluate\<close>: an absent root is the no-op.\<close>

definition Evaluate :: "flow_node option \<Rightarrow> flow_context \<Rightarrow> outcome \<times> flow_eval" where
  "Evaluate tree ctx =
     (case tree of None \<Rightarrow> (Succeeded, empty_eval) | Some n \<Rightarrow> evalNode n 0 ctx empty_eval)"

subsection \<open>Vocabulary of the specification\<close>

fun nodes_of :: "flow_node \<Rightarrow> flow_node list"
and nodes_list :: "flow_node list \<Rightarrow> flow_node list"
and nodes_cases :: "select_case list \<Rightarrow> flow_node list" where
  "nodes_of (FlowNode run seq par lp sel) = FlowNode run seq par lp sel #
     (case run of
        Some m \<Rightarrow> []
      | None \<Rightarrow>
          if seq \<noteq> [] then nodes_list seq
          else case par of
              Some (ParallelNode bs _ _ _) \<Rightarrow> nodes_list bs
            | None \<Rightarrow> (case lp of
                Some (LoopNode _ _ body _ _ _ _ _) \<Rightarrow> nodes_of body
              | None \<Rightarrow> (case sel of
                  Some (SelectNode _ cs d) \<Rightarrow> nodes_cases cs @ nodes_of d
                | None \<Rightarrow> [])))"
| "nodes_list [] = []"
| "nodes_list (n # ns) = nodes_of n @ nodes_list ns"
| "nodes_cases [] = []"
| "nodes_cases (SelectCase _ _ _ _ _ n # cs) = nodes_of n @ nodes_cases cs"

definition member_of :: "flow_node \<Rightarrow> string option" where
  "member_of n = (case n_run n of
     Some m \<Rightarrow> Some m
   | None \<Rightarrow> (if n_sequence n = [] \<and> n_parallel n = None \<and> n_loop n = None
              then map_option (\<lambda>s. Producer (s_subject s)) (n_select n) else None))"

definition names_in :: "string set \<Rightarrow> flow_node list \<Rightarrow> bool" where
  "names_in M ns = (\<forall>n \<in> set ns. \<forall>m. member_of n = Some m \<longrightarrow> m \<in> M)"

definition new_ok :: "('a \<Rightarrow> bool) \<Rightarrow> 'a list \<Rightarrow> 'a list \<Rightarrow> bool" where
  "new_ok P xs ys = (\<forall>y \<in> set ys. y \<in> set xs \<or> P y)"

definition sound_requests :: "string set \<Rightarrow> flow_context \<Rightarrow> flow_eval \<Rightarrow> flow_eval \<Rightarrow> bool" where
  "sound_requests M ctx out out' =
     (new_ok (\<lambda>r. ref_member r \<in> M \<and> \<not> cs_exists (ctx_child ctx (ref_member r) (ref_iteration r)))
        (e_ensure out) (e_ensure out')
      \<and> new_ok (\<lambda>r. ref_member r \<in> M \<and> nonTerminal (ctx_child ctx (ref_member r) (ref_iteration r)))
        (e_cancel out) (e_cancel out')
      \<and> new_ok (\<lambda>(a, k). k = wrap32 (lp_iteration (ctx_loop ctx a) + 1)) (e_start out) (e_start out')
      \<and> new_ok (\<lambda>s. Settled (is_outcome s) \<and> is_iteration s = lp_iteration (ctx_loop ctx (is_anchor s)))
        (e_settled out) (e_settled out'))"

definition monotone_requests :: "string set \<Rightarrow> flow_context \<Rightarrow> flow_eval \<Rightarrow> flow_eval \<Rightarrow> bool" where
  "monotone_requests M ctx out out' =
     (set (e_ensure out) \<subseteq> set (e_ensure out') \<and> set (e_cancel out) \<subseteq> set (e_cancel out')
      \<and> set (keys (e_start out)) \<subseteq> set (keys (e_start out')))"

definition quiet :: "flow_eval \<Rightarrow> flow_eval \<Rightarrow> bool" where
  "quiet out out' = (e_ensure out' = e_ensure out \<and> e_start out' = e_start out)"

definition waiting :: "string set \<Rightarrow> flow_context \<Rightarrow> bool" where
  "waiting M ctx = (\<exists>m \<in> M. \<exists>it. nonTerminal (ctx_child ctx m it))"

definition progress :: "string set \<Rightarrow> flow_context \<Rightarrow> flow_eval \<Rightarrow> bool" where
  "progress M ctx out = (e_ensure out \<noteq> [] \<or> e_start out \<noteq> [] \<or> waiting M ctx)"

definition has_branches :: "flow_node \<Rightarrow> bool" where
  "has_branches n = (\<forall>p. n_parallel n = Some p \<longrightarrow> p_branches p \<noteq> [])"

definition branching :: "flow_node list \<Rightarrow> bool" where
  "branching ns = (\<forall>n \<in> set ns. has_branches n)"

definition loop_free :: "flow_node list \<Rightarrow> bool" where
  "loop_free ns = (\<forall>n \<in> set ns. n_loop n = None)"

definition iteration_limit :: "loop_node \<Rightarrow> int option" where
  "iteration_limit l = (case l_mode l of
     LoopTimes \<Rightarrow> Some (case l_times l of Some n \<Rightarrow> n | None \<Rightarrow> 1)
   | LoopForever \<Rightarrow> l_max_iterations l
   | _ \<Rightarrow> Some 1)"

definition deciding_case :: "string \<Rightarrow> (string \<rightharpoonup> string) \<Rightarrow> select_case list \<Rightarrow> (nat \<times> select_case) option" where
  "deciding_case field vals cs = find (\<lambda>(i, c). k_when c \<noteq> None \<or> caseMatches c field vals) (enumerate 0 cs)"

definition leaf :: "string \<Rightarrow> flow_node" where
  "leaf m = FlowNode (Some m) [] None None None"

definition no_child :: child_state where
  "no_child = \<lparr>cs_exists = False, cs_phase = PhaseOther [], cs_result = None, cs_events = [], cs_events_dropped = 0\<rparr>"

definition child_in :: "action_phase \<Rightarrow> child_state" where
  "child_in ph = \<lparr>cs_exists = True, cs_phase = ph, cs_result = None, cs_events = [], cs_events_dropped = 0\<rparr>"

definition sample_context :: "int \<Rightarrow> (string \<Rightarrow> int \<Rightarrow> child_state) \<Rightarrow> flow_context" where
  "sample_context i child = \<lparr>ctx_now = 0, ctx_child = child,
     ctx_loop = (\<lambda>a. \<lparr>lp_iteration = i, lp_started_at = None\<rparr>)\<rparr>"

definition times_loop :: "int \<Rightarrow> flow_node \<Rightarrow> loop_node" where
  "times_loop n body = LoopNode LoopTimes (Some n) body None False None None None"

subsection \<open>Lemmas\<close>

lemma names_in_simps [simp]:
  "names_in M []"
  "names_in M (n # ns) = ((\<forall>m. member_of n = Some m \<longrightarrow> m \<in> M) \<and> names_in M ns)"
  "names_in M (xs @ ys) = (names_in M xs \<and> names_in M ys)"
  by (auto simp: names_in_def)

lemma member_of_simps [simp]:
  "member_of (FlowNode (Some m) seq par lp sel) = Some m"
  "seq \<noteq> [] \<Longrightarrow> member_of (FlowNode None seq par lp sel) = None"
  "member_of (FlowNode None seq (Some p) lp sel) = None"
  "member_of (FlowNode None seq par (Some l) sel) = None"
  "member_of (FlowNode None [] None None (Some (SelectNode s cs d))) = Some (Producer s)"
  "member_of (FlowNode None [] None None None) = None"
  by (auto simp: member_of_def split: option.splits)

locale request_relation =
  fixes R :: "string set \<Rightarrow> flow_context \<Rightarrow> flow_eval \<Rightarrow> flow_eval \<Rightarrow> bool"
  assumes rel_refl: "R M ctx out out"
    and rel_trans: "R M ctx x y \<Longrightarrow> R M ctx y z \<Longrightarrow> R M ctx x z"
    and rel_ensure: "m \<in> M \<Longrightarrow> \<not> cs_exists (ctx_child ctx m it) \<Longrightarrow> R M ctx out (ensure m it out)"
    and rel_cancel: "m \<in> M \<Longrightarrow> nonTerminal (ctx_child ctx m it) \<Longrightarrow> R M ctx out (cancel m it out)"
    and rel_settled: "Settled (is_outcome s) \<Longrightarrow> is_iteration s = lp_iteration (ctx_loop ctx (is_anchor s)) \<Longrightarrow>
      R M ctx out (out\<lparr>e_settled := e_settled out @ [s]\<rparr>)"
    and rel_start: "k = wrap32 (lp_iteration (ctx_loop ctx a) + 1) \<Longrightarrow>
      R M ctx out (out\<lparr>e_start := put a k (e_start out)\<rparr>)"
    and rel_diagnostic: "R M ctx out (out\<lparr>e_diagnostic := d\<rparr>)"
begin

lemma collect_rel:
  shows "names_in M (nodes_of n) \<Longrightarrow> R M ctx out (collectCancel n it ctx out)"
    and "names_in M (nodes_list ns) \<Longrightarrow> R M ctx out (collect_list ns it ctx out)"
    and "names_in M (nodes_cases cs) \<Longrightarrow> R M ctx out (collect_cases cs it ctx out)"
proof (induction n it ctx out and ns it ctx out and cs it ctx out
    rule: collectCancel_collect_list_collect_cases.induct)
  case (1 run seq par lp sel iter ctx out)
  then show ?case
    by (auto simp: Let_def intro: rel_refl rel_cancel rel_trans split: option.splits parallel_node.splits loop_node.splits select_node.splits)
qed (auto intro: rel_refl rel_trans)

lemma cancel_unsettled_rel:
  "names_in M (nodes_list bs) \<Longrightarrow> R M ctx out (cancel_unsettled bs os it ctx out)"
  by (induction bs os it ctx out rule: cancel_unsettled.induct)
    (auto intro: rel_refl rel_trans collect_rel)

lemma settle_parallel_rel:
  "names_in M (nodes_list (p_branches p)) \<Longrightarrow> R M ctx out (snd (settle_parallel p outs it ctx out))"
  by (auto simp: settle_parallel_def Let_def intro: rel_refl cancel_unsettled_rel split: option.splits)

lemma loop_continue_rel:
  "R M ctx out (snd (loop_continue l ctx o' out))"
proof -
  define a where "a = anchorMember (l_body l)"
  let ?p = "ctx_loop ctx a"
  let ?s = "\<lparr>is_anchor = a, is_iteration = lp_iteration ?p, is_outcome = o'\<rparr>"
  let ?out = "out\<lparr>e_settled := e_settled out @ [?s]\<rparr>"
  have 1: "R M ctx out ?out" if "Settled o'"
    using that by (intro rel_settled) auto
  then have 2: "R M ctx out (?out\<lparr>e_start := put a (wrap32 (lp_iteration ?p + 1)) (e_start ?out)\<rparr>)"
    if "Settled o'"
    using that by (blast intro: rel_trans rel_start)
  show ?thesis
    using 1 2 rel_refl
    by (auto simp: loop_continue_def Let_def a_def [symmetric] split: loop_mode.splits)
qed

lemma interrupt_running_rel:
  "names_in M (nodes_of (l_body l)) \<Longrightarrow> R M ctx out (interrupt_running l ctx out)"
  by (auto simp: interrupt_running_def Let_def intro: rel_refl collect_rel)

lemma read_subject_rel:
  "Producer subj \<in> M \<Longrightarrow> read_subject subj it ctx out = Inl r \<Longrightarrow> R M ctx out (snd r)"
  by (auto simp: read_subject_def Producer_def Let_def
      intro: rel_refl rel_ensure rel_diagnostic split: option.splits if_splits)

lemma eval_rel:
  shows "names_in M (nodes_of n) \<Longrightarrow> R M ctx out (snd (evalNode n it ctx out))"
    and "names_in M (nodes_list ns) \<Longrightarrow> R M ctx out (snd (evalSequence ns it ctx out))"
    and "names_in M (nodes_list bs) \<Longrightarrow> R M ctx out (snd (evalBranches bs it ctx out))"
    and "names_in M (nodes_list (p_branches p)) \<Longrightarrow> R M ctx out (snd (evalParallel p it ctx out))"
    and "names_in M (nodes_of (l_body l)) \<Longrightarrow> R M ctx out (snd (evalLoop l ctx out))"
    and "Producer (s_subject s) \<in> M \<Longrightarrow> names_in M (nodes_cases (s_cases s)) \<Longrightarrow> names_in M (nodes_of (s_default s)) \<Longrightarrow>
      R M ctx out (snd (evalSelect s it ctx out))"
    and "names_in M (nodes_cases cs) \<Longrightarrow> evalCases cs i f vs it ctx out = Some r \<Longrightarrow> R M ctx out (snd r)"
proof (induction n it ctx out and ns it ctx out and bs it ctx out and p it ctx out and l ctx out
    and s it ctx out and cs i f vs it ctx out arbitrary: and and and and and and r
    rule: evalNode_evalSequence_evalBranches_evalParallel_evalLoop_evalSelect_evalCases.induct)
  case (1 run seq par lp sel iter ctx out)
  then show ?case
    by (auto simp: evalRun_def Let_def simp del: evalSequence.simps evalParallel.simps evalLoop.simps
          evalSelect.simps intro: rel_refl rel_ensure
          split: option.splits parallel_node.splits loop_node.splits select_node.splits)
next
  case (2 iter ctx out)
  then show ?case by (simp add: rel_refl)
next
  case (3 n ns iter ctx out)
  then show ?case by (auto intro: rel_trans split: prod.splits)
next
  case (4 iter ctx out)
  then show ?case by (simp add: rel_refl)
next
  case (5 n ns iter ctx out)
  then show ?case by (auto intro: rel_trans split: prod.splits)
next
  case (6 bs j oj obf iter ctx out)
  then show ?case
    using settle_parallel_rel [of M "ParallelNode bs j oj obf"]
    by (auto intro: rel_trans split: prod.splits)
next
  case (7 mode tms body unt intr maxit maxdur ret ctx out)
  let ?l = "LoopNode mode tms body unt intr maxit maxdur ret"
  have "R M ctx out (interrupt_running ?l ctx out)"
    using 7 interrupt_running_rel [of M ?l] by simp
  moreover have "R M ctx out (out\<lparr>e_start := put (anchorMember body) 1 (e_start out)\<rparr>)"
    if "lp_iteration (ctx_loop ctx (anchorMember body)) = 0"
    using that by (intro rel_start) (simp add: wrap32_def)
  ultimately show ?case
    using 7 by (auto intro: rel_refl rel_trans [OF rel_trans loop_continue_rel] split: prod.splits)
next
  case (8 subj cs d iter ctx out)
  then show ?case
    by (auto simp: read_subject_rel split: sum.splits option.splits)
next
  case (9 i field vals iter ctx out)
  then show ?case by simp
next
  case (10 eq ins rng pres wh thn cs i field vals iter ctx out)
  then show ?case
    by (auto intro: rel_diagnostic split: option.splits if_splits)
qed

end

subsection \<open>What a pass may request\<close>

lemma new_ok_simps [simp]:
  "new_ok P xs xs"
  "P x \<Longrightarrow> new_ok P xs (xs @ [x])"
  by (auto simp: new_ok_def)

lemma new_ok_trans: "new_ok P xs ys \<Longrightarrow> new_ok P ys zs \<Longrightarrow> new_ok P xs zs"
  by (auto simp: new_ok_def)

lemma new_ok_put: "P (a, k) \<Longrightarrow> new_ok P xs (put a k xs)"
  by (induction xs) (auto simp: new_ok_def split: if_splits)

interpretation snd_req: request_relation sound_requests
  by unfold_locales
    (auto simp: sound_requests_def ensure_def cancel_def intro: new_ok_put elim: new_ok_trans)

interpretation mono_req: request_relation monotone_requests
  by unfold_locales (auto simp: monotone_requests_def ensure_def cancel_def)

lemma collect_frame:
  shows "e_ensure (collectCancel n it ctx out) = e_ensure out \<and> e_start (collectCancel n it ctx out) = e_start out"
    and "e_ensure (collect_list ns it ctx out) = e_ensure out \<and> e_start (collect_list ns it ctx out) = e_start out"
    and "e_ensure (collect_cases cs it ctx out) = e_ensure out \<and> e_start (collect_cases cs it ctx out) = e_start out"
  by (induction n it ctx out and ns it ctx out and cs it ctx out
    rule: collectCancel_collect_list_collect_cases.induct)
   (auto simp: Let_def cancel_def split: option.splits parallel_node.splits loop_node.splits select_node.splits)

lemma quiet_refl [simp]: "quiet out out"
  by (simp add: quiet_def)

lemma quiet_trans: "quiet x y \<Longrightarrow> quiet y z \<Longrightarrow> quiet x z"
  by (simp add: quiet_def)

lemma cancel_unsettled_frame: "quiet out (cancel_unsettled bs os it ctx out)"
  by (induction bs os it ctx out rule: cancel_unsettled.induct)
    (auto simp: collect_frame quiet_def split: if_splits)

lemma interrupt_running_frame: "quiet out (interrupt_running l ctx out)"
  by (simp add: interrupt_running_def Let_def collect_frame quiet_def)

lemma settle_parallel_frame: "quiet out (snd (settle_parallel p outs it ctx out))"
  by (auto simp: settle_parallel_def Let_def cancel_unsettled_frame split: option.splits)

lemma settle_parallel_settled:
  "Settled (fst (settle_parallel p outs it ctx out)) \<Longrightarrow> o' \<in> set outs \<Longrightarrow> Settled o'"
proof -
  assume "Settled (fst (settle_parallel p outs it ctx out))" and o': "o' \<in> set outs"
  then have "\<not> length (filter Settled outs) < length outs"
    by (auto simp: settle_parallel_def Let_def split: option.splits if_splits)
  then have "length (filter Settled outs) = length outs"
    using length_filter_le [of Settled outs] by linarith
  then show ?thesis
    using o' by (simp add: length_filter_eq_iff)
qed

lemma loop_continue_settled:
  "Settled (fst (loop_continue l ctx o' out)) \<Longrightarrow> Settled o' \<and> quiet out (snd (loop_continue l ctx o' out))"
  by (auto simp: loop_continue_def Let_def quiet_def split: if_splits loop_mode.splits)

lemma read_subject_settled:
  "read_subject subj it ctx out = Inl r \<Longrightarrow> Settled (fst r) \<Longrightarrow> quiet out (snd r)"
  by (auto simp: read_subject_def Let_def quiet_def split: option.splits if_splits)

lemma settled_quiet:
  shows "Settled (fst (evalNode n it ctx out)) \<Longrightarrow> quiet out (snd (evalNode n it ctx out))"
    and "Settled (fst (evalSequence ns it ctx out)) \<Longrightarrow> quiet out (snd (evalSequence ns it ctx out))"
    and "(\<forall>o' \<in> set (fst (evalBranches bs it ctx out)). Settled o') \<Longrightarrow>
      quiet out (snd (evalBranches bs it ctx out))"
    and "Settled (fst (evalParallel p it ctx out)) \<Longrightarrow> quiet out (snd (evalParallel p it ctx out))"
    and "Settled (fst (evalLoop l ctx out)) \<Longrightarrow> quiet out (snd (evalLoop l ctx out))"
    and "Settled (fst (evalSelect s it ctx out)) \<Longrightarrow> quiet out (snd (evalSelect s it ctx out))"
    and "evalCases cs i f vs it ctx out = Some r \<Longrightarrow> Settled (fst r) \<Longrightarrow> quiet out (snd r)"
proof (induction n it ctx out and ns it ctx out and bs it ctx out and p it ctx out and l ctx out
    and s it ctx out and cs i f vs it ctx out arbitrary: and and and and and and r
    rule: evalNode_evalSequence_evalBranches_evalParallel_evalLoop_evalSelect_evalCases.induct)
  case (1 run seq par lp sel iter ctx out)
  then show ?case
    by (auto simp: evalRun_def Let_def child_outcome_def simp del: evalSequence.simps evalParallel.simps evalLoop.simps
          evalSelect.simps split: option.splits if_splits)
next
  case (3 n ns iter ctx out)
  then show ?case by (auto simp: quiet_def split: prod.splits if_splits)
next
  case (5 n ns iter ctx out)
  then show ?case by (auto simp: quiet_def split: prod.splits)
next
  case (6 bs j oj obf iter ctx out)
  obtain outs out' where e: "evalBranches bs iter ctx out = (outs, out')"
    by fastforce
  have "\<forall>o' \<in> set outs. Settled o'"
    using "6.prems" e by (auto dest: settle_parallel_settled)
  then have "quiet out out'"
    using "6.IH" e by simp
  then show ?case
    using e by (simp add: quiet_trans [OF _ settle_parallel_frame])
next
  case (7 mode tms body unt intr maxit maxdur ret ctx out)
  let ?l = "LoopNode mode tms body unt intr maxit maxdur ret"
  let ?it = "lp_iteration (ctx_loop ctx (anchorMember body))"
  obtain o' out' where e: "evalNode body ?it ctx (interrupt_running ?l ctx out) = (o', out')"
    by fastforce
  have "quiet out out'" if "Settled o'" "anchorMember body \<noteq> []" "?it \<noteq> 0"
    using "7.IH" e that interrupt_running_frame [of out ?l ctx] by (simp add: quiet_def)
  moreover have "Settled o' \<and> quiet out' (snd (loop_continue ?l ctx o' out'))"
    if "anchorMember body \<noteq> []" "?it \<noteq> 0"
    using "7.prems" that e by (intro loop_continue_settled) simp
  ultimately show ?case
    using "7.prems" e by (cases "anchorMember body = []"; cases "?it = 0") (simp_all add: quiet_def)
next
  case (8 subj cs d iter ctx out)
  then show ?case
    by (auto dest: read_subject_settled split: sum.splits option.splits)
next
  case (10 eq ins rng pres wh thn cs i field vals iter ctx out)
  then show ?case
    by (auto simp: quiet_def split: option.splits if_splits)
qed simp_all

subsection \<open>Progress\<close>

lemma progress_mono: "monotone_requests M ctx out out' \<Longrightarrow> progress M ctx out \<Longrightarrow> progress M ctx out'"
  by (auto simp: monotone_requests_def progress_def keys_def)

lemma join_pending:
  assumes "join_result p outs = None" "outs \<noteq> []"
  shows "InProgress \<in> set outs"
proof (rule ccontr)
  assume "InProgress \<notin> set outs"
  then have all: "\<forall>o' \<in> set outs. Settled o'"
    by (metis not_Settled_iff)
  then have "filter Settled outs = outs"
    by simp
  moreover have "find Settled outs \<noteq> None"
    using all assms(2) by (auto simp: find_None_iff neq_Nil_conv)
  ultimately show False
    using assms(1) by (auto simp: join_result_def Let_def split: join_mode.splits if_splits)
qed

lemma join_never_pending: "join_result p outs \<noteq> Some InProgress"
  by (auto simp: join_result_def Let_def find_Some_iff split: join_mode.splits if_splits)

lemma settle_parallel_pending:
  assumes "fst (settle_parallel p outs it ctx out) = InProgress" "outs \<noteq> []"
  shows "InProgress \<in> set outs"
proof (cases "join_result p outs")
  case None
  then show ?thesis using assms(2) by (rule join_pending)
next
  case (Some o')
  then have "length (filter Settled outs) < length outs"
    using assms(1) join_never_pending [of p outs]
    by (auto simp: settle_parallel_def Let_def split: if_splits)
  then show ?thesis
    by (metis filter_True less_irrefl not_Settled_iff)
qed

lemma branching_simps [simp]:
  "branching []"
  "branching (n # ns) = (has_branches n \<and> branching ns)"
  "branching (xs @ ys) = (branching xs \<and> branching ys)"
  by (auto simp: branching_def)

lemma has_branches_simps [simp]:
  "has_branches (FlowNode run seq (Some p) lp sel) = (p_branches p \<noteq> [])"
  "has_branches (FlowNode run seq None lp sel)"
  by (auto simp: has_branches_def)

lemma length_evalBranches [simp]: "length (fst (evalBranches bs it ctx out)) = length bs"
  by (induction bs arbitrary: out) (simp_all add: case_prod_beta)

lemma read_subject_pending:
  "Producer subj \<in> M \<Longrightarrow> read_subject subj it ctx out = Inl r \<Longrightarrow> fst r = InProgress \<Longrightarrow> progress M ctx (snd r)"
  by (auto simp: read_subject_def Let_def Producer_def progress_def waiting_def ensure_def nonTerminal_def
      not_Settled_iff split: option.splits if_splits)

lemma loop_continue_pending:
  "fst (loop_continue l ctx o' out) = InProgress \<Longrightarrow>
     o' = InProgress \<and> snd (loop_continue l ctx o' out) = out \<or> e_start (snd (loop_continue l ctx o' out)) \<noteq> []"
  by (auto simp: loop_continue_def Let_def not_Settled_iff split: if_splits loop_mode.splits)

lemma evalRun_pending:
  "m \<in> M \<Longrightarrow> fst (evalRun m it ctx out) = InProgress \<Longrightarrow> progress M ctx (snd (evalRun m it ctx out))"
  unfolding evalRun_def progress_def waiting_def ensure_def nonTerminal_def Let_def
  by (auto simp: not_Settled_iff)

lemma pending_progress:
  shows "names_in M (nodes_of n) \<Longrightarrow> branching (nodes_of n) \<Longrightarrow> fst (evalNode n it ctx out) = InProgress \<Longrightarrow>
      progress M ctx (snd (evalNode n it ctx out))"
    and "names_in M (nodes_list ns) \<Longrightarrow> branching (nodes_list ns) \<Longrightarrow> fst (evalSequence ns it ctx out) = InProgress \<Longrightarrow>
      progress M ctx (snd (evalSequence ns it ctx out))"
    and "names_in M (nodes_list bs) \<Longrightarrow> branching (nodes_list bs) \<Longrightarrow> InProgress \<in> set (fst (evalBranches bs it ctx out)) \<Longrightarrow>
      progress M ctx (snd (evalBranches bs it ctx out))"
    and "names_in M (nodes_list (p_branches p)) \<Longrightarrow> branching (nodes_list (p_branches p)) \<Longrightarrow> p_branches p \<noteq> [] \<Longrightarrow>
      fst (evalParallel p it ctx out) = InProgress \<Longrightarrow> progress M ctx (snd (evalParallel p it ctx out))"
    and "names_in M (nodes_of (l_body l)) \<Longrightarrow> branching (nodes_of (l_body l)) \<Longrightarrow> fst (evalLoop l ctx out) = InProgress \<Longrightarrow>
      progress M ctx (snd (evalLoop l ctx out))"
    and "Producer (s_subject s) \<in> M \<Longrightarrow> names_in M (nodes_cases (s_cases s) @ nodes_of (s_default s)) \<Longrightarrow>
      branching (nodes_cases (s_cases s) @ nodes_of (s_default s)) \<Longrightarrow> fst (evalSelect s it ctx out) = InProgress \<Longrightarrow>
      progress M ctx (snd (evalSelect s it ctx out))"
    and "names_in M (nodes_cases cs) \<Longrightarrow> branching (nodes_cases cs) \<Longrightarrow> evalCases cs i f vs it ctx out = Some r \<Longrightarrow>
      fst r = InProgress \<Longrightarrow> progress M ctx (snd r)"
proof (induction n it ctx out and ns it ctx out and bs it ctx out and p it ctx out and l ctx out
    and s it ctx out and cs i f vs it ctx out arbitrary: and and and and and and r
    rule: evalNode_evalSequence_evalBranches_evalParallel_evalLoop_evalSelect_evalCases.induct)
  case (1 run seq par lp sel iter ctx out)
  then show ?case
    by (auto simp: evalRun_pending
          simp del: evalSequence.simps evalParallel.simps evalLoop.simps evalSelect.simps
          split: option.splits if_splits parallel_node.splits loop_node.splits select_node.splits)
next
  case (3 n ns iter ctx out)
  then show ?case by (auto split: prod.splits if_splits)
next
  case (5 n ns iter ctx out)
  obtain o1 out1 where e: "evalNode n iter ctx out = (o1, out1)"
    by fastforce
  have "monotone_requests M ctx out1 (snd (evalBranches ns iter ctx out1))"
    using "5.prems" by (simp add: mono_req.eval_rel)
  then show ?case
    using 5 e by (auto intro: progress_mono split: prod.splits)
next
  case (6 bs j oj obf iter ctx out)
  obtain outs out' where e: "evalBranches bs iter ctx out = (outs, out')"
    by fastforce
  then have "outs \<noteq> []"
    using "6.prems"(3) length_evalBranches [of bs iter ctx out] by auto
  then have "InProgress \<in> set outs"
    using "6.prems"(4) e by (auto intro: settle_parallel_pending)
  then have "progress M ctx out'"
    using "6.IH" "6.prems" e by simp
  moreover have "quiet out' (snd (settle_parallel (ParallelNode bs j oj obf) outs iter ctx out'))"
    by (rule settle_parallel_frame)
  ultimately show ?case
    using e by (simp add: quiet_def progress_def)
next
  case (7 mode tms body unt intr maxit maxdur ret ctx out)
  let ?l = "LoopNode mode tms body unt intr maxit maxdur ret"
  let ?it = "lp_iteration (ctx_loop ctx (anchorMember body))"
  obtain o' out' where e: "evalNode body ?it ctx (interrupt_running ?l ctx out) = (o', out')"
    by fastforce
  show ?case
    using 7 e loop_continue_pending [of ?l ctx o' out']
    by (cases "anchorMember body = []"; cases "?it = 0") (auto simp: progress_def put_not_Nil)
next
  case (8 subj cs d iter ctx out)
  then show ?case
    by (auto dest: read_subject_pending split: sum.splits option.splits)
next
  case (10 eq ins rng pres wh thn cs i field vals iter ctx out)
  then show ?case
    by (auto split: option.splits if_splits)
qed simp_all

subsection \<open>Events, loops, joins and cases\<close>

lemma loop_free_simps [simp]:
  "loop_free []"
  "loop_free (n # ns) = (n_loop n = None \<and> loop_free ns)"
  "loop_free (xs @ ys) = (loop_free xs \<and> loop_free ys)"
  by (auto simp: loop_free_def)

lemma start_frame:
  shows "loop_free (nodes_of n) \<Longrightarrow> e_start (snd (evalNode n it ctx out)) = e_start out"
    and "loop_free (nodes_list ns) \<Longrightarrow> e_start (snd (evalSequence ns it ctx out)) = e_start out"
    and "loop_free (nodes_list bs) \<Longrightarrow> e_start (snd (evalBranches bs it ctx out)) = e_start out"
    and "loop_free (nodes_list (p_branches p)) \<Longrightarrow> e_start (snd (evalParallel p it ctx out)) = e_start out"
    and "(l :: loop_node) = l"
    and "loop_free (nodes_cases (s_cases s) @ nodes_of (s_default s)) \<Longrightarrow> e_start (snd (evalSelect s it ctx out)) = e_start out"
    and "loop_free (nodes_cases cs) \<Longrightarrow> evalCases cs i f vs it ctx out = Some r \<Longrightarrow> e_start (snd r) = e_start out"
proof (induction n it ctx out and ns it ctx out and bs it ctx out and p it ctx out and l ctx out
    and s it ctx out and cs i f vs it ctx out arbitrary: and and and and and and r
    rule: evalNode_evalSequence_evalBranches_evalParallel_evalLoop_evalSelect_evalCases.induct)
  case (1 run seq par lp sel iter ctx out)
  then show ?case
    by (auto simp: evalRun_def Let_def ensure_def
          simp del: evalSequence.simps evalParallel.simps evalSelect.simps
          split: option.splits if_splits parallel_node.splits select_node.splits)
next
  case (3 n ns iter ctx out)
  then show ?case by (auto split: prod.splits if_splits)
next
  case (5 n ns iter ctx out)
  then show ?case by (auto split: prod.splits)
next
  case (6 bs j oj obf iter ctx out)
  then show ?case
    using settle_parallel_frame [of _ "ParallelNode bs j oj obf"]
    by (auto simp: quiet_def split: prod.splits)
next
  case (8 subj cs d iter ctx out)
  have "e_start (snd r) = e_start out" if "read_subject subj iter ctx out = Inl r" for r
    using that by (auto simp: read_subject_def Let_def ensure_def split: option.splits if_splits)
  then show ?case
    using 8 by (auto split: sum.splits option.splits)
next
  case (10 eq ins rng pres wh thn cs i field vals iter ctx out)
  then show ?case
    by (auto split: option.splits if_splits)
qed simp_all

lemma loop_continue_start:
  assumes "iteration_limit l = Some b" "(a, k) \<in> set (e_start (snd (loop_continue l ctx o' out)))"
    "(a, k) \<notin> set (e_start out)"
  defines "anchor \<equiv> anchorMember (l_body l)"
  shows "a = anchor \<and> k = wrap32 (lp_iteration (ctx_loop ctx anchor) + 1)
    \<and> lp_iteration (ctx_loop ctx anchor) < b"
  using assms by (auto dest: put_new simp: loop_continue_def loopBoundSatisfied_def iteration_limit_def Let_def
      split: if_splits loop_mode.splits option.splits)

lemma loop_continue_exit:
  "iteration_limit l = Some b \<Longrightarrow> b \<le> lp_iteration (ctx_loop ctx (anchorMember (l_body l))) \<Longrightarrow>
     Settled o' \<Longrightarrow> Settled (fst (loop_continue l ctx o' out))"
  by (auto simp: loop_continue_def loopBoundSatisfied_def iteration_limit_def Let_def
      split: loop_mode.splits option.splits)

lemma latest_from_Some:
  "latest_from et best es = Some e \<Longrightarrow>
     (best = Some e \<or> e \<in> set es \<and> ev_type e = et)
     \<and> (\<forall>b. best = Some b \<longrightarrow> ev_seq b \<le> ev_seq e)
     \<and> (\<forall>e' \<in> set es. ev_type e' = et \<longrightarrow> ev_seq e' \<le> ev_seq e)"
  by (induction et best es rule: latest_from.induct) (auto split: if_splits option.splits)

lemma latest_from_None:
  "latest_from et best es = None \<longleftrightarrow> best = None \<and> (\<forall>e \<in> set es. ev_type e \<noteq> et)"
  by (induction et best es rule: latest_from.induct) (auto split: if_splits option.splits)

lemma evalCases_find:
  "evalCases cs i field vals it ctx out =
     map_option (\<lambda>(j, c). case k_when c of
         Some w \<Rightarrow> (Failed, out\<lparr>e_diagnostic := WhenNotEvaluable j w\<rparr>)
       | None \<Rightarrow> evalNode (k_then c) it ctx out)
     (find (\<lambda>(j, c). k_when c \<noteq> None \<or> caseMatches c field vals) (enumerate i cs))"
proof (induction cs arbitrary: i)
  case (Cons c cs)
  then show ?case by (cases c) (auto split: option.splits)
qed simp

lemma settle_first:
  "join_mode_of p = JoinFirst \<Longrightarrow> Settled (fst (settle_parallel p outs it ctx out)) \<Longrightarrow> outs \<noteq> [] \<Longrightarrow>
     fst (settle_parallel p outs it ctx out) = hd outs"
proof -
  assume a: "join_mode_of p = JoinFirst" "Settled (fst (settle_parallel p outs it ctx out))" "outs \<noteq> []"
  then have "Settled (hd outs)"
    by (auto intro: settle_parallel_settled)
  then have "find Settled outs = Some (hd outs)"
    using a(3) by (cases outs) auto
  then show ?thesis
    using a by (auto simp: settle_parallel_def join_result_def Let_def split: if_splits)
qed

subsection \<open>Properties of the evaluator\<close>

text \<open>
  Claim C16. When a pass settles the tree, it asks for no child to be created and starts no loop
  iteration: nothing is left to do for a task that is reported terminal.
\<close>

theorem settled_flow_requests_nothing:
  "Settled (fst (Evaluate tree ctx)) \<Longrightarrow>
     e_ensure (snd (Evaluate tree ctx)) = [] \<and> e_start (snd (Evaluate tree ctx)) = []"
  using settled_quiet(1) [of _ 0 ctx empty_eval]
  by (auto simp: Evaluate_def quiet_def empty_eval_def split: option.splits)

theorem settled_flow_requests_nothing_witness:
  "e_ensure (snd (Evaluate (Some (leaf ''a'')) (sample_context 1 (\<lambda>_ _. child_in PhaseSucceeded)))) = []"
  using settled_flow_requests_nothing [of "Some (leaf ''a'')" "sample_context 1 (\<lambda>_ _. child_in PhaseSucceeded)"]
  by (simp add: Evaluate_def leaf_def evalRun_def sample_context_def child_in_def child_outcome_def)

text \<open>
  Claim C17. A parallel node reports a terminal outcome only once every one of its branches has
  settled in the same pass, whatever its join mode: a satisfied join starts cancellation but never
  ends the node while a branch is still running.
\<close>

theorem parallel_settles_after_every_branch:
  assumes "Settled (fst (evalParallel p iter ctx out))"
    and "o' \<in> set (fst (evalBranches (p_branches p) iter ctx out))"
  shows "Settled o'"
  using assms by (cases p) (auto dest: settle_parallel_settled split: prod.splits)

theorem parallel_settles_after_every_branch_witness:
  "Settled Failed \<and> Failed \<in> set (fst (evalBranches [leaf ''a''] 0 (sample_context 1 (\<lambda>_ _. child_in PhaseFailed)) empty_eval))"
  using parallel_settles_after_every_branch
    [of "ParallelNode [leaf ''a''] None (OnJoinOther []) (OnBranchFailureOther [])" 0
        "sample_context 1 (\<lambda>_ _. child_in PhaseFailed)" empty_eval Failed]
  by (simp add: leaf_def evalRun_def sample_context_def child_in_def child_outcome_def settle_parallel_def
      join_result_def join_mode_of_def on_branch_failure_of_def Let_def)

text \<open>
  A parallel node with the First join takes the outcome of its first branch in list order:
  by the time it may report an outcome every branch has settled, so the first settled branch
  is the one at index 0, whichever settled earlier in time.
\<close>

theorem first_join_is_positional:
  assumes "join_mode_of p = JoinFirst" "p_branches p \<noteq> []"
    and "Settled (fst (evalParallel p iter ctx out))"
  shows "fst (evalParallel p iter ctx out) = fst (evalNode (hd (p_branches p)) iter ctx out)"
proof (cases p)
  case (ParallelNode bs j oj obf)
  then obtain n ns where bs: "bs = n # ns"
    using assms(2) by (cases bs) auto
  then show ?thesis
    using assms ParallelNode by (auto dest: settle_first split: prod.splits)
qed

theorem first_join_is_positional_witness:
  "fst (evalParallel (ParallelNode [leaf ''slow'', leaf ''fast''] (Some \<lparr>js_mode = JoinFirst, js_quorum = None\<rparr>)
      CancelSiblings FailNode) 0
      (sample_context 1 (\<lambda>m _. child_in (if m = ''fast'' then PhaseFailed else PhaseSucceeded))) empty_eval)
   = fst (evalNode (leaf ''slow'') 0
      (sample_context 1 (\<lambda>m _. child_in (if m = ''fast'' then PhaseFailed else PhaseSucceeded))) empty_eval)"
  using first_join_is_positional
    [of "ParallelNode [leaf ''slow'', leaf ''fast''] (Some \<lparr>js_mode = JoinFirst, js_quorum = None\<rparr>) CancelSiblings FailNode"
        0 "sample_context 1 (\<lambda>m _. child_in (if m = ''fast'' then PhaseFailed else PhaseSucceeded))" empty_eval]
  by (simp add: leaf_def evalRun_def sample_context_def child_in_def child_outcome_def settle_parallel_def
      join_result_def join_mode_of_def Let_def)



text \<open>
  A loop ends at its limit: once the current iteration has reached it and the body settles,
  the loop settles in the same pass.
\<close>

theorem loop_ends_at_limit:
  assumes "iteration_limit l = Some b" "b \<le> lp_iteration (ctx_loop ctx (anchorMember (l_body l)))"
    and "lp_iteration (ctx_loop ctx (anchorMember (l_body l))) \<noteq> 0"
    and "Settled (fst (evalNode (l_body l) (lp_iteration (ctx_loop ctx (anchorMember (l_body l)))) ctx
           (interrupt_running l ctx out)))"
  shows "Settled (fst (evalLoop l ctx out))"
  using assms by (cases l) (auto intro: loop_continue_exit split: prod.splits)

theorem loop_ends_at_limit_witness:
  "Settled (fst (evalLoop (times_loop 3 (leaf ''a'')) (sample_context 3 (\<lambda>_ _. child_in PhaseSucceeded)) empty_eval))"
  by (rule loop_ends_at_limit [of _ 3])
    (simp_all add: times_loop_def iteration_limit_def leaf_def sample_context_def evalRun_def
      interrupt_running_def child_in_def child_outcome_def Let_def)

text \<open>
  A select takes exactly one branch once its subject is readable: the first case, in list
  order, that matches or carries a \<^verbatim>\<open>when\<close> clause decides, a deciding \<^verbatim>\<open>when\<close> clause fails the
  node with its diagnostic, and with no deciding case the default branch is evaluated.
\<close>

theorem select_first_deciding_case:
  assumes "read_subject (s_subject s) iter ctx out = Inr vals"
  shows "evalSelect s iter ctx out =
    (case deciding_case (sj_field (s_subject s)) vals (s_cases s) of
       None \<Rightarrow> evalNode (s_default s) iter ctx out
     | Some (i, c) \<Rightarrow> (case k_when c of
         Some w \<Rightarrow> (Failed, out\<lparr>e_diagnostic := WhenNotEvaluable i w\<rparr>)
       | None \<Rightarrow> evalNode (k_then c) iter ctx out))"
  using assms by (cases s) (auto simp: deciding_case_def evalCases_find split: option.splits)

theorem select_first_deciding_case_witness:
  "fst (evalSelect (SelectNode \<lparr>sj_member = ''m'', sj_event = None, sj_from = [], sj_field = ''f''\<rparr>
      [SelectCase (Some ''x'') [] None None None (leaf ''a'')] (leaf ''b'')) 0
      (sample_context 1 (\<lambda>m _. (child_in (if m = ''b'' then PhaseFailed else PhaseSucceeded)))) empty_eval) = Failed"
  by (subst select_first_deciding_case [where vals = "\<lambda>_. None"])
    (simp_all add: read_subject_def leaf_def sample_context_def child_in_def child_outcome_def resultValues_def
      deciding_case_def caseMatches_def evalRun_def Let_def)

text \<open>
  \<^verbatim>\<open>LatestEvent\<close> returns a retained event of the named type with the highest sequence
  number of that type, in whatever order the window holds them, and nothing exactly when no event
  of the type is retained.
\<close>

theorem latest_event_is_highest:
  "case LatestEvent c et of
     None \<Rightarrow> et \<notin> ev_type ` set (cs_events c)
   | Some e \<Rightarrow> e \<in> set (cs_events c) \<and> ev_type e = et
       \<and> ev_seq e = Max (ev_seq ` {e' \<in> set (cs_events c). ev_type e' = et})"
proof (cases "LatestEvent c et")
  case None
  then show ?thesis
    using latest_from_None [of et None "cs_events c"] by (auto simp: LatestEvent_def)
next
  case (Some e)
  then have "e \<in> set (cs_events c)" "ev_type e = et"
    "\<forall>e' \<in> set (cs_events c). ev_type e' = et \<longrightarrow> ev_seq e' \<le> ev_seq e"
    using latest_from_Some [of et None "cs_events c" e] by (auto simp: LatestEvent_def)
  then have "ev_seq e = Max (ev_seq ` {e' \<in> set (cs_events c). ev_type e' = et})"
    by (intro Max_eqI [symmetric]) auto
  with Some \<open>e \<in> set (cs_events c)\<close> \<open>ev_type e = et\<close> show ?thesis by simp
qed

subsection \<open>Observations on the evaluator\<close>

text \<open>
  A loop nested in another keeps its own counter across the outer iterations, and no pass ever
  resets it: in the second iteration of the outer loop the inner one, whose counter stands at its
  limit, is found finished, and the tree settles although no child of the inner member exists at
  that outer iteration.
\<close>

lemma nested_loop_not_repeated:
  assumes "lp_iteration (ctx_loop ctx ''a'') = 2" "lp_iteration (ctx_loop ctx ''b'') = 1"
    and "ctx_child ctx ''a'' 2 = child_in PhaseSucceeded" "ctx_child ctx ''b'' 1 = child_in PhaseSucceeded"
  shows "Evaluate (Some (FlowNode None [] None (Some (times_loop 2
      (FlowNode None [leaf ''a'', FlowNode None [] None (Some (times_loop 1 (leaf ''b''))) None]
        None None None))) None)) ctx =
    (Succeeded, empty_eval\<lparr>e_settled :=
      [\<lparr>is_anchor = ''b'', is_iteration = 1, is_outcome = Succeeded\<rparr>,
       \<lparr>is_anchor = ''a'', is_iteration = 2, is_outcome = Succeeded\<rparr>]\<rparr>)"
  using assms
  by (simp add: Evaluate_def times_loop_def leaf_def evalRun_def interrupt_running_def loop_continue_def
      child_in_def child_outcome_def Let_def empty_eval_def)

text \<open>
  A loop that has ended is evaluated again by every later pass of the enclosing sequence, and each of
  those passes reports its last iteration as settled once more.
\<close>

lemma settled_iteration_reported_again:
  assumes "lp_iteration (ctx_loop ctx ''a'') = 1" "ctx_child ctx ''a'' 1 = child_in PhaseSucceeded"
  shows "e_settled (snd (Evaluate (Some (FlowNode None
      [FlowNode None [] None (Some (times_loop 1 (leaf ''a''))) None, leaf ''b''] None None None)) ctx)) =
    [\<lparr>is_anchor = ''a'', is_iteration = 1, is_outcome = Succeeded\<rparr>]"
  using assms
  by (simp add: Evaluate_def times_loop_def leaf_def evalRun_def interrupt_running_def loop_continue_def
      child_in_def child_outcome_def Let_def empty_eval_def ensure_def)

text \<open>
  The child a select waits on is created by the select itself, but a satisfied join does not cancel
  it: \<^verbatim>\<open>collectCancel\<close> walks the branches of a select and not its subject.
\<close>

lemma join_leaves_select_subject_running:
  assumes "ctx_child ctx ''a'' 0 = child_in PhaseSucceeded" "ctx_child ctx ''w'' 0 = child_in PhaseAssigned"
  shows "Evaluate (Some (FlowNode None [] (Some (ParallelNode
      [leaf ''a'', FlowNode None [] None None (Some (SelectNode
         \<lparr>sj_member = ''w'', sj_event = None, sj_from = [], sj_field = ''f''\<rparr> [] (FlowNode None [] None None None)))]
      (Some \<lparr>js_mode = JoinAny, js_quorum = None\<rparr>) CancelSiblings FailNode)) None None)) ctx =
    (InProgress, empty_eval)"
  using assms
  by (simp add: Evaluate_def leaf_def evalRun_def child_in_def child_outcome_def Let_def read_subject_def
      settle_parallel_def join_result_def join_mode_of_def on_join_of_def)

end
