(* ===== verification/FlowValidate.thy ===== *)
theory FlowValidate
  imports Flow
begin

text \<open>
  The structural validator of flow trees (\<^verbatim>\<open>internal/flow/validate.go\<close>), which runs at
  admission and at the top of every reconcile, the reference definition of a well-formed tree it
  decides, and what the evaluator guarantees of the trees it accepts. The node count of
  \<^verbatim>\<open>walkState\<close> is threaded through the walk; the refusal messages are the constructors of
  \<open>flow_violation\<close>, with the values they print.
\<close>

definition MaxDepth :: nat where "MaxDepth = 32"

definition MaxNodes :: nat where "MaxNodes = 1024"

datatype flow_violation =
    TooDeep
  | TooManyNodes
  | SeveralKinds
  | UnknownMember string
  | NoBranches
  | BadOnJoin on_join
  | BadOnBranchFailure on_branch_failure
  | BadJoinMode join_mode
  | QuorumRequired
  | QuorumTooSmall
  | BadLoopMode loop_mode
  | TimesRequired
  | TimesTooSmall
  | UnboundedLoop
  | MaxIterationsTooSmall
  | MaxDurationTooSmall
  | BadKeepIterationRecords
  | BadKeepChildren
  | BadKeepFailedChildren
  | UntilResultMember nat string
  | UntilEventMember nat string
  | NoProducer
  | UnknownSubject string
  | CasePredicates nat

definition MemberNames :: "string list \<Rightarrow> string set" where
  "MemberNames actions = set actions"

definition validateRetention :: "flow_retention option \<Rightarrow> flow_violation option" where
  "validateRetention r = (case r of
     None \<Rightarrow> None
   | Some r \<Rightarrow>
       if keep_iteration_records r < 0 \<or> 100 < keep_iteration_records r
       then Some BadKeepIterationRecords
       else if keep_children r < 0 then Some BadKeepChildren
       else if keep_failed_children r < 0 then Some BadKeepFailedChildren
       else None)"

definition kinds :: "flow_node \<Rightarrow> nat" where
  "kinds n =
     (if n_run n \<noteq> None then 1 else 0) + (if n_sequence n \<noteq> [] then 1 else 0) +
     (if n_parallel n \<noteq> None then 1 else 0) + (if n_loop n \<noteq> None then 1 else 0) +
     (if n_select n \<noteq> None then 1 else 0)"

definition below_one :: "int option \<Rightarrow> bool" where
  "below_one n = (case n of Some i \<Rightarrow> i < 1 | None \<Rightarrow> False)"

definition check_join :: "join_spec \<Rightarrow> flow_violation option" where
  "check_join j = first_violation
     [(js_mode j \<notin> {JoinModeOther [], JoinAll, JoinAny, JoinQuorum, JoinFirst}, BadJoinMode (js_mode j)),
      (js_mode j = JoinQuorum \<and> js_quorum j = None, QuorumRequired),
      (below_one (js_quorum j), QuorumTooSmall)]"

definition check_parallel :: "parallel_node \<Rightarrow> flow_violation option" where
  "check_parallel p =
     or_else (first_violation
        [(p_branches p = [], NoBranches),
         (p_on_join p \<notin> {OnJoinOther [], CancelSiblings, LetRunToCompletion}, BadOnJoin (p_on_join p)),
         (p_on_branch_failure p \<notin> {OnBranchFailureOther [], FailNode, IgnoreFailure},
            BadOnBranchFailure (p_on_branch_failure p))])
       (Option.bind (p_join p) check_join)"

fun check_until :: "string set \<Rightarrow> nat \<Rightarrow> until_condition list \<Rightarrow> flow_violation option" where
  "check_until M i [] = None"
| "check_until M i (c # cs) =
     (case uc_result c of
        Some r \<Rightarrow>
          if ur_member r \<notin> M then Some (UntilResultMember i (ur_member r))
          else (case uc_event c of
                  Some e \<Rightarrow> if ue_from e \<notin> M then Some (UntilEventMember i (ue_from e))
                            else check_until M (Suc i) cs
                | None \<Rightarrow> check_until M (Suc i) cs)
      | None \<Rightarrow> (case uc_event c of
          Some e \<Rightarrow> if ue_from e \<notin> M then Some (UntilEventMember i (ue_from e))
                    else check_until M (Suc i) cs
        | None \<Rightarrow> check_until M (Suc i) cs))"

definition check_loop :: "string set \<Rightarrow> loop_node \<Rightarrow> flow_violation option" where
  "check_loop M l =
     or_else (first_violation
        [(l_mode l \<notin> {LoopOnce, LoopTimes, LoopForever}, BadLoopMode (l_mode l)),
         (l_mode l = LoopTimes \<and> l_times l = None, TimesRequired),
         (below_one (l_times l), TimesTooSmall),
         (l_mode l = LoopForever \<and> l_until l = None \<and> l_max_iterations l = None
            \<and> l_max_duration_seconds l = None, UnboundedLoop),
         (below_one (l_max_iterations l), MaxIterationsTooSmall),
         (below_one (l_max_duration_seconds l), MaxDurationTooSmall)])
       (or_else (validateRetention (l_retention l)) (Option.bind (l_until l) (check_until M 0)))"

definition check_subject :: "string set \<Rightarrow> select_subject \<Rightarrow> flow_violation option" where
  "check_subject M s =
     (if Producer s = [] then Some NoProducer
      else if Producer s \<notin> M then Some (UnknownSubject (Producer s))
      else None)"

definition predicates :: "select_case \<Rightarrow> nat" where
  "predicates c =
     (if k_equals c \<noteq> None then 1 else 0) + (if k_in c \<noteq> [] then 1 else 0) +
     (if k_range c \<noteq> None then 1 else 0) + (if k_present c \<noteq> None then 1 else 0) +
     (if k_when c \<noteq> None then 1 else 0)"

function (sequential) validateNode :: "flow_node \<Rightarrow> string set \<Rightarrow> nat \<Rightarrow> nat \<Rightarrow> flow_violation + nat"
and validate_list :: "flow_node list \<Rightarrow> string set \<Rightarrow> nat \<Rightarrow> nat \<Rightarrow> flow_violation + nat"
and validate_cases :: "nat \<Rightarrow> select_case list \<Rightarrow> string set \<Rightarrow> nat \<Rightarrow> nat \<Rightarrow> flow_violation + nat" where
  "validateNode (FlowNode run seq par lp sel) M depth nodes =
     (if MaxDepth < depth then Inl TooDeep
      else if MaxNodes < Suc nodes then Inl TooManyNodes
      else if 1 < kinds (FlowNode run seq par lp sel) then Inl SeveralKinds
      else case run of
          Some m \<Rightarrow> (if m \<notin> M then Inl (UnknownMember m) else Inr (Suc nodes))
        | None \<Rightarrow>
            if seq \<noteq> [] then validate_list seq M (Suc depth) (Suc nodes)
            else (case par of
              Some (ParallelNode bs j oj obf) \<Rightarrow>
                (case check_parallel (ParallelNode bs j oj obf) of
                   Some v \<Rightarrow> Inl v
                 | None \<Rightarrow> validate_list bs M (Suc depth) (Suc nodes))
            | None \<Rightarrow> (case lp of
                Some (LoopNode md tms body unt intr mi mdur ret) \<Rightarrow>
                  (case check_loop M (LoopNode md tms body unt intr mi mdur ret) of
                     Some v \<Rightarrow> Inl v
                   | None \<Rightarrow> validateNode body M (Suc depth) (Suc nodes))
              | None \<Rightarrow> (case sel of
                  Some (SelectNode subj cs d) \<Rightarrow>
                    (case check_subject M subj of
                       Some v \<Rightarrow> Inl v
                     | None \<Rightarrow>
                         (case validate_cases 0 cs M (Suc depth) (Suc nodes) of
                            Inl v \<Rightarrow> Inl v
                          | Inr nodes' \<Rightarrow> validateNode d M (Suc depth) nodes'))
                | None \<Rightarrow> Inr (Suc nodes)))))"
| "validate_list [] M depth nodes = Inr nodes"
| "validate_list (n # ns) M depth nodes =
     (case validateNode n M depth nodes of
        Inl v \<Rightarrow> Inl v
      | Inr nodes' \<Rightarrow> validate_list ns M depth nodes')"
| "validate_cases i [] M depth nodes = Inr nodes"
| "validate_cases i (SelectCase eq ins rng pres wh thn # cs) M depth nodes =
     (if predicates (SelectCase eq ins rng pres wh thn) \<noteq> 1 then Inl (CasePredicates i)
      else case validateNode thn M depth nodes of
          Inl v \<Rightarrow> Inl v
        | Inr nodes' \<Rightarrow> validate_cases (Suc i) cs M depth nodes')"
  by pat_completeness auto

termination
  by (relation "measure (case_sum (\<lambda>(n, _). size n)
        (case_sum (\<lambda>(ns, _). size_list size ns) (\<lambda>(i, cs, _). size_list size cs)))")
    auto

definition ValidateStructure :: "flow_node option \<Rightarrow> string set \<Rightarrow> flow_violation option" where
  "ValidateStructure node M = (case node of
     None \<Rightarrow> None
   | Some n \<Rightarrow> (case validateNode n M 1 0 of Inl v \<Rightarrow> Some v | Inr _ \<Rightarrow> None))"

subsection \<open>The reference definition\<close>

fun height :: "flow_node \<Rightarrow> nat"
and height_list :: "flow_node list \<Rightarrow> nat"
and height_cases :: "select_case list \<Rightarrow> nat" where
  "height (FlowNode run seq par lp sel) = Suc
     (case run of
        Some m \<Rightarrow> 0
      | None \<Rightarrow>
          if seq \<noteq> [] then height_list seq
          else case par of
              Some (ParallelNode bs _ _ _) \<Rightarrow> height_list bs
            | None \<Rightarrow> (case lp of
                Some (LoopNode _ _ body _ _ _ _ _) \<Rightarrow> height body
              | None \<Rightarrow> (case sel of
                  Some (SelectNode _ cs d) \<Rightarrow> max (height_cases cs) (height d)
                | None \<Rightarrow> 0)))"
| "height_list [] = 0"
| "height_list (n # ns) = max (height n) (height_list ns)"
| "height_cases [] = 0"
| "height_cases (SelectCase _ _ _ _ _ n # cs) = max (height n) (height_cases cs)"

definition join_ok :: "join_spec \<Rightarrow> bool" where
  "join_ok j =
     (js_mode j \<in> {JoinAll, JoinAny, JoinQuorum, JoinFirst, JoinModeOther []}
      \<and> (js_mode j = JoinQuorum \<longrightarrow> js_quorum j \<noteq> None)
      \<and> (\<forall>q. js_quorum j = Some q \<longrightarrow> 1 \<le> q))"

definition parallel_ok :: "parallel_node \<Rightarrow> bool" where
  "parallel_ok p =
     (p_branches p \<noteq> []
      \<and> p_on_join p \<in> {CancelSiblings, LetRunToCompletion, OnJoinOther []}
      \<and> p_on_branch_failure p \<in> {FailNode, IgnoreFailure, OnBranchFailureOther []}
      \<and> (\<forall>j. p_join p = Some j \<longrightarrow> join_ok j))"

definition retention_ok :: "flow_retention \<Rightarrow> bool" where
  "retention_ok r =
     (0 \<le> keep_iteration_records r \<and> keep_iteration_records r \<le> 100
      \<and> 0 \<le> keep_children r \<and> 0 \<le> keep_failed_children r)"

definition at_least_one :: "int option \<Rightarrow> bool" where
  "at_least_one n = (\<forall>i. n = Some i \<longrightarrow> 1 \<le> i)"

definition until_ok :: "string set \<Rightarrow> until_condition list \<Rightarrow> bool" where
  "until_ok M cs = (\<forall>c \<in> set cs. (\<forall>r. uc_result c = Some r \<longrightarrow> ur_member r \<in> M)
     \<and> (\<forall>e. uc_event c = Some e \<longrightarrow> ue_from e \<in> M))"

definition loop_ok :: "string set \<Rightarrow> loop_node \<Rightarrow> bool" where
  "loop_ok M l =
     (l_mode l \<in> {LoopOnce, LoopTimes, LoopForever}
      \<and> (l_mode l = LoopTimes \<longrightarrow> l_times l \<noteq> None)
      \<and> (l_mode l = LoopForever \<longrightarrow>
           l_until l \<noteq> None \<or> l_max_iterations l \<noteq> None \<or> l_max_duration_seconds l \<noteq> None)
      \<and> at_least_one (l_times l) \<and> at_least_one (l_max_iterations l)
      \<and> at_least_one (l_max_duration_seconds l)
      \<and> (\<forall>r. l_retention l = Some r \<longrightarrow> retention_ok r)
      \<and> (\<forall>cs. l_until l = Some cs \<longrightarrow> until_ok M cs))"

definition select_ok :: "string set \<Rightarrow> select_node \<Rightarrow> bool" where
  "select_ok M s =
     (Producer (s_subject s) \<noteq> [] \<and> Producer (s_subject s) \<in> M
      \<and> (\<forall>c \<in> set (s_cases s). predicates c = 1))"

definition node_ok :: "string set \<Rightarrow> flow_node \<Rightarrow> bool" where
  "node_ok M n =
     (kinds n \<le> 1
      \<and> (\<forall>m. n_run n = Some m \<longrightarrow> m \<in> M)
      \<and> (\<forall>p. n_parallel n = Some p \<longrightarrow> parallel_ok p)
      \<and> (\<forall>l. n_loop n = Some l \<longrightarrow> loop_ok M l)
      \<and> (\<forall>s. n_select n = Some s \<longrightarrow> select_ok M s))"

definition well_formed_flow :: "string set \<Rightarrow> flow_node \<Rightarrow> bool" where
  "well_formed_flow M n =
     (height n \<le> MaxDepth \<and> length (nodes_of n) \<le> MaxNodes \<and> (\<forall>x \<in> set (nodes_of n). node_ok M x))"

subsection \<open>Lemmas\<close>

lemma check_until_None: "check_until M i cs = None \<longleftrightarrow> until_ok M cs"
  by (induction M i cs rule: check_until.induct) (auto simp: until_ok_def split: option.splits)

lemma below_one_iff: "below_one n \<longleftrightarrow> \<not> at_least_one n"
  by (auto simp: below_one_def at_least_one_def split: option.splits)

lemma check_join_None: "check_join j = None \<longleftrightarrow> join_ok j"
  unfolding check_join_def join_ok_def first_violation_None
  by (auto simp: below_one_iff at_least_one_def)

lemma check_parallel_None: "check_parallel p = None \<longleftrightarrow> parallel_ok p"
  unfolding check_parallel_def or_else_None first_violation_None bind_None_iff check_join_None
  by (auto simp: parallel_ok_def)

lemma validateRetention_None: "validateRetention r = None \<longleftrightarrow> (\<forall>r'. r = Some r' \<longrightarrow> retention_ok r')"
  by (auto simp: validateRetention_def retention_ok_def split: option.splits)

lemma check_loop_None: "check_loop M l = None \<longleftrightarrow> loop_ok M l"
  unfolding check_loop_def loop_ok_def or_else_None first_violation_None validateRetention_None
    bind_None_iff check_until_None below_one_iff
  by simp blast

lemma check_subject_None:
  "check_subject M s = None \<longleftrightarrow> Producer s \<noteq> [] \<and> Producer s \<in> M"
  by (simp add: check_subject_def)


lemma node_ok_run: "node_ok M (FlowNode (Some m) seq par lp sel) \<longleftrightarrow>
    kinds (FlowNode (Some m) seq par lp sel) \<le> 1 \<and> m \<in> M"
  by (cases seq; cases par; cases lp; cases sel) (simp_all add: node_ok_def kinds_def)

lemma node_ok_sequence: "seq \<noteq> [] \<Longrightarrow> node_ok M (FlowNode None seq par lp sel) \<longleftrightarrow>
    kinds (FlowNode None seq par lp sel) \<le> 1"
  by (cases par; cases lp; cases sel) (simp_all add: node_ok_def kinds_def)

lemma node_ok_parallel: "node_ok M (FlowNode None [] (Some p) lp sel) \<longleftrightarrow>
    kinds (FlowNode None [] (Some p) lp sel) \<le> 1 \<and> parallel_ok p"
  by (cases lp; cases sel) (simp_all add: node_ok_def kinds_def)

lemma node_ok_loop: "node_ok M (FlowNode None [] None (Some l) sel) \<longleftrightarrow>
    kinds (FlowNode None [] None (Some l) sel) \<le> 1 \<and> loop_ok M l"
  by (cases sel) (simp_all add: node_ok_def kinds_def)

lemma node_ok_select: "node_ok M (FlowNode None [] None None (Some s)) \<longleftrightarrow> select_ok M s"
  "node_ok M (FlowNode None [] None None None)"
  by (simp_all add: node_ok_def kinds_def)

lemmas node_ok_simps = node_ok_run node_ok_sequence node_ok_parallel node_ok_loop node_ok_select

lemma validate_select_iff:
  assumes "Suc nodes \<le> MaxNodes" "depth \<le> MaxDepth"
    and cs: "\<And>v. validate_cases 0 cs M (Suc depth) (Suc nodes) = Inr v \<longleftrightarrow>
      v = Suc nodes + length (nodes_cases cs) \<and> Suc depth + height_cases cs \<le> Suc MaxDepth \<and>
      v \<le> MaxNodes \<and> (\<forall>x \<in> set (nodes_cases cs). node_ok M x) \<and> (\<forall>c \<in> set cs. predicates c = 1)"
    and d: "\<And>b v. validate_cases 0 cs M (Suc depth) (Suc nodes) = Inr b \<Longrightarrow>
      validateNode d M (Suc depth) b = Inr v \<longleftrightarrow>
        v = b + length (nodes_of d) \<and> Suc depth + height d \<le> Suc MaxDepth \<and> v \<le> MaxNodes
        \<and> (\<forall>x \<in> set (nodes_of d). node_ok M x)"
  shows "(case validate_cases 0 cs M (Suc depth) (Suc nodes) of
        Inl v \<Rightarrow> Inl v | Inr b \<Rightarrow> validateNode d M (Suc depth) b) = Inr w' \<longleftrightarrow>
      w' = Suc nodes + length (nodes_cases cs) + length (nodes_of d) \<and>
      Suc depth + max (height_cases cs) (height d) \<le> Suc MaxDepth \<and> w' \<le> MaxNodes
      \<and> (\<forall>x \<in> set (nodes_cases cs @ nodes_of d). node_ok M x) \<and> (\<forall>c \<in> set cs. predicates c = 1)"
proof (cases "validate_cases 0 cs M (Suc depth) (Suc nodes)")
  case (Inl e)
  then show ?thesis
    using assms(1,2) cs [of "Suc nodes + length (nodes_cases cs)"] by auto
next
  case (Inr b)
  then show ?thesis
    using cs [of b] d [of b w'] by auto
qed

lemma validate_iff:
  shows "validateNode n M d w = Inr w' \<longleftrightarrow>
      w' = w + length (nodes_of n) \<and> d + height n \<le> Suc MaxDepth \<and> w' \<le> MaxNodes
      \<and> (\<forall>x \<in> set (nodes_of n). node_ok M x)"
    and "w \<le> MaxNodes \<Longrightarrow> d \<le> Suc MaxDepth \<Longrightarrow> validate_list ns M d w = Inr w' \<longleftrightarrow>
      w' = w + length (nodes_list ns) \<and> d + height_list ns \<le> Suc MaxDepth \<and> w' \<le> MaxNodes
      \<and> (\<forall>x \<in> set (nodes_list ns). node_ok M x)"
    and "w \<le> MaxNodes \<Longrightarrow> d \<le> Suc MaxDepth \<Longrightarrow> validate_cases i cs M d w = Inr w' \<longleftrightarrow>
      w' = w + length (nodes_cases cs) \<and> d + height_cases cs \<le> Suc MaxDepth \<and> w' \<le> MaxNodes
      \<and> (\<forall>x \<in> set (nodes_cases cs). node_ok M x) \<and> (\<forall>c \<in> set cs. predicates c = 1)"
proof (induction n M d w and ns M d w and i cs M d w arbitrary: w' and w' and w'
    rule: validateNode_validate_list_validate_cases.induct)
  case (1 run seq par lp sel M depth nodes)
  show ?case
  proof (cases "MaxDepth < depth \<or> MaxNodes < Suc nodes \<or> 1 < kinds (FlowNode run seq par lp sel)")
    case True
    then show ?thesis by (auto simp: node_ok_def)
  next
    case False
    then have ok: "\<not> MaxDepth < depth" "\<not> MaxNodes < Suc nodes" "\<not> 1 < kinds (FlowNode run seq par lp sel)"
      by auto
    consider (run) m where "run = Some m" | (seq) "run = None" "seq \<noteq> []"
      | (par) bs j oj obf where "run = None" "seq = []" "par = Some (ParallelNode bs j oj obf)"
      | (lp) md tms body unt intr mi mdur ret where "run = None" "seq = []" "par = None"
          "lp = Some (LoopNode md tms body unt intr mi mdur ret)"
      | (sel) subj cs d where "run = None" "seq = []" "par = None" "lp = None"
          "sel = Some (SelectNode subj cs d)"
      | (none) "run = None" "seq = []" "par = None" "lp = None" "sel = None"
      by (metis loop_node.exhaust not_Some_eq parallel_node.exhaust select_node.exhaust)
    then show ?thesis
    proof cases
      case run
      then show ?thesis using ok by (auto simp: node_ok_simps)
    next
      case seq
      then show ?thesis using "1.IH"(1) ok by (auto simp: node_ok_simps)
    next
      case par
      then show ?thesis
        using "1.IH"(5) ok check_parallel_None [of "ParallelNode bs j oj obf"]
        by (auto simp: node_ok_simps split: option.splits)
    next
      case lp
      then show ?thesis
        using "1.IH"(4) ok check_loop_None [of M "LoopNode md tms body unt intr mi mdur ret"]
        by (auto simp: node_ok_simps split: option.splits)
    next
      case sel
      show ?thesis
      proof (cases "check_subject M subj")
        case (Some v)
        then show ?thesis
          using sel ok check_subject_None [of M subj] by (auto simp: node_ok_simps select_ok_def)
      next
        case None
        then show ?thesis
          using sel ok check_subject_None [of M subj] validate_select_iff [of nodes depth cs M d w']
            "1.IH"(2,3) [of "SelectNode subj cs d" subj cs d]
          by (auto simp: node_ok_simps select_ok_def)
      qed
    next
      case none
      then show ?thesis using ok by (auto simp: node_ok_simps)
    qed
  qed
next
  case (3 n ns M depth nodes)
  show ?case
  proof (cases "validateNode n M depth nodes")
    case (Inl e)
    then show ?thesis
      using "3.IH"(1) [of "nodes + length (nodes_of n)"] "3.prems" by auto
  next
    case (Inr b)
    then show ?thesis
      using "3.IH"(1) [of b] "3.IH"(2) [of b w'] "3.prems" by auto
  qed
next
  case (5 i eq ins rng pres wh thn cs M depth nodes)
  show ?case
  proof (cases "validateNode thn M depth nodes")
    case (Inl e)
    then show ?thesis
      using "5.IH"(1) [of "nodes + length (nodes_of thn)"] "5.prems" by auto
  next
    case (Inr b)
    then show ?thesis
      using "5.IH"(1) [of b] "5.IH"(2) [of b w'] "5.prems" by auto
  qed
qed auto

lemma ValidateStructure_iff: "ValidateStructure (Some n) M = None \<longleftrightarrow> well_formed_flow M n"
proof -
  have "ValidateStructure (Some n) M = None \<longleftrightarrow> (\<exists>w. validateNode n M 1 0 = Inr w)"
    by (auto simp: ValidateStructure_def split: sum.splits)
  then show ?thesis
    by (simp add: validate_iff well_formed_flow_def)
qed

lemma well_formed_names:
  "well_formed_flow M n \<Longrightarrow> names_in M (nodes_of n) \<and> branching (nodes_of n)"
  by (auto simp: well_formed_flow_def names_in_def branching_def node_ok_def member_of_def
      has_branches_def parallel_ok_def select_ok_def split: option.splits if_splits)

subsection \<open>Properties of validated trees\<close>


text \<open>
  Claim C8. No pass over an accepted tree is stuck: if the tree is still in progress, the pass asks for
  a child, starts a loop iteration, or some member of the task has a child that has not settled.
\<close>

theorem accepted_flow_progress:
  assumes "ValidateStructure (Some n) M = None" "fst (Evaluate (Some n) ctx) = InProgress"
  shows "e_ensure (snd (Evaluate (Some n) ctx)) \<noteq> [] \<or> e_start (snd (Evaluate (Some n) ctx)) \<noteq> []
    \<or> (\<exists>m \<in> M. \<exists>it. nonTerminal (ctx_child ctx m it))"
  using pending_progress(1) [of M n 0 ctx empty_eval] well_formed_names [of M n] assms
  by (simp add: ValidateStructure_iff Evaluate_def progress_def waiting_def)

theorem accepted_flow_progress_witness:
  "e_ensure (snd (Evaluate (Some (leaf ''a'')) (sample_context 0 (\<lambda>_ _. no_child)))) \<noteq> []"
  using accepted_flow_progress [of "leaf ''a''" "{''a''}" "sample_context 0 (\<lambda>_ _. no_child)"]
  by (simp add: leaf_def Evaluate_def evalRun_def sample_context_def no_child_def child_outcome_def
      nonTerminal_def ensure_def empty_eval_def ValidateStructure_def MaxDepth_def MaxNodes_def kinds_def)



text \<open>
  The rule that an unbounded loop is not admitted has a gap: a Forever loop whose \<^verbatim>\<open>until\<close> lists no
  condition is accepted, and its bound is never satisfied, in no context.
\<close>

lemma unbounded_forever_admitted:
  "ValidateStructure (Some (FlowNode None [] None
      (Some (LoopNode LoopForever None (leaf ''a'') (Some []) False None None None)) None)) {''a''} = None
   \<and> \<not> loopBoundSatisfied (LoopNode LoopForever None (leaf ''a'') (Some []) False None None None) p ctx"
  by (simp add: leaf_def ValidateStructure_def MaxDepth_def MaxNodes_def kinds_def check_loop_def
      validateRetention_def or_else_def below_one_def loopBoundSatisfied_def)

end
