(* ===== verification/TdeQueue.thy ===== *)
theory TdeQueue
  imports Api "HOL-Library.Product_Lexorder"
begin

text \<open>
  The shared-resource queues of the Traffic Deconfliction Engine (\<^verbatim>\<open>internal/tde\<close>): the
  priority bands (\<^verbatim>\<open>tde.go\<close>), the policy-ordered wait queue, and the release that backfills a
  freed slot (\<^verbatim>\<open>engine.go\<close>). The length of a Go slice is compared at type int32, so the
  comparisons are made on \<open>wrap32\<close> of the length.
\<close>

subsection \<open>Bands\<close>

definition isPreemptibleBand :: "action_priority \<Rightarrow> bool" where
  "isPreemptibleBand p = (p = PriorityNormal \<or> p = PriorityLow)"

definition priorityRank :: "action_priority \<Rightarrow> int" where
  "priorityRank p = (case p of
     PriorityCritical \<Rightarrow> 1
   | PriorityHigh \<Rightarrow> 2
   | PriorityLow \<Rightarrow> 4
   | _ \<Rightarrow> 3)"

subsection \<open>The wait queue\<close>

definition durationOrMax :: "int option \<Rightarrow> int" where
  "durationOrMax d = (case d of None \<Rightarrow> max_int32 | Some s \<Rightarrow> s)"

definition orderBefore :: "reservation_policy \<Rightarrow> wait_entry \<Rightarrow> wait_entry \<Rightarrow> bool" where
  "orderBefore policy a b =
     (let ra = priorityRank (w_priority a); rb = priorityRank (w_priority b);
          da = durationOrMax (w_estimate a); db = durationOrMax (w_estimate b)
      in if ra \<noteq> rb then ra < rb
         else if policy = PolicyPriorityWithDuration \<and> da \<noteq> db then da < db
         else w_requested_at a < w_requested_at b)"

definition insertByPolicy :: "resource_queue \<Rightarrow> wait_entry \<Rightarrow> reservation_policy \<Rightarrow> resource_queue" where
  "insertByPolicy q e policy =
     (if policy = PolicyFIFO \<or> policy = PolicyOther [] then q\<lparr>q_waiting := q_waiting q @ [e]\<rparr>
      else q\<lparr>q_waiting := insert_before (orderBefore policy) e (q_waiting q)\<rparr>)"

subsection \<open>Release\<close>

definition has_slot :: "int \<Rightarrow> resource_holder list \<Rightarrow> bool" where
  "has_slot capacity hs = (wrap32 (int (length hs)) < capacity)"

definition holder_of :: "time \<Rightarrow> wait_entry \<Rightarrow> resource_holder" where
  "holder_of now w = \<lparr>h_robot = w_robot w, h_action = w_action w, h_priority = w_priority w, h_since = now\<rparr>"

fun backfill :: "time \<Rightarrow> int \<Rightarrow> resource_holder list \<Rightarrow> wait_entry list
    \<Rightarrow> resource_holder list \<times> wait_entry list" where
  "backfill now capacity hs [] = (hs, [])"
| "backfill now capacity hs (w # ws) =
     (if has_slot capacity hs then backfill now capacity (hs @ [holder_of now w]) ws else (hs, w # ws))"

definition removeQueued :: "wait_entry list \<Rightarrow> string \<Rightarrow> wait_entry list" where
  "removeQueued ws act = filter (\<lambda>w. w_action w \<noteq> act) ws"

definition releaseHolder :: "resource_queue \<Rightarrow> string \<Rightarrow> time \<Rightarrow> int \<Rightarrow> resource_queue" where
  "releaseHolder q act now capacity =
     (let kept = filter (\<lambda>h. h_action h \<noteq> act) (q_holders q)
      in if \<not> list_ex (\<lambda>h. h_action h = act) (q_holders q)
         then q\<lparr>q_holders := kept, q_waiting := removeQueued (q_waiting q) act\<rparr>
         else case backfill now capacity kept (q_waiting q) of
             (hs, ws) \<Rightarrow> q\<lparr>q_holders := hs, q_waiting := ws\<rparr>)"

definition queueHasAction :: "resource_queue \<Rightarrow> string \<Rightarrow> bool" where
  "queueHasAction q act =
     (list_ex (\<lambda>h. h_action h = act) (q_holders q) \<or> list_ex (\<lambda>w. w_action w = act) (q_waiting q))"

definition queueActionIDs :: "resource_queue \<Rightarrow> string list" where
  "queueActionIDs q = map h_action (q_holders q) @ map w_action (q_waiting q)"

subsection \<open>Vocabulary of the specification\<close>

definition within_capacity :: "int \<Rightarrow> resource_queue \<Rightarrow> bool" where
  "within_capacity capacity q = (int (length (q_holders q)) \<le> capacity)"

subsection \<open>Lemmas\<close>

text \<open>The policies order by a key, compared lexicographically.\<close>

definition wait_key :: "reservation_policy \<Rightarrow> wait_entry \<Rightarrow> int \<times> int \<times> time" where
  "wait_key p e = (priorityRank (w_priority e),
     if p = PolicyPriorityWithDuration then durationOrMax (w_estimate e) else 0, w_requested_at e)"

lemma orderBefore_key: "orderBefore p a b \<longleftrightarrow> wait_key p a < wait_key p b"
  by (auto simp: orderBefore_def wait_key_def less_prod_def' Let_def)

interpretation by_policy: strict_weak_order "orderBefore policy" for policy
  by unfold_locales (auto simp: orderBefore_key)

lemma insertByPolicy_frame [simp]:
  "q_holders (insertByPolicy q e p) = q_holders q" "q_name (insertByPolicy q e p) = q_name q"
  by (simp_all add: insertByPolicy_def)

lemma insertByPolicy_mset: "mset (q_waiting (insertByPolicy q e p)) = add_mset e (mset (q_waiting q))"
  by (simp add: insertByPolicy_def)

lemma has_slot_within:
  "int (length hs) \<le> capacity \<Longrightarrow> capacity \<le> max_int32 \<Longrightarrow> has_slot capacity hs \<longleftrightarrow> int (length hs) < capacity"
  by (simp add: has_slot_def wrap32_id)

lemma backfill_append:
  "backfill now c hs ws = (hs', ws') \<Longrightarrow> \<exists>us. ws = us @ ws' \<and> hs' = hs @ map (holder_of now) us"
proof (induction ws arbitrary: hs)
  case Nil
  then show ?case by simp
next
  case (Cons w ws)
  show ?case
  proof (cases "has_slot c hs")
    case True
    then obtain us where "ws = us @ ws'" "hs' = (hs @ [holder_of now w]) @ map (holder_of now) us"
      using Cons.IH [of "hs @ [holder_of now w]"] Cons.prems by auto
    then show ?thesis by (intro exI [of _ "w # us"]) simp
  next
    case False
    then show ?thesis using Cons.prems by auto
  qed
qed

lemma backfill_full:
  "backfill now c hs ws = (hs', ws') \<Longrightarrow> ws' = [] \<or> \<not> has_slot c hs'"
  by (induction now c hs ws rule: backfill.induct) (auto split: if_splits)

lemma backfill_within:
  "backfill now c hs ws = (hs', ws') \<Longrightarrow> int (length hs) \<le> c \<Longrightarrow> c \<le> max_int32 \<Longrightarrow> int (length hs') \<le> c"
  by (induction now c hs ws rule: backfill.induct) (auto simp: has_slot_within split: if_splits)

lemma releaseHolder_name [simp]: "q_name (releaseHolder q act now c) = q_name q"
  by (auto simp: releaseHolder_def Let_def split: prod.splits)

lemma releaseHolder_within:
  "within_capacity c q \<Longrightarrow> c \<le> max_int32 \<Longrightarrow> within_capacity c (releaseHolder q act now c)"
proof -
  assume w: "within_capacity c q" and c: "c \<le> max_int32"
  have "int (length (filter P (q_holders q))) \<le> c" for P
    using w length_filter_le [of P "q_holders q"] unfolding within_capacity_def
    by (meson of_nat_mono order_trans)
  then show ?thesis
    using c by (auto simp: releaseHolder_def within_capacity_def Let_def intro: backfill_within split: prod.splits)
qed

text \<open>Where the entries of a queue go in a release.\<close>

lemma releaseHolder_cases:
  fixes q act now c
  defines "q' \<equiv> releaseHolder q act now c"
  obtains (waiting) "\<forall>h \<in> set (q_holders q). h_action h \<noteq> act" "q_holders q' = q_holders q"
      "q_waiting q' = removeQueued (q_waiting q) act"
    | (held) us where "\<exists>h \<in> set (q_holders q). h_action h = act" "q_waiting q = us @ q_waiting q'"
      "q_holders q' = filter (\<lambda>h. h_action h \<noteq> act) (q_holders q) @ map (holder_of now) us"
      "q_waiting q' = [] \<or> \<not> has_slot c (q_holders q')"
proof (cases "list_ex (\<lambda>h. h_action h = act) (q_holders q)")
  case False
  then have "filter (\<lambda>h. h_action h \<noteq> act) (q_holders q) = q_holders q"
    by (simp add: list_ex_iff filter_idem_if)
  then show ?thesis
    using False by (intro waiting) (auto simp: q'_def releaseHolder_def list_ex_iff)
next
  case True
  obtain hs ws where b: "backfill now c (filter (\<lambda>h. h_action h \<noteq> act) (q_holders q)) (q_waiting q) = (hs, ws)"
    by fastforce
  then have q': "q_holders q' = hs" "q_waiting q' = ws"
    using True by (auto simp: q'_def releaseHolder_def Let_def)
  obtain us where us: "q_waiting q = us @ ws"
    "hs = filter (\<lambda>h. h_action h \<noteq> act) (q_holders q) @ map (holder_of now) us"
    using backfill_append [OF b] by blast
  show ?thesis
  proof (rule held)
    show "\<exists>h \<in> set (q_holders q). h_action h = act"
      using True by (simp add: list_ex_iff)
    show "q_waiting q = us @ q_waiting q'"
      "q_holders q' = filter (\<lambda>h. h_action h \<noteq> act) (q_holders q) @ map (holder_of now) us"
      using us q' by simp_all
    show "q_waiting q' = [] \<or> \<not> has_slot c (q_holders q')"
      using backfill_full [OF b] q' by simp
  qed
qed

lemma releaseHolder_actions:
  "set (queueActionIDs (releaseHolder q act now c)) \<subseteq> set (queueActionIDs q)"
  by (cases rule: releaseHolder_cases [of q act now c])
    (auto simp: queueActionIDs_def removeQueued_def holder_of_def)

end
