(* ===== verification/Tde.thy ===== *)
theory Tde
  imports TdeQueue
begin

text \<open>
  The Traffic Deconfliction Engine (\<^verbatim>\<open>internal/tde/engine.go\<close>): zone reservations with the
  capacity gate and preemption, and the grant, queueing and release of shared resources. Every
  operation runs with the locks of the zones it touches held, so it is one atomic step on the
  engine's state; the clock is read once per step. The engine's Kubernetes client is the
  parameter \<open>tde_env\<close>: what a read of a zone, a robot or a list answers, with
  \<open>None\<close> for an error, and whether a status patch succeeds. A status write is best effort in the code; the model logs it in
  \<open>eng_mirror\<close>. The entries of a Go map are visited in no fixed order; the visits here are
  independent of one another, and the model makes them in list order.
\<close>

subsection \<open>Requests, results and configuration\<close>

record tde_config =
  reservation_ttl :: duration
  disconnected_reservation_ttl :: duration
  clock_skew :: duration

definition DefaultConfig :: tde_config where
  "DefaultConfig = \<lparr>reservation_ttl = 120 * second, disconnected_reservation_ttl = 360 * second,
     clock_skew = 2 * second\<rparr>"

definition ConfigFromTDE :: "int \<Rightarrow> int \<Rightarrow> tde_config" where
  "ConfigFromTDE ttl dttl =
     (let cfg = DefaultConfig;
          cfg1 = (if 0 < ttl then cfg\<lparr>reservation_ttl := ttl * second\<rparr> else cfg)
      in if 0 < dttl then cfg1\<lparr>disconnected_reservation_ttl := dttl * second\<rparr> else cfg1)"

datatype reservation_status = Granted | Denied | PreemptedGranted

datatype denied_reason = NoReason | DeniedZoneCapacity | DeniedResourceUnavailable | DeniedTDEUnavailable

record resource_request =
  rr_resource :: string
  rr_zone :: string
  rr_estimate :: "int option"

record reservation_request =
  rq_action :: string
  rq_robot :: string
  rq_namespace :: string
  rq_zone :: string
  rq_priority :: action_priority
  rq_resources :: "resource_request list"
  rq_may_evict :: "(string \<Rightarrow> bool) option"

record reservation_result =
  rs_status :: reservation_status
  rs_expires_at :: time
  rs_reason :: denied_reason
  rs_retry_after :: duration
  rs_preempted :: "string list"

record zone_reservation_status =
  st_occupied :: int
  st_reserved :: int
  st_max :: int

subsection \<open>Engine state\<close>

record zone_state =
  zs_reservations :: "zone_reservation list"
  zs_resources :: "(string \<times> resource_queue) list"

record zone_mirror =
  m_namespace :: string
  m_zone :: string
  m_reservations :: "zone_reservation list"
  m_queues :: "resource_queue list"
  m_current_robots :: int

record promotion =
  pr_namespace :: string
  pr_robot :: string
  pr_resource :: string

record engine =
  eng_recovered :: bool
  eng_zones :: "(string \<times> zone_state) list"
  eng_mirror :: "zone_mirror list"
  eng_notify :: bool
  eng_told :: "promotion list"

record tde_env =
  env_now :: time
  env_client :: bool
  env_config :: "string \<Rightarrow> tde_config"
  env_zone :: "string \<Rightarrow> string \<Rightarrow> fleet_zone option"
  env_zones :: "string \<Rightarrow> fleet_zone list option"
  env_all_zones :: "fleet_zone list option"
  env_robot :: "string \<Rightarrow> string \<Rightarrow> robot option"
  env_robots :: "string \<Rightarrow> robot list option"
  env_patch :: "string \<Rightarrow> string \<Rightarrow> bool"

definition New :: engine where
  "New = \<lparr>eng_recovered = False, eng_zones = [], eng_mirror = [], eng_notify = False, eng_told = []\<rparr>"

definition SetRecovered :: "bool \<Rightarrow> engine \<Rightarrow> engine" where
  "SetRecovered v e = e\<lparr>eng_recovered := v\<rparr>"

definition configFor :: "(string \<Rightarrow> tde_config) option \<Rightarrow> tde_config \<Rightarrow> string \<Rightarrow> tde_config" where
  "configFor resolver cfg ns = (case resolver of None \<Rightarrow> cfg | Some f \<Rightarrow> f ns)"

definition zoneKey :: "string \<Rightarrow> string \<Rightarrow> string" where
  "zoneKey ns zone = ns @ ''/'' @ zone"

definition zone_name :: "string \<Rightarrow> string \<Rightarrow> string" where
  "zone_name ns key = drop (length ns + 1) key"

definition empty_zone :: zone_state where
  "empty_zone = \<lparr>zs_reservations = [], zs_resources = []\<rparr>"

definition stateFor :: "string \<Rightarrow> engine \<Rightarrow> engine" where
  "stateFor key e =
     (if map_of (eng_zones e) key = None then e\<lparr>eng_zones := put key empty_zone (eng_zones e)\<rparr> else e)"

definition zone_at :: "engine \<Rightarrow> string \<Rightarrow> zone_state" where
  "zone_at e key = (case map_of (eng_zones e) key of Some zs \<Rightarrow> zs | None \<Rightarrow> empty_zone)"

definition set_zone :: "string \<Rightarrow> zone_state \<Rightarrow> engine \<Rightarrow> engine" where
  "set_zone key zs e = e\<lparr>eng_zones := put key zs (eng_zones e)\<rparr>"

text \<open>The keys \<^verbatim>\<open>lockZones\<close> locks, in locking order, and the engine with their states created.\<close>

definition lock_keys :: "string \<Rightarrow> string list \<Rightarrow> string list" where
  "lock_keys ns zones = sort (remdups (map (zoneKey ns) (filter (\<lambda>z. z \<noteq> []) zones)))"

definition lockZones :: "string \<Rightarrow> string list \<Rightarrow> engine \<Rightarrow> string list \<times> engine" where
  "lockZones ns zones e = (let ks = lock_keys ns zones in (ks, fold stateFor ks e))"

definition live :: "time \<Rightarrow> zone_reservation \<Rightarrow> bool" where
  "live now r = (case zr_expires_at r of None \<Rightarrow> True | Some t \<Rightarrow> now < t)"

definition counts :: "zone_reservation list \<Rightarrow> time \<Rightarrow> nat \<times> nat" where
  "counts rs now =
     (length (filter (\<lambda>r. zr_state r = Occupied) rs),
      length (filter (\<lambda>r. zr_state r = Reserved \<and> live now r) rs))"

subsection \<open>Reads of the cluster\<close>

fun policy_in :: "shared_resource list \<Rightarrow> string \<Rightarrow> reservation_policy" where
  "policy_in [] name = PolicyFIFO"
| "policy_in (r # rs) name =
     (if sr_name r = name \<and> sr_policy r \<noteq> PolicyOther [] then sr_policy r else policy_in rs name)"

definition resourcePolicy :: "tde_env \<Rightarrow> string \<Rightarrow> string \<Rightarrow> string \<Rightarrow> reservation_policy" where
  "resourcePolicy env ns zone name = (case env_zone env ns zone of
     None \<Rightarrow> PolicyFIFO
   | Some z \<Rightarrow> policy_in (z_shared z) name)"

fun capacity_in :: "shared_resource list \<Rightarrow> string \<Rightarrow> int" where
  "capacity_in [] name = 1"
| "capacity_in (r # rs) name =
     (if sr_name r = name \<and> 0 < sr_capacity r then sr_capacity r else capacity_in rs name)"

definition resourceCapacity :: "tde_env \<Rightarrow> string \<Rightarrow> string \<Rightarrow> string \<Rightarrow> int" where
  "resourceCapacity env ns zone name = (case env_zone env ns zone of
     None \<Rightarrow> 1
   | Some z \<Rightarrow> capacity_in (z_shared z) name)"

definition namespaceZones :: "tde_env \<Rightarrow> string \<Rightarrow> string list" where
  "namespaceZones env ns =
     (if \<not> env_client env then []
      else case env_zones env ns of None \<Rightarrow> [] | Some zs \<Rightarrow> map z_name zs)"

subsection \<open>Status mirror\<close>

definition queuesSlice :: "(string \<times> resource_queue) list \<Rightarrow> resource_queue list" where
  "queuesSlice m = map (\<lambda>n. the (map_of m n)) (sort (keys m))"

definition mirror :: "tde_env \<Rightarrow> string \<Rightarrow> string \<Rightarrow> zone_state \<Rightarrow> engine \<Rightarrow> engine" where
  "mirror env ns zone zs e =
     (if env_zone env ns zone = None then e
      else e\<lparr>eng_mirror := eng_mirror e @
        [\<lparr>m_namespace = ns, m_zone = zone, m_reservations = zs_reservations zs,
          m_queues = queuesSlice (zs_resources zs),
          m_current_robots = wrap32 (int (fst (counts (zs_reservations zs) (env_now env))))\<rparr>]\<rparr>)"

definition mirrorAll :: "tde_env \<Rightarrow> string \<Rightarrow> string list \<Rightarrow> engine \<Rightarrow> engine" where
  "mirrorAll env ns ks e =
     (if \<not> env_client env then e
      else fold (\<lambda>k e. mirror env ns (zone_name ns k) (zone_at e k) e) ks e)"

subsection \<open>Preemption\<close>

definition lessPreemptible :: "zone_reservation \<Rightarrow> zone_reservation \<Rightarrow> bool" where
  "lessPreemptible a b =
     (if (zr_state a = Reserved) \<noteq> (zr_state b = Reserved) then zr_state a = Reserved
      else if priorityRank (zr_priority a) \<noteq> priorityRank (zr_priority b)
      then priorityRank (zr_priority b) < priorityRank (zr_priority a)
      else if zr_granted_at a \<noteq> zr_granted_at b then zr_granted_at b < zr_granted_at a
      else zr_action a < zr_action b)"

definition preemptible :: "(string \<Rightarrow> bool) option \<Rightarrow> zone_reservation \<Rightarrow> bool" where
  "preemptible mayEvict r =
     (isPreemptibleBand (zr_priority r)
      \<and> (case mayEvict of None \<Rightarrow> True | Some f \<Rightarrow> f (zr_action r)))"

text \<open>
  The scan for the best victim, with the index and the entry chosen so far.
\<close>

fun best_victim :: "(string \<Rightarrow> bool) option \<Rightarrow> nat \<Rightarrow> (nat \<times> zone_reservation) option \<Rightarrow> zone_reservation list
    \<Rightarrow> (nat \<times> zone_reservation) option" where
  "best_victim mayEvict i best [] = best"
| "best_victim mayEvict i best (r # rs) =
     best_victim mayEvict (Suc i)
       (if \<not> preemptible mayEvict r then best
        else case best of
            None \<Rightarrow> Some (i, r)
          | Some (j, b) \<Rightarrow> if lessPreemptible r b then Some (i, r) else Some (j, b)) rs"

definition preempt :: "zone_reservation list \<Rightarrow> (string \<Rightarrow> bool) option
    \<Rightarrow> (zone_reservation \<times> zone_reservation list) option" where
  "preempt rs mayEvict = (case best_victim mayEvict 0 None rs of
     None \<Rightarrow> None
   | Some (b, victim) \<Rightarrow> Some (victim, take b rs @ drop (Suc b) rs))"

fun earliest_from :: "time \<Rightarrow> zone_reservation list \<Rightarrow> time" where
  "earliest_from t [] = t"
| "earliest_from t (r # rs) = (case zr_expires_at r of
     None \<Rightarrow> earliest_from t rs
   | Some x \<Rightarrow> earliest_from (if t = zero_time \<or> x < t then x else t) rs)"

definition earliestExpiry :: "zone_reservation list \<Rightarrow> time \<Rightarrow> tde_config \<Rightarrow> duration" where
  "earliestExpiry rs now cfg =
     (let t = earliest_from zero_time rs
      in if t = zero_time then reservation_ttl cfg
         else if 0 < time_sub t now then time_sub t now else second)"

subsection \<open>Operations\<close>

definition appendReservation :: "reservation_request \<Rightarrow> time \<Rightarrow> tde_config \<Rightarrow> zone_state \<Rightarrow> zone_state" where
  "appendReservation req now cfg zs = zs\<lparr>zs_reservations := zs_reservations zs @
     [\<lparr>zr_robot = rq_robot req, zr_action = rq_action req, zr_priority = rq_priority req,
       zr_state = Reserved, zr_granted_at = now, zr_expires_at = Some (now + reservation_ttl cfg),
       zr_entered_at = None\<rparr>]\<rparr>"

definition queue_at :: "zone_state \<Rightarrow> string \<Rightarrow> resource_queue" where
  "queue_at zs name = (case map_of (zs_resources zs) name of
     Some q \<Rightarrow> q
   | None \<Rightarrow> \<lparr>q_name = name, q_holders = [], q_waiting = []\<rparr>)"

definition set_queue :: "string \<Rightarrow> resource_queue \<Rightarrow> zone_state \<Rightarrow> zone_state" where
  "set_queue name q zs = zs\<lparr>zs_resources := put name q (zs_resources zs)\<rparr>"

definition grant_or_queue :: "int \<Rightarrow> reservation_policy \<Rightarrow> resource_holder \<Rightarrow> wait_entry \<Rightarrow> resource_queue
    \<Rightarrow> resource_queue" where
  "grant_or_queue capacity policy h w q =
     (if has_slot capacity (q_holders q) then q\<lparr>q_holders := q_holders q @ [h]\<rparr>
      else insertByPolicy q w policy)"

definition grant_one :: "tde_env \<Rightarrow> reservation_request \<Rightarrow> string list \<Rightarrow> resource_request \<Rightarrow> engine \<Rightarrow> engine" where
  "grant_one env req ks r e =
     (let ns = rq_namespace req; key = zoneKey ns (rr_zone r); name = rr_resource r
      in if key \<notin> set ks then e
         else set_zone key (set_queue name
           (grant_or_queue (resourceCapacity env ns (rr_zone r) name)
              (resourcePolicy env ns (rr_zone r) name)
              \<lparr>h_robot = rq_robot req, h_action = rq_action req, h_priority = rq_priority req,
                h_since = env_now env\<rparr>
              \<lparr>w_robot = rq_robot req, w_action = rq_action req, w_priority = rq_priority req,
                w_requested_at = env_now env, w_estimate = rr_estimate r\<rparr>
              (queue_at (zone_at e key) name))
           (zone_at e key)) e)"

definition grantResources :: "tde_env \<Rightarrow> reservation_request \<Rightarrow> string list \<Rightarrow> engine \<Rightarrow> engine" where
  "grantResources env req ks e = fold (grant_one env req ks) (rq_resources req) e"

text \<open>
  \<^verbatim>\<open>releaseActionHolds\<close> on one locked zone, and over all of them: the engine, and the keys of
  the zones where an entry of the action was found.
\<close>

definition release_in_zone :: "tde_env \<Rightarrow> string \<Rightarrow> string \<Rightarrow> string \<Rightarrow> zone_state \<Rightarrow> zone_state" where
  "release_in_zone env ns zone act zs = zs\<lparr>zs_resources := map_vals (\<lambda>_ q.
     if queueHasAction q act
     then releaseHolder q act (env_now env) (resourceCapacity env ns zone (q_name q)) else q)
     (zs_resources zs)\<rparr>"

definition zone_has_action :: "zone_state \<Rightarrow> string \<Rightarrow> bool" where
  "zone_has_action zs act = list_ex (\<lambda>(n, q). queueHasAction q act) (zs_resources zs)"

definition releaseActionHolds :: "tde_env \<Rightarrow> string \<Rightarrow> string \<Rightarrow> string list \<Rightarrow> engine \<Rightarrow> string list \<times> engine" where
  "releaseActionHolds env ns act ks e =
     (filter (\<lambda>k. zone_has_action (zone_at e k) act) ks,
      fold (\<lambda>k e. set_zone k (release_in_zone env ns (zone_name ns k) act (zone_at e k)) e) ks e)"

definition denied :: "denied_reason \<Rightarrow> duration \<Rightarrow> reservation_result" where
  "denied reason retry = \<lparr>rs_status = Denied, rs_expires_at = zero_time, rs_reason = reason,
     rs_retry_after = retry, rs_preempted = []\<rparr>"

definition granted :: "reservation_status \<Rightarrow> time \<Rightarrow> string list \<Rightarrow> reservation_result" where
  "granted s expires ids = \<lparr>rs_status = s, rs_expires_at = expires, rs_reason = NoReason, rs_retry_after = 0,
     rs_preempted = ids\<rparr>"

datatype tde_error =
    ZoneUnreadable string string
  | ZonesUnlisted
  | RobotUnresolved string string string lookup_error
  | PatchFailed string string

text \<open>
  \<^verbatim>\<open>RequestReservation\<close>, with the \<^verbatim>\<open>(result, error)\<close> pair it returns.
\<close>

definition zone_full :: "fleet_zone \<Rightarrow> zone_reservation list \<Rightarrow> time \<Rightarrow> bool" where
  "zone_full z rs now =
     (case counts rs now of (occ, res) \<Rightarrow> z_max_robots z \<noteq> 0 \<and> z_max_robots z \<le> int (occ + res))"

definition grant_all :: "tde_env \<Rightarrow> reservation_request \<Rightarrow> string list \<Rightarrow> engine \<Rightarrow> engine" where
  "grant_all env req ks e = mirrorAll env (rq_namespace req) ks (grantResources env req ks e)"

definition reserve_zone :: "tde_env \<Rightarrow> reservation_request \<Rightarrow> engine \<Rightarrow> engine" where
  "reserve_zone env req e =
     (let key = zoneKey (rq_namespace req) (rq_zone req)
      in set_zone key (appendReservation req (env_now env) (env_config env (rq_namespace req)) (zone_at e key)) e)"

definition evict :: "tde_env \<Rightarrow> reservation_request \<Rightarrow> string list \<Rightarrow> zone_reservation
    \<Rightarrow> zone_reservation list \<Rightarrow> engine \<Rightarrow> engine" where
  "evict env req ks victim rest e =
     (let key = zoneKey (rq_namespace req) (rq_zone req)
      in snd (releaseActionHolds env (rq_namespace req) (zr_action victim) ks
           (set_zone key ((zone_at e key)\<lparr>zs_reservations := rest\<rparr>) e)))"

definition RequestReservation :: "tde_env \<Rightarrow> reservation_request \<Rightarrow> engine
    \<Rightarrow> (reservation_result \<times> tde_error option) \<times> engine" where
  "RequestReservation env req e =
     (let ns = rq_namespace req; cfg = env_config env ns; now = env_now env;
          expires = now + reservation_ttl cfg
      in if \<not> eng_recovered e then ((denied DeniedTDEUnavailable 0, None), e)
         else case lockZones ns (rq_zone req # map rr_zone (rq_resources req)) e of (ks, e1) \<Rightarrow>
           if rq_zone req = []
           then ((granted Granted expires [], None), grant_all env req ks e1)
           else case env_zone env ns (rq_zone req) of
               None \<Rightarrow> ((denied DeniedTDEUnavailable 0, Some (ZoneUnreadable ns (rq_zone req))), e1)
             | Some z \<Rightarrow>
                 let rs = zs_reservations (zone_at e1 (zoneKey ns (rq_zone req)))
                 in if \<not> zone_full z rs now
                    then ((granted Granted expires [], None), grant_all env req ks (reserve_zone env req e1))
                    else case (if CanPreempt (rq_priority req) then preempt rs (rq_may_evict req) else None) of
                        None \<Rightarrow> ((denied DeniedZoneCapacity (earliestExpiry rs now cfg), None), e1)
                      | Some (victim, rest) \<Rightarrow>
                          ((granted PreemptedGranted expires [zr_action victim], None),
                           grant_all env req ks (reserve_zone env req (evict env req ks victim rest e1))))"

definition removeByAction :: "zone_reservation list \<Rightarrow> string \<Rightarrow> zone_reservation list" where
  "removeByAction rs act = filter (\<lambda>r. zr_action r \<noteq> act) rs"

definition ReleaseReservation :: "tde_env \<Rightarrow> string \<Rightarrow> string \<Rightarrow> string \<Rightarrow> engine \<Rightarrow> engine" where
  "ReleaseReservation env ns zone act e =
     (case lockZones ns (zone # namespaceZones env ns) e of (ks, e1) \<Rightarrow>
        let key = zoneKey ns zone;
            e2 = (if key \<in> set ks
                  then set_zone key ((zone_at e1 key)\<lparr>zs_reservations :=
                         removeByAction (zs_reservations (zone_at e1 key)) act\<rparr>) e1
                  else e1)
        in case releaseActionHolds env ns act ks e2 of (touched, e3) \<Rightarrow>
             mirrorAll env ns (if key \<in> set ks \<and> key \<notin> set touched then touched @ [key] else touched) e3)"

fun enter_first :: "string \<Rightarrow> time \<Rightarrow> zone_reservation list \<Rightarrow> zone_reservation list" where
  "enter_first rob now [] = []"
| "enter_first rob now (r # rs) =
     (if zr_robot r = rob \<and> zr_state r = Reserved
      then r\<lparr>zr_state := Occupied, zr_expires_at := None, zr_entered_at := Some now\<rparr> # rs
      else r # enter_first rob now rs)"

text \<open>
  The operations on one zone. \<^verbatim>\<open>lockZones\<close> skips an empty zone name, and the code then
  dereferences a nil state: \<open>None\<close> is that panic.
\<close>

definition on_zone :: "tde_env \<Rightarrow> string \<Rightarrow> string \<Rightarrow> (zone_reservation list \<Rightarrow> zone_reservation list) \<Rightarrow> engine
    \<Rightarrow> engine option" where
  "on_zone env ns zone f e =
     (case lockZones ns [zone] e of (ks, e1) \<Rightarrow>
        let key = zoneKey ns zone; zs = zone_at e1 key
        in if key \<notin> set ks then None
           else Some (mirrorAll env ns ks
                  (set_zone key (zs\<lparr>zs_reservations := f (zs_reservations zs)\<rparr>) e1)))"

definition OnRobotEnteredZone :: "tde_env \<Rightarrow> string \<Rightarrow> string \<Rightarrow> string \<Rightarrow> engine \<Rightarrow> engine option" where
  "OnRobotEnteredZone env ns zone rob = on_zone env ns zone (enter_first rob (env_now env))"

definition OnRobotExitedZone :: "tde_env \<Rightarrow> string \<Rightarrow> string \<Rightarrow> string \<Rightarrow> engine \<Rightarrow> engine option" where
  "OnRobotExitedZone env ns zone rob =
     on_zone env ns zone (filter (\<lambda>r. zr_robot r \<noteq> rob \<or> zr_state r \<noteq> Occupied))"

definition OnActionPhaseChanged :: "tde_env \<Rightarrow> string \<Rightarrow> string \<Rightarrow> string \<Rightarrow> action_phase \<Rightarrow> engine
    \<Rightarrow> engine option" where
  "OnActionPhaseChanged env ns zone act phase e =
     (if phase \<in> {PhaseSucceeded, PhaseFailed, PhaseCancelled}
      then Some (ReleaseReservation env ns zone act e)
      else if phase = PhaseRevoking
      then on_zone env ns zone (map (\<lambda>r. if zr_action r = act \<and> zr_state r = Reserved
             then r\<lparr>zr_expires_at := Some (env_now env + disconnected_reservation_ttl (env_config env ns))\<rparr>
             else r)) e
      else Some e)"

definition ZoneStatus :: "tde_env \<Rightarrow> string \<Rightarrow> string \<Rightarrow> engine \<Rightarrow> (zone_reservation_status \<times> engine) option" where
  "ZoneStatus env ns zone e =
     (case lockZones ns [zone] e of (ks, e1) \<Rightarrow>
        if zoneKey ns zone \<notin> set ks then None
        else case counts (zs_reservations (zone_at e1 (zoneKey ns zone))) (env_now env) of (occ, res) \<Rightarrow>
          Some (\<lparr>st_occupied = int occ, st_reserved = int res,
             st_max = (case env_zone env ns zone of Some z \<Rightarrow> z_max_robots z | None \<Rightarrow> 0)\<rparr>, e1))"

subsection \<open>Vocabulary of the specification\<close>

definition live_count :: "zone_reservation list \<Rightarrow> time \<Rightarrow> nat" where
  "live_count rs now = (case counts rs now of (occ, res) \<Rightarrow> occ + res)"

definition takes_slot :: "time \<Rightarrow> zone_reservation \<Rightarrow> bool" where
  "takes_slot now r = (zr_state r = Occupied \<or> zr_state r = Reserved \<and> live now r)"

definition reservations :: "engine \<Rightarrow> string \<Rightarrow> string \<Rightarrow> zone_reservation list" where
  "reservations e ns zone = zs_reservations (zone_at e (zoneKey ns zone))"

definition victim_key :: "zone_reservation \<Rightarrow> int \<times> int \<times> int \<times> string" where
  "victim_key r = (if zr_state r = Reserved then 0 else 1, - priorityRank (zr_priority r),
     - zr_granted_at r, zr_action r)"

definition all_queues :: "(string \<Rightarrow> string \<Rightarrow> resource_queue \<Rightarrow> bool) \<Rightarrow> engine \<Rightarrow> bool" where
  "all_queues P e = (\<forall>k n q. map_of (zs_resources (zone_at e k)) n = Some q \<longrightarrow> P k n q)"

definition capacity_envs :: "(string \<Rightarrow> string \<Rightarrow> int) \<Rightarrow> tde_env set" where
  "capacity_envs cap = {env. \<forall>ns zone n. resourceCapacity env ns zone n = cap (zoneKey ns zone) n
     \<and> cap (zoneKey ns zone) n \<le> max_int32}"

definition holds_within :: "(string \<Rightarrow> string \<Rightarrow> int) \<Rightarrow> string \<Rightarrow> string \<Rightarrow> resource_queue \<Rightarrow> bool" where
  "holds_within cap k n q = (q_name q = n \<and> within_capacity (cap k n) q)"

definition policy_envs :: "(string \<Rightarrow> string \<Rightarrow> reservation_policy) \<Rightarrow> tde_env set" where
  "policy_envs pol = {env. \<forall>ns zone n. resourcePolicy env ns zone n = pol (zoneKey ns zone) n}"

definition waits_in_order :: "(string \<Rightarrow> string \<Rightarrow> reservation_policy) \<Rightarrow> string \<Rightarrow> string \<Rightarrow> resource_queue
    \<Rightarrow> bool" where
  "waits_in_order pol k n q =
     (q_name q = n
      \<and> (pol k n \<in> {PolicyFIFO, PolicyOther []} \<or> ordered_by (orderBefore (pol k n)) (q_waiting q)))"

definition holds_and_waits :: "resource_queue \<Rightarrow> string \<Rightarrow> bool" where
  "holds_and_waits q act = (act \<in> h_action ` set (q_holders q) \<and> act \<in> w_action ` set (q_waiting q))"

definition sample_zone :: "int \<Rightarrow> shared_resource list \<Rightarrow> fleet_zone" where
  "sample_zone m rs = \<lparr>z_namespace = ''n'', z_name = ''z'', z_uid = ''u'', z_annotations = Map.empty, z_finalizers = [], z_parent = [],
     z_members = [], z_max_robots = m, z_shared = rs, z_estop_policy = None, z_reservations = [], z_queues = [], z_current_robots = 0\<rparr>"

definition sample_env :: "int \<Rightarrow> shared_resource list \<Rightarrow> tde_env" where
  "sample_env m rs = \<lparr>env_now = 0, env_client = False, env_config = (\<lambda>_. DefaultConfig),
     env_zone = (\<lambda>_ _. Some (sample_zone m rs)), env_zones = (\<lambda>_. Some [sample_zone m rs]),
     env_all_zones = Some [sample_zone m rs], env_robot = (\<lambda>_ _. None), env_robots = (\<lambda>_. Some []),
     env_patch = (\<lambda>_ _. True)\<rparr>"

definition sample_request :: "string \<Rightarrow> action_priority \<Rightarrow> reservation_request" where
  "sample_request act p = \<lparr>rq_action = act, rq_robot = act, rq_namespace = ''n'', rq_zone = ''z'',
     rq_priority = p, rq_resources = [], rq_may_evict = None\<rparr>"

definition sample_reservation :: "string \<Rightarrow> action_priority \<Rightarrow> time option \<Rightarrow> zone_reservation" where
  "sample_reservation act p expires = \<lparr>zr_robot = act, zr_action = act, zr_priority = p, zr_state = Reserved,
     zr_granted_at = 0, zr_expires_at = expires, zr_entered_at = None\<rparr>"

definition sample_engine :: "zone_reservation list \<Rightarrow> (string \<times> resource_queue) list \<Rightarrow> engine" where
  "sample_engine rs qs = New\<lparr>eng_recovered := True,
     eng_zones := [(''n/z'', \<lparr>zs_reservations = rs, zs_resources = qs\<rparr>)]\<rparr>"

definition sample_lift :: resource_queue where
  "sample_lift = \<lparr>q_name = ''lift'',
     q_holders = [\<lparr>h_robot = ''r'', h_action = ''a'', h_priority = PriorityNormal, h_since = 0\<rparr>], q_waiting = []\<rparr>"

subsection \<open>Lemmas\<close>

lemma zone_at_set_zone [simp]:
  "zone_at (set_zone k zs e) k' = (if k = k' then zs else zone_at e k')"
  by (simp add: zone_at_def set_zone_def)

lemma zone_at_stateFor [simp]: "zone_at (stateFor k e) k' = zone_at e k'"
  by (auto simp: stateFor_def zone_at_def split: option.splits)

lemma eng_frame [simp]:
  "eng_recovered (set_zone k zs e) = eng_recovered e"
  "eng_recovered (stateFor k e) = eng_recovered e"
  "eng_recovered (mirror env ns zone zs e) = eng_recovered e"
  by (simp_all add: set_zone_def stateFor_def mirror_def)

lemma zone_at_mirror [simp]: "zone_at (mirror env ns zone zs e) k = zone_at e k"
  by (simp add: mirror_def zone_at_def)

lemma zone_at_mirrorAll [simp]: "zone_at (mirrorAll env ns ks e) k = zone_at e k"
proof -
  have "zone_at (fold (\<lambda>k e. mirror env ns (zone_name ns k) (zone_at e k) e) ks e) k = zone_at e k"
    by (induction ks arbitrary: e) simp_all
  then show ?thesis by (simp add: mirrorAll_def)
qed

lemma zone_at_lockZones: "lockZones ns zones e = (ks, e1) \<Longrightarrow> zone_at e1 k = zone_at e k"
proof -
  have "zone_at (fold stateFor ks' e) k = zone_at e k" for ks'
    by (induction ks' arbitrary: e) simp_all
  then show "lockZones ns zones e = (ks, e1) \<Longrightarrow> zone_at e1 k = zone_at e k"
    by (auto simp: lockZones_def Let_def)
qed

lemma set_lock_keys [simp]: "set (lock_keys ns zones) = zoneKey ns ` (set zones - {[]})"
  by (auto simp: lock_keys_def)

lemma lockZones_keys: "lockZones ns zones e = (ks, e1) \<Longrightarrow> ks = lock_keys ns zones"
  by (simp add: lockZones_def Let_def)

lemma lockZones_range: "lockZones ns zones e = (ks, e1) \<Longrightarrow> set ks \<subseteq> range (zoneKey ns)"
  by (auto dest!: lockZones_keys)

lemma zone_name_zoneKey [simp]: "zone_name ns (zoneKey ns zone) = zone"
  by (simp add: zone_name_def zoneKey_def)

lemma zoneKey_inject [simp]: "zoneKey ns zone = zoneKey ns zone' \<longleftrightarrow> zone = zone'"
  by (simp add: zoneKey_def)

lemma grant_one_reservations [simp]:
  "zs_reservations (zone_at (grant_one env req ks r e) k) = zs_reservations (zone_at e k)"
  by (simp add: grant_one_def Let_def set_queue_def)

lemma grantResources_reservations [simp]:
  "zs_reservations (zone_at (grantResources env req ks e) k) = zs_reservations (zone_at e k)"
proof -
  have "zs_reservations (zone_at (fold (grant_one env req ks) rs e) k) = zs_reservations (zone_at e k)" for rs
    by (induction rs arbitrary: e) simp_all
  then show ?thesis by (simp add: grantResources_def)
qed

lemma grant_all_reservations [simp]:
  "zs_reservations (zone_at (grant_all env req ks e) k) = zs_reservations (zone_at e k)"
  by (simp add: grant_all_def)

lemma releaseActionHolds_reservations [simp]:
  "zs_reservations (zone_at (snd (releaseActionHolds env ns act ks e)) k) = zs_reservations (zone_at e k)"
proof -
  have "zs_reservations (zone_at (fold (\<lambda>k e. set_zone k
      (release_in_zone env ns (zone_name ns k) act (zone_at e k)) e) ks e) k) = zs_reservations (zone_at e k)"
    by (induction ks arbitrary: e) (simp_all add: release_in_zone_def)
  then show ?thesis by (simp add: releaseActionHolds_def)
qed

lemma live_count_filter: "live_count rs now = length (filter (takes_slot now) rs)"
  by (induction rs) (auto simp: live_count_def counts_def takes_slot_def)

lemma live_count_append [simp]:
  "live_count (rs @ [r]) now = live_count rs now + (if takes_slot now r then 1 else 0)"
  by (simp add: live_count_filter)

lemma zone_full_live:
  "zone_full z rs now \<longleftrightarrow> z_max_robots z \<noteq> 0 \<and> z_max_robots z \<le> int (live_count rs now)"
  by (auto simp: zone_full_def live_count_def split: prod.splits)

subsection \<open>Preemption\<close>

lemma lessPreemptible_key: "lessPreemptible a b \<longleftrightarrow> victim_key a < victim_key b"
  by (auto simp: lessPreemptible_def victim_key_def less_prod_def')

interpretation victims: strict_weak_order lessPreemptible
  by unfold_locales (auto simp: lessPreemptible_key)

lemma best_victim_at:
  "best_victim f i best rs = Some (j, v) \<Longrightarrow>
     best = Some (j, v) \<or> i \<le> j \<and> j < i + length rs \<and> v = rs ! (j - i) \<and> preemptible f v"
proof (induction f i best rs rule: best_victim.induct)
  case (2 f i best r rs)
  then show ?case
    by (cases "i = j") (auto simp: nth_Cons' split: if_splits option.splits)
qed simp

lemma best_victim_least:
  "best_victim f i best rs = Some (j, v) \<Longrightarrow>
     (\<forall>b \<in> set rs. preemptible f b \<longrightarrow> victim_key v \<le> victim_key b) \<and>
     (\<forall>k b. best = Some (k, b) \<longrightarrow> victim_key v \<le> victim_key b)"
proof (induction f i best rs rule: best_victim.induct)
  case (2 f i best r rs)
  then show ?case
    by (fastforce simp: lessPreemptible_key split: if_splits option.splits)
qed simp

lemma best_victim_None:
  "best_victim f i best rs = None \<longleftrightarrow> best = None \<and> (\<forall>r \<in> set rs. \<not> preemptible f r)"
  by (induction f i best rs rule: best_victim.induct) (auto split: option.splits)

lemma preempt_Some:
  assumes "preempt rs f = Some (v, rest)"
  shows "preemptible f v" "v \<in> set rs" "mset rs = add_mset v (mset rest)"
    "\<forall>r \<in> set rs. preemptible f r \<longrightarrow> \<not> lessPreemptible r v"
proof -
  obtain j where j: "best_victim f 0 None rs = Some (j, v)" "rest = take j rs @ drop (Suc j) rs"
    using assms by (auto simp: preempt_def split: option.splits)
  then have jl: "j < length rs" "v = rs ! j" "preemptible f v"
    using best_victim_at [OF j(1)] by auto
  show "preemptible f v" "v \<in> set rs" "\<forall>r \<in> set rs. preemptible f r \<longrightarrow> \<not> lessPreemptible r v"
    using best_victim_least [OF j(1)] jl by (auto simp: lessPreemptible_key not_less)
  have "rs = take j rs @ v # drop (Suc j) rs"
    using jl by (simp add: id_take_nth_drop)
  then have "mset rs = mset (take j rs @ v # drop (Suc j) rs)" by simp
  then show "mset rs = add_mset v (mset rest)"
    using j(2) by simp
qed

lemma preempt_None: "preempt rs f = None \<longleftrightarrow> (\<forall>r \<in> set rs. \<not> preemptible f r)"
  using best_victim_None [of f 0 None rs] by (auto simp: preempt_def split: option.splits)

lemma live_count_mset: "mset rs = add_mset v (mset rest) \<Longrightarrow>
    live_count rs now = live_count rest now + (if takes_slot now v then 1 else 0)"
proof -
  assume "mset rs = add_mset v (mset rest)"
  then have "size (filter_mset (takes_slot now) (mset rs)) = size (filter_mset (takes_slot now) (mset (rest @ [v])))"
    by simp
  then show ?thesis
    by (simp add: live_count_filter flip: mset_filter)
qed

subsection \<open>Invariants of the queues\<close>

locale queue_invariant =
  fixes E :: "tde_env set" and P :: "string \<Rightarrow> string \<Rightarrow> resource_queue \<Rightarrow> bool"
  assumes new_queue: "env \<in> E \<Longrightarrow> P (zoneKey ns zone) n \<lparr>q_name = n, q_holders = [], q_waiting = []\<rparr>"
    and grant_queue: "env \<in> E \<Longrightarrow> P (zoneKey ns zone) n q \<Longrightarrow>
      P (zoneKey ns zone) n (grant_or_queue (resourceCapacity env ns zone n) (resourcePolicy env ns zone n) h w q)"
    and release_queue: "env \<in> E \<Longrightarrow> P (zoneKey ns zone) n q \<Longrightarrow>
      P (zoneKey ns zone) n (releaseHolder q act now (resourceCapacity env ns zone (q_name q)))"
begin

lemma all_set_zone:
  "all_queues P e \<Longrightarrow> (\<And>n q. map_of (zs_resources zs) n = Some q \<Longrightarrow> P k n q) \<Longrightarrow> all_queues P (set_zone k zs e)"
  by (auto simp: all_queues_def)

lemma all_at: "all_queues P e \<Longrightarrow> map_of (zs_resources (zone_at e k)) n = Some q \<Longrightarrow> P k n q"
  by (simp add: all_queues_def)

lemma all_reservations:
  "all_queues P e \<Longrightarrow> all_queues P (set_zone k ((zone_at e k)\<lparr>zs_reservations := rs\<rparr>) e)"
  by (auto simp: all_queues_def)

lemma all_append:
  "all_queues P e \<Longrightarrow> all_queues P (set_zone k (appendReservation req now cfg (zone_at e k)) e)"
  by (simp add: appendReservation_def all_reservations)

lemma all_lock: "lockZones ns zones e = (ks, e1) \<Longrightarrow> all_queues P e \<Longrightarrow> all_queues P e1"
  by (simp add: all_queues_def zone_at_lockZones)

lemma all_mirrorAll [simp]: "all_queues P (mirrorAll env ns ks e) = all_queues P e"
  by (simp add: all_queues_def)

lemma all_set_queue:
  "all_queues P e \<Longrightarrow> P k n q \<Longrightarrow> all_queues P (set_zone k (set_queue n q (zone_at e k)) e)"
  by (auto simp: all_queues_def set_queue_def)

lemma queue_at_ok: "env \<in> E \<Longrightarrow> all_queues P e \<Longrightarrow> P (zoneKey ns zone) n (queue_at (zone_at e (zoneKey ns zone)) n)"
  by (auto simp: queue_at_def all_queues_def new_queue split: option.splits)

lemma all_grant_one: "env \<in> E \<Longrightarrow> all_queues P e \<Longrightarrow> all_queues P (grant_one env req ks r e)"
  by (simp add: grant_one_def Let_def all_set_queue grant_queue queue_at_ok)

lemma all_grant_all: "env \<in> E \<Longrightarrow> all_queues P e \<Longrightarrow> all_queues P (grant_all env req ks e)"
proof -
  assume env: "env \<in> E" and e: "all_queues P e"
  have "all_queues P (fold (grant_one env req ks) rs e)" for rs
    by (rule fold_invariant [where P = "all_queues P" and Q = "\<lambda>_. True"]) (simp_all add: env e all_grant_one)
  then show ?thesis
    by (simp add: grant_all_def grantResources_def)
qed

lemma all_release_zone:
  "env \<in> E \<Longrightarrow> all_queues P e \<Longrightarrow>
     all_queues P (set_zone (zoneKey ns zone) (release_in_zone env ns zone act (zone_at e (zoneKey ns zone))) e)"
  by (rule all_set_zone) (auto simp: release_in_zone_def release_queue dest: all_at)

lemma all_releaseActionHolds:
  assumes "env \<in> E" "all_queues P e" "set ks \<subseteq> range (zoneKey ns)"
  shows "all_queues P (snd (releaseActionHolds env ns act ks e))"
proof -
  have "all_queues P (fold (\<lambda>k e. set_zone k
      (release_in_zone env ns (zone_name ns k) act (zone_at e k)) e) ks e)"
    using assms by - (rule fold_invariant [where P = "all_queues P" and Q = "\<lambda>k. k \<in> range (zoneKey ns)"],
      auto intro: all_release_zone)
  then show ?thesis by (simp add: releaseActionHolds_def)
qed

lemma all_ReleaseReservation:
  assumes "env \<in> E" "all_queues P e"
  shows "all_queues P (ReleaseReservation env ns zone act e)"
proof -
  obtain ks e1 where l: "lockZones ns (zone # namespaceZones env ns) e = (ks, e1)" by fastforce
  then have "set ks \<subseteq> range (zoneKey ns)" "all_queues P e1"
    using assms by (auto dest: lockZones_range intro: all_lock)
  then show ?thesis
    using assms(1) l
    by (auto simp: ReleaseReservation_def Let_def case_prod_beta intro!: all_releaseActionHolds all_reservations)
qed

lemma all_reserve_zone: "all_queues P e \<Longrightarrow> all_queues P (reserve_zone env req e)"
  by (simp add: reserve_zone_def Let_def all_append)

lemma all_evict:
  "env \<in> E \<Longrightarrow> all_queues P e \<Longrightarrow> set ks \<subseteq> range (zoneKey (rq_namespace req)) \<Longrightarrow>
     all_queues P (evict env req ks victim rest e)"
  by (simp add: evict_def Let_def all_releaseActionHolds all_reservations)

lemma all_RequestReservation:
  assumes "env \<in> E" "all_queues P e"
  shows "all_queues P (snd (RequestReservation env req e))"
proof -
  let ?ns = "rq_namespace req"
  obtain ks e1 where l: "lockZones ?ns (rq_zone req # map rr_zone (rq_resources req)) e = (ks, e1)" by fastforce
  then have "set ks \<subseteq> range (zoneKey ?ns)" "all_queues P e1"
    using assms by (auto dest: lockZones_range intro: all_lock)
  then show ?thesis
    using assms l
    by (auto simp: RequestReservation_def Let_def split: option.splits
        intro!: all_grant_all all_reserve_zone all_evict)
qed

lemma all_on_zone: "all_queues P e \<Longrightarrow> on_zone env ns zone f e = Some e' \<Longrightarrow> all_queues P e'"
  by (auto simp: on_zone_def Let_def all_lock split: prod.splits if_splits intro!: all_reservations)

lemma all_OnActionPhaseChanged:
  "env \<in> E \<Longrightarrow> all_queues P e \<Longrightarrow> OnActionPhaseChanged env ns zone act ph e = Some e' \<Longrightarrow> all_queues P e'"
  by (auto simp: OnActionPhaseChanged_def all_ReleaseReservation all_on_zone split: if_splits)

end

lemma capacity_in_pos: "1 \<le> capacity_in rs n"
  by (induction rs) auto

lemma resourceCapacity_pos: "1 \<le> resourceCapacity env ns zone n"
  by (simp add: resourceCapacity_def capacity_in_pos split: option.splits)

lemma grant_or_queue_within:
  "within_capacity c q \<Longrightarrow> c \<le> max_int32 \<Longrightarrow> within_capacity c (grant_or_queue c pol h w q)"
  by (auto simp: grant_or_queue_def within_capacity_def has_slot_within)

lemma grant_or_queue_name [simp]: "q_name (grant_or_queue c pol h w q) = q_name q"
  by (simp add: grant_or_queue_def)

interpretation capacity_inv: queue_invariant "capacity_envs cap" "holds_within cap" for cap
proof
  fix env ns zone n q h w act now
  assume "env \<in> capacity_envs cap"
  then have c: "resourceCapacity env ns zone n = cap (zoneKey ns zone) n" "cap (zoneKey ns zone) n \<le> max_int32"
    "1 \<le> cap (zoneKey ns zone) n"
    using resourceCapacity_pos [of env ns zone n] by (auto simp: capacity_envs_def)
  show "holds_within cap (zoneKey ns zone) n \<lparr>q_name = n, q_holders = [], q_waiting = []\<rparr>"
    using c by (simp add: holds_within_def within_capacity_def)
  assume "holds_within cap (zoneKey ns zone) n q"
  with c show "holds_within cap (zoneKey ns zone) n
      (grant_or_queue (resourceCapacity env ns zone n) (resourcePolicy env ns zone n) h w q)"
    "holds_within cap (zoneKey ns zone) n (releaseHolder q act now (resourceCapacity env ns zone (q_name q)))"
    by (auto simp: holds_within_def grant_or_queue_within releaseHolder_within)
qed

lemma ordered_release:
  "ordered_by b (q_waiting q) \<Longrightarrow> ordered_by b (q_waiting (releaseHolder q act now c))"
  by (cases rule: releaseHolder_cases [of q act now c])
    (auto simp: ordered_by_def removeQueued_def sorted_wrt_append sorted_wrt_filter)

interpretation order_inv: queue_invariant "policy_envs pol" "waits_in_order pol" for pol
proof
  fix env ns zone n q h w act now
  assume "env \<in> policy_envs pol"
  then have p: "resourcePolicy env ns zone n = pol (zoneKey ns zone) n"
    by (simp add: policy_envs_def)
  show "waits_in_order pol (zoneKey ns zone) n \<lparr>q_name = n, q_holders = [], q_waiting = []\<rparr>"
    by (simp add: waits_in_order_def ordered_by_def)
  assume "waits_in_order pol (zoneKey ns zone) n q"
  then show "waits_in_order pol (zoneKey ns zone) n
      (grant_or_queue (resourceCapacity env ns zone n) (resourcePolicy env ns zone n) h w q)"
    "waits_in_order pol (zoneKey ns zone) n (releaseHolder q act now (resourceCapacity env ns zone (q_name q)))"
    by (auto simp: waits_in_order_def grant_or_queue_def insertByPolicy_def p
        by_policy.insert_before_ordered ordered_release)
qed

subsection \<open>Effect of the operations\<close>

lemma reserve_zone_reservations:
  "zs_reservations (zone_at (reserve_zone env req e) k) =
     (if k = zoneKey (rq_namespace req) (rq_zone req)
      then zs_reservations (zone_at e k) @
        [\<lparr>zr_robot = rq_robot req, zr_action = rq_action req, zr_priority = rq_priority req,
          zr_state = Reserved, zr_granted_at = env_now env,
          zr_expires_at = Some (env_now env + reservation_ttl (env_config env (rq_namespace req))),
          zr_entered_at = None\<rparr>]
      else zs_reservations (zone_at e k))"
  by (simp add: reserve_zone_def appendReservation_def Let_def)

lemma evict_reservations:
  "zs_reservations (zone_at (evict env req ks victim rest e) k) =
     (if k = zoneKey (rq_namespace req) (rq_zone req) then rest else zs_reservations (zone_at e k))"
  by (simp add: evict_def Let_def)

text \<open>The outcomes of a request, one per return of the code.\<close>

lemma RequestReservation_cases:
  assumes "RequestReservation env req e = ((res, err), e')"
  obtains (closed) "\<not> eng_recovered e" "res = denied DeniedTDEUnavailable 0" "e' = e"
    | (resources) ks e1 where "rq_zone req = []" "rs_status res = Granted"
        "\<And>k. zone_at e1 k = zone_at e k" "e' = grant_all env req ks e1"
    | (unreadable) e1 where "rs_status res = Denied" "\<And>k. zone_at e1 k = zone_at e k" "e' = e1"
    | (grant) ks e1 z where "rs_status res = Granted" "rq_zone req \<noteq> []" "\<And>k. zone_at e1 k = zone_at e k"
        "env_zone env (rq_namespace req) (rq_zone req) = Some z"
        "\<not> zone_full z (reservations e (rq_namespace req) (rq_zone req)) (env_now env)"
        "e' = grant_all env req ks (reserve_zone env req e1)" "eng_recovered e"
    | (full) e1 where "rs_status res = Denied" "\<And>k. zone_at e1 k = zone_at e k" "e' = e1"
    | (preempted) ks e1 z victim rest where "rs_status res = PreemptedGranted" "rq_zone req \<noteq> []"
        "\<And>k. zone_at e1 k = zone_at e k" "eng_recovered e"
        "env_zone env (rq_namespace req) (rq_zone req) = Some z"
        "zone_full z (reservations e (rq_namespace req) (rq_zone req)) (env_now env)"
        "CanPreempt (rq_priority req)" "rs_preempted res = [zr_action victim]"
        "preempt (reservations e (rq_namespace req) (rq_zone req)) (rq_may_evict req) = Some (victim, rest)"
        "e' = grant_all env req ks (reserve_zone env req (evict env req ks victim rest e1))"
proof (cases "eng_recovered e")
  case False
  show ?thesis
    by (rule closed) (use assms False in \<open>simp_all add: RequestReservation_def Let_def\<close>)
next
  case True
  obtain ks e1 where l: "lockZones (rq_namespace req) (rq_zone req # map rr_zone (rq_resources req)) e = (ks, e1)"
    by (rule prod.exhaust)
  note z = zone_at_lockZones [OF l]
  let ?rs = "reservations e (rq_namespace req) (rq_zone req)"
  have rs: "zs_reservations (zone_at e1 (zoneKey (rq_namespace req) (rq_zone req))) = ?rs"
    by (simp add: reservations_def z)
  note d = assms [unfolded RequestReservation_def Let_def l prod.case rs]
  show ?thesis
  proof (cases "rq_zone req = []")
    case True
    show ?thesis
      by (rule resources [of e1 ks]) (use d \<open>eng_recovered e\<close> True z in \<open>auto simp: granted_def\<close>)
  next
    case zone: False
    show ?thesis
    proof (cases "env_zone env (rq_namespace req) (rq_zone req)")
      case None
      show ?thesis
        by (rule unreadable [of e1]) (use d \<open>eng_recovered e\<close> zone None z in \<open>auto simp: denied_def\<close>)
    next
      case (Some zo)
      show ?thesis
      proof (cases "zone_full zo ?rs (env_now env)")
        case False
        show ?thesis
          by (rule grant [of e1 zo ks]) (use d \<open>eng_recovered e\<close> zone Some False z in \<open>auto simp: granted_def\<close>)
      next
        case full': True
        show ?thesis
        proof (cases "if CanPreempt (rq_priority req) then preempt ?rs (rq_may_evict req) else None")
          case None
          show ?thesis
            by (rule full [of e1]) (use d \<open>eng_recovered e\<close> zone Some full' None z in \<open>auto simp: denied_def\<close>)
        next
          case (Some vr)
          then obtain victim rest where vr: "CanPreempt (rq_priority req)"
            "preempt ?rs (rq_may_evict req) = Some (victim, rest)"
            by (cases vr) (auto split: if_splits)
          show ?thesis
            by (rule preempted [of e1 zo victim rest ks])
              (use d \<open>eng_recovered e\<close> zone \<open>env_zone env _ _ = _\<close> full' vr z in \<open>auto simp: granted_def\<close>)
        qed
      qed
    qed
  qed
qed

lemma releaseActionHolds_zone:
  "distinct ks \<Longrightarrow> zone_at (snd (releaseActionHolds env ns act ks e)) k =
     (if k \<in> set ks then release_in_zone env ns (zone_name ns k) act (zone_at e k) else zone_at e k)"
proof -
  have "distinct ks \<Longrightarrow> zone_at (fold (\<lambda>k e. set_zone k
      (release_in_zone env ns (zone_name ns k) act (zone_at e k)) e) ks e) k =
     (if k \<in> set ks then release_in_zone env ns (zone_name ns k) act (zone_at e k) else zone_at e k)"
    by (induction ks arbitrary: e) auto
  then show "distinct ks \<Longrightarrow> ?thesis" by (simp add: releaseActionHolds_def)
qed

lemma lock_keys_strict: "sorted_wrt (<) (lock_keys ns zones)"
  by (simp add: lock_keys_def strict_sorted_iff)

lemma releaseHolder_removes:
  "\<not> holds_and_waits q act \<Longrightarrow> act \<notin> set (queueActionIDs (releaseHolder q act now c))"
  by (cases rule: releaseHolder_cases [of q act now c])
    (auto simp: queueActionIDs_def removeQueued_def holds_and_waits_def holder_of_def)

lemma queueHasAction_iff: "queueHasAction q act \<longleftrightarrow> act \<in> set (queueActionIDs q)"
  by (auto simp: queueHasAction_def queueActionIDs_def list_ex_iff)

lemma release_in_zone_removes:
  assumes "\<And>n q. map_of (zs_resources zs) n = Some q \<Longrightarrow> \<not> holds_and_waits q act"
    and "map_of (zs_resources (release_in_zone env ns zone act zs)) n = Some q"
  shows "act \<notin> set (queueActionIDs q)"
proof -
  obtain q0 where q0: "map_of (zs_resources zs) n = Some q0" "q = (if queueHasAction q0 act
      then releaseHolder q0 act (env_now env) (resourceCapacity env ns zone (q_name q0)) else q0)"
    using assms(2) by (auto simp: release_in_zone_def)
  then show ?thesis
    using assms(1) [OF q0(1)] by (auto simp: queueHasAction_iff releaseHolder_removes)
qed

subsection \<open>A concrete zone\<close>

lemmas sample_defs = sample_zone_def sample_env_def sample_request_def sample_reservation_def
  sample_engine_def New_def

lemmas request_defs = RequestReservation_def lockZones_def lock_keys_def zoneKey_def zone_at_def stateFor_def
  zone_full_def counts_def live_def grant_all_def grantResources_def mirrorAll_def reserve_zone_def
  appendReservation_def set_zone_def granted_def denied_def reservations_def evict_def releaseActionHolds_def
  preempt_def preemptible_def isPreemptibleBand_def CanPreempt_def release_in_zone_def Let_def

subsection \<open>Properties of the engine\<close>





text \<open>
  A preempting request evicts exactly one reservation of the target zone, of the Normal or
  Low band and admitted by the caller's condition, and none that the eviction order prefers less
  than another candidate. Every other reservation of every zone stays, and the new entry is added.
\<close>

theorem preemption_evicts_best_candidate:
  assumes "RequestReservation env req e = ((res, err), e')" "rs_status res = PreemptedGranted"
  shows "CanPreempt (rq_priority req) \<and> (\<exists>victim new.
    rs_preempted res = [zr_action victim] \<and> preemptible (rq_may_evict req) victim
    \<and> (\<forall>r \<in> set (reservations e (rq_namespace req) (rq_zone req)).
         preemptible (rq_may_evict req) r \<longrightarrow> \<not> lessPreemptible r victim)
    \<and> add_mset victim (mset (reservations e' (rq_namespace req) (rq_zone req))) =
        add_mset new (mset (reservations e (rq_namespace req) (rq_zone req)))
    \<and> zr_action new = rq_action req
    \<and> (\<forall>zone. zone \<noteq> rq_zone req \<longrightarrow>
         reservations e' (rq_namespace req) zone = reservations e (rq_namespace req) zone))"
proof (cases rule: RequestReservation_cases [OF assms(1)])
  case (6 ks e1 z victim rest)
  then show ?thesis
    using preempt_Some [OF 6(9)]
    by (intro conjI exI [of _ victim] exI [of _ "last (reservations e' (rq_namespace req) (rq_zone req))"])
      (auto simp: reservations_def reserve_zone_reservations evict_reservations)
qed (use assms in \<open>auto simp: denied_def\<close>)

theorem preemption_evicts_best_candidate_witness:
  "CanPreempt PriorityHigh \<and> rs_preempted (fst (fst (RequestReservation (sample_env 1 [])
      (sample_request ''b'' PriorityHigh) (sample_engine [sample_reservation ''a'' PriorityLow None] [])))) = [''a'']"
proof -
  obtain res err e' where r: "RequestReservation (sample_env 1 []) (sample_request ''b'' PriorityHigh)
      (sample_engine [sample_reservation ''a'' PriorityLow None] []) = ((res, err), e')"
    by (metis surj_pair)
  then have s: "rs_status res = PreemptedGranted \<and> rs_preempted res = [''a'']"
    by (auto simp: sample_defs request_defs DefaultConfig_def)
  from preemption_evicts_best_candidate [OF r] s show ?thesis unfolding r by (simp add: sample_request_def)
qed

text \<open>
  Releasing an action clears it from the whole namespace: after \<^verbatim>\<open>ReleaseReservation\<close> the
  action has no reservation in its zone, and it neither holds nor waits for any resource of any
  zone the namespace lists, as long as it did not both hold and wait for one resource.
\<close>

theorem release_clears_action:
  assumes "\<And>zone' n q. map_of (zs_resources (zone_at e (zoneKey ns zone'))) n = Some q \<Longrightarrow> \<not> holds_and_waits q act"
    and "zone' \<in> set (zone # namespaceZones env ns)" "zone' \<noteq> []"
    and "map_of (zs_resources (zone_at (ReleaseReservation env ns zone act e) (zoneKey ns zone'))) n = Some q"
  shows "act \<notin> set (queueActionIDs q)
    \<and> (zone \<noteq> [] \<longrightarrow> act \<notin> zr_action ` set (reservations (ReleaseReservation env ns zone act e) ns zone))"
proof -
  obtain ks e1 where l: "lockZones ns (zone # namespaceZones env ns) e = (ks, e1)"
    by (rule prod.exhaust)
  have ks: "ks = lock_keys ns (zone # namespaceZones env ns)" "distinct ks" "zoneKey ns zone' \<in> set ks"
    "zone \<noteq> [] \<Longrightarrow> zoneKey ns zone \<in> set ks"
    using lockZones_keys [OF l] lock_keys_strict [of ns] assms(2,3) by (auto simp: strict_sorted_iff)
  define e2 where "e2 = (if zoneKey ns zone \<in> set ks then set_zone (zoneKey ns zone)
      ((zone_at e1 (zoneKey ns zone))\<lparr>zs_reservations := removeByAction (zs_reservations (zone_at e1 (zoneKey ns zone))) act\<rparr>) e1
    else e1)"
  have r: "zone_at (ReleaseReservation env ns zone act e) k = zone_at (snd (releaseActionHolds env ns act ks e2)) k" for k
    by (simp add: ReleaseReservation_def l e2_def Let_def case_prod_beta)
  have "zs_resources (zone_at e2 k) = zs_resources (zone_at e k)" for k
    by (simp add: e2_def zone_at_lockZones [OF l])
  then have "act \<notin> set (queueActionIDs q)"
    using release_in_zone_removes [of "zone_at e2 (zoneKey ns zone')" act env ns zone' n q] assms(1,4) ks(2,3)
    by (simp add: r releaseActionHolds_zone)
  moreover have "zone \<noteq> [] \<Longrightarrow> act \<notin> zr_action ` set (reservations (ReleaseReservation env ns zone act e) ns zone)"
    using ks(4) by (auto simp: reservations_def r e2_def removeByAction_def)
  ultimately show ?thesis by blast
qed

theorem release_clears_action_witness:
  "''a'' \<notin> set (queueActionIDs (releaseHolder sample_lift ''a'' 0 1))"
proof (rule release_clears_action [THEN conjunct1, of "sample_engine [] [(''lift'', sample_lift)]" "''n''" "''a''"
      "''z''" "''z''" "sample_env 1 []" "''lift''"])
  show "\<not> holds_and_waits q ''a''"
    if "map_of (zs_resources (zone_at (sample_engine [] [(''lift'', sample_lift)]) (zoneKey ''n'' zone'))) n = Some q"
    for zone' n q
    using that by (auto simp: sample_defs zone_at_def zoneKey_def empty_zone_def holds_and_waits_def sample_lift_def
        split: if_splits)
qed (simp_all add: sample_defs request_defs ReleaseReservation_def namespaceZones_def removeByAction_def
      zone_has_action_def queueHasAction_def resourceCapacity_def zone_name_def map_vals_def sample_lift_def)

text \<open>
  A release of a held resource is work conserving and fair: the freed slots go to the head
  of the wait queue, in queue order, the other holders and waiters stay, and afterwards either
  nobody waits or the resource is full.
\<close>

theorem release_promotes_in_queue_order:
  assumes "\<exists>h \<in> set (q_holders q). h_action h = act"
  shows "\<exists>n. q_waiting (releaseHolder q act now c) = drop n (q_waiting q)
    \<and> q_holders (releaseHolder q act now c) =
        filter (\<lambda>h. h_action h \<noteq> act) (q_holders q) @ map (holder_of now) (take n (q_waiting q))
    \<and> (q_waiting (releaseHolder q act now c) = [] \<or> \<not> has_slot c (q_holders (releaseHolder q act now c)))"
proof (cases rule: releaseHolder_cases [of q act now c])
  case waiting
  then show ?thesis using assms by blast
next
  case (held us)
  then show ?thesis by (intro exI [of _ "length us"]) (metis append_eq_conv_conj)
qed

theorem release_promotes_in_queue_order_witness:
  "\<exists>n. q_waiting (releaseHolder sample_lift ''a'' 5 1) = drop n []"
  using release_promotes_in_queue_order [of sample_lift "''a''" 5 1] by (auto simp: sample_lift_def)

text \<open>
  Two operations that lock several zones take the locks they share in the same order, so no
  cycle of operations waiting for one another can arise.
\<close>

theorem lock_order_is_consistent:
  assumes "lock_keys ns zones = xs @ a # ys" "b \<in> set ys"
    and "lock_keys ns' zones' = xs' @ b # ys'"
  shows "a \<notin> set ys'"
proof
  assume "a \<in> set ys'"
  then have "b < a"
    using lock_keys_strict [of ns' zones'] assms(3) by (simp add: sorted_wrt_append)
  moreover have "a < b"
    using lock_keys_strict [of ns zones] assms(1,2) by (simp add: sorted_wrt_append)
  ultimately show False by simp
qed

theorem lock_order_is_consistent_witness:
  "''n/a'' \<notin> set (tl (lock_keys ''n'' [''b'']))"
  using lock_order_is_consistent [of "''n''" "[''b'', ''a'']" "[]" "''n/a''" "[''n/b'']" "''n/b''" "''n''" "[''b'']" "[]" "[]"]
  by (simp add: lock_keys_def zoneKey_def)

subsection \<open>Observations on the engine\<close>

text \<open>
  An expired reservation takes no slot, but it stays a candidate for preemption. Evicting one frees
  nothing: the preempting request is granted on top of a full zone.
\<close>

lemma preemption_overshoots_capacity:
  "live_count (reservations (snd (RequestReservation (sample_env 1 []) (sample_request ''c'' PriorityHigh)
      (sample_engine [sample_reservation ''a'' PriorityCritical (Some 10), sample_reservation ''b'' PriorityNormal (Some (- 10))] [])))
      ''n'' ''z'') 0 = 2"
  by (simp add: sample_defs request_defs DefaultConfig_def live_count_def second_def)

text \<open>
  An action that both holds a resource and waits for it again is promoted by its own release.
\<close>

lemma release_promotes_released_action:
  "h_action ` set (q_holders (releaseHolder \<lparr>q_name = ''lift'',
      q_holders = [\<lparr>h_robot = ''r'', h_action = ''a'', h_priority = PriorityNormal, h_since = 0\<rparr>],
      q_waiting = [\<lparr>w_robot = ''r'', w_action = ''a'', w_priority = PriorityNormal, w_requested_at = 0, w_estimate = None\<rparr>]\<rparr>
      ''a'' 5 1)) = {''a''}"
  by (simp add: releaseHolder_def has_slot_def holder_of_def wrap32_def)

end
