(* ===== verification/TdeResource.thy ===== *)
theory TdeResource
  imports Tde
begin

text \<open>
  Adapter-initiated reservations of shared resources (\<^verbatim>\<open>internal/tde/resource.go\<close>), the
  release of the holds of deleted robots (\<^verbatim>\<open>release.go\<close>), and the rebuild of the engine from
  \<^verbatim>\<open>FleetZone.status\<close> (\<^verbatim>\<open>recovery.go\<close>). An adapter entry is keyed by its robot: its action is
  the robot's identity. A release that fails half way leaves the queues it has already changed
  changed, so the functions that may fail return the state along with the error.
\<close>

subsection \<open>Reserve and release\<close>

datatype resource_state = ResourceUnset | ResourceGranted | ResourceQueued | ResourceDenied

datatype resource_message = NoMessage | Recovering | UnknownResource string

record resource_outcome =
  ro_state :: resource_state
  ro_position :: int
  ro_message :: resource_message
  ro_released :: bool
  ro_promoted :: string

definition outcome_of :: "resource_state \<Rightarrow> int \<Rightarrow> resource_message \<Rightarrow> resource_outcome" where
  "outcome_of st pos msg = \<lparr>ro_state = st, ro_position = pos, ro_message = msg, ro_released = False,
     ro_promoted = []\<rparr>"

fun owner_from :: "string \<Rightarrow> string \<Rightarrow> fleet_zone list \<Rightarrow> string" where
  "owner_from name owner [] = owner"
| "owner_from name owner (z # zs) =
     owner_from name (if list_ex (\<lambda>r. sr_name r = name) (z_shared z) \<and> (owner = [] \<or> z_name z < owner)
                      then z_name z else owner) zs"

definition resourceZone :: "tde_env \<Rightarrow> string \<Rightarrow> string \<Rightarrow> string option" where
  "resourceZone env ns name = (case env_zones env ns of
     None \<Rightarrow> None
   | Some zs \<Rightarrow> let owner = owner_from name [] zs in if owner = [] then None else Some owner)"

fun queue_position :: "string \<Rightarrow> int \<Rightarrow> wait_entry list \<Rightarrow> int" where
  "queue_position rob i [] = 0"
| "queue_position rob i (w # ws) = (if w_robot w = rob then i else queue_position rob (i + 1) ws)"

definition adapter_holder :: "string \<Rightarrow> time \<Rightarrow> resource_holder" where
  "adapter_holder rob now = \<lparr>h_robot = rob, h_action = rob, h_priority = PriorityNormal, h_since = now\<rparr>"

definition adapter_waiter :: "string \<Rightarrow> time \<Rightarrow> wait_entry" where
  "adapter_waiter rob now = \<lparr>w_robot = rob, w_action = rob, w_priority = PriorityNormal,
     w_requested_at = now, w_estimate = None\<rparr>"

definition ReserveResource :: "tde_env \<Rightarrow> string \<Rightarrow> string \<Rightarrow> string \<Rightarrow> engine \<Rightarrow> resource_outcome \<times> engine" where
  "ReserveResource env ns name rob e =
     (if \<not> eng_recovered e then (outcome_of ResourceDenied 0 Recovering, e)
      else case resourceZone env ns name of
          None \<Rightarrow> (outcome_of ResourceDenied 0 (UnknownResource name), e)
        | Some zone \<Rightarrow>
            let key = zoneKey ns zone; e1 = snd (lockZones ns [zone] e); zs = zone_at e1 key;
                q = queue_at zs name; e2 = set_zone key (set_queue name q zs) e1;
                q' = grant_or_queue (resourceCapacity env ns zone name) (resourcePolicy env ns zone name)
                       (adapter_holder rob (env_now env)) (adapter_waiter rob (env_now env)) q;
                zs' = set_queue name q' zs;
                e3 = mirror env ns zone zs' (set_zone key zs' e1)
            in if list_ex (\<lambda>h. h_robot h = rob) (q_holders q) then (outcome_of ResourceGranted 0 NoMessage, e2)
               else if list_ex (\<lambda>w. w_robot w = rob) (q_waiting q)
               then (outcome_of ResourceQueued (queue_position rob 1 (q_waiting q)) NoMessage, e2)
               else if has_slot (resourceCapacity env ns zone name) (q_holders q)
               then (outcome_of ResourceGranted 0 NoMessage, e3)
               else (outcome_of ResourceQueued (queue_position rob 1 (q_waiting q')) NoMessage, e3))"

definition ReleaseResource :: "tde_env \<Rightarrow> string \<Rightarrow> string \<Rightarrow> string \<Rightarrow> engine \<Rightarrow> resource_outcome \<times> engine" where
  "ReleaseResource env ns name rob e =
     (case resourceZone env ns name of
        None \<Rightarrow> (outcome_of ResourceDenied 0 (UnknownResource name), e)
      | Some zone \<Rightarrow>
          let key = zoneKey ns zone; e1 = snd (lockZones ns [zone] e); zs = zone_at e1 key
          in case map_of (zs_resources zs) name of
              None \<Rightarrow> (outcome_of ResourceUnset 0 NoMessage, e1)
            | Some q \<Rightarrow>
                let wasHolder = list_ex (\<lambda>h. h_robot h = rob) (q_holders q);
                    present = (wasHolder \<or> list_ex (\<lambda>w. w_robot w = rob) (q_waiting q));
                    promoted = (if wasHolder \<and> q_waiting q \<noteq> [] then w_robot (hd (q_waiting q)) else []);
                    q' = releaseHolder q rob (env_now env) (resourceCapacity env ns zone name);
                    zs' = set_queue name q' zs
                in ((outcome_of ResourceUnset 0 NoMessage)\<lparr>ro_released := present, ro_promoted := promoted\<rparr>,
                    mirror env ns zone zs' (set_zone key zs' e1)))"

subsection \<open>Promotions and the entries of deleted robots\<close>

definition tell :: "promotion list \<Rightarrow> engine \<Rightarrow> engine" where
  "tell ps e = (if eng_notify e then e\<lparr>eng_told := eng_told e @ ps\<rparr> else e)"

definition adapterHolders :: "resource_queue \<Rightarrow> string set" where
  "adapterHolders q = h_robot ` set (filter (\<lambda>h. h_action h = h_robot h) (q_holders q))"

definition promotedSince :: "string \<Rightarrow> resource_queue \<Rightarrow> string set \<Rightarrow> promotion list" where
  "promotedSince ns q before =
     map (\<lambda>h. \<lparr>pr_namespace = ns, pr_robot = h_robot h, pr_resource = q_name q\<rparr>)
       (filter (\<lambda>h. h_action h = h_robot h \<and> h_robot h \<notin> before) (q_holders q))"

definition adapterEntryRobot :: "resource_queue \<Rightarrow> string \<Rightarrow> string \<times> bool" where
  "adapterEntryRobot q i = (case find (\<lambda>h. h_action h = i) (q_holders q) of
     Some h \<Rightarrow> (h_robot h, h_robot h = i)
   | None \<Rightarrow> (case find (\<lambda>w. w_action w = i) (q_waiting q) of
       Some w \<Rightarrow> (w_robot w, w_robot w = i)
     | None \<Rightarrow> ([], False)))"

definition keepAdapterEntry :: "tde_env \<Rightarrow> string \<Rightarrow> resource_queue \<Rightarrow> string \<Rightarrow> lookup_error + bool" where
  "keepAdapterEntry env ns q i = (case adapterEntryRobot q i of (rob, ok) \<Rightarrow>
     if \<not> ok then Inr False
     else case Lookup (env_robots env ns) rob of Inl err \<Rightarrow> Inl err | Inr m \<Rightarrow> Inr (m \<noteq> None))"

text \<open>
  The loop over the entries of one queue that recovery and \<^verbatim>\<open>ReleaseAbsentRobots\<close> share; they
  differ in the entries they skip. It returns the error that stopped it, the queue as it then
  stands, the promotions, and whether an entry was released.
\<close>

fun release_entries :: "tde_env \<Rightarrow> string \<Rightarrow> int \<Rightarrow> (resource_queue \<Rightarrow> string \<Rightarrow> bool) \<Rightarrow> string list
    \<Rightarrow> resource_queue \<Rightarrow> lookup_error option \<times> resource_queue \<times> promotion list \<times> bool" where
  "release_entries env ns capacity skip [] q = (None, q, [], False)"
| "release_entries env ns capacity skip (i # ids) q =
     (if skip q i then release_entries env ns capacity skip ids q
      else case keepAdapterEntry env ns q i of
          Inl err \<Rightarrow> (Some err, q, [], False)
        | Inr True \<Rightarrow> release_entries env ns capacity skip ids q
        | Inr False \<Rightarrow>
            let q' = releaseHolder q i (env_now env) capacity
            in case release_entries env ns capacity skip ids q' of (err, q'', ps, _) \<Rightarrow>
                 (err, q'', promotedSince ns q' (adapterHolders q) @ ps, True))"

definition sortedResourceNames :: "(string \<times> resource_queue) list \<Rightarrow> string list" where
  "sortedResourceNames m = sort (keys m)"

fun absent_in_zone :: "tde_env \<Rightarrow> string \<Rightarrow> string \<Rightarrow> string list \<Rightarrow> zone_state
    \<Rightarrow> (string \<times> lookup_error) option \<times> zone_state \<times> promotion list \<times> bool" where
  "absent_in_zone env ns zone [] zs = (None, zs, [], False)"
| "absent_in_zone env ns zone (n # ns') zs =
     (case release_entries env ns (resourceCapacity env ns zone n)
             (\<lambda>q i. \<not> snd (adapterEntryRobot q i)) (queueActionIDs (queue_at zs n)) (queue_at zs n) of
        (Some err, q, ps, ch) \<Rightarrow> (Some (n, err), set_queue n q zs, ps, ch)
      | (None, q, ps, ch) \<Rightarrow>
          (case absent_in_zone env ns zone ns' (set_queue n q zs) of (err, zs', ps', ch') \<Rightarrow>
             (err, zs', ps @ ps', ch \<or> ch')))"

fun absent_in_zones :: "tde_env \<Rightarrow> string \<Rightarrow> string list \<Rightarrow> engine \<Rightarrow> tde_error option \<times> promotion list \<times> engine" where
  "absent_in_zones env ns [] e = (None, [], e)"
| "absent_in_zones env ns (zone # zones) e =
     (let key = zoneKey ns zone
      in case absent_in_zone env ns zone (sortedResourceNames (zs_resources (zone_at e key))) (zone_at e key) of
          (Some (n, err), zs, ps, ch) \<Rightarrow> (Some (RobotUnresolved ns zone n err), [], set_zone key zs e)
        | (None, zs, ps, ch) \<Rightarrow>
            (let e1 = set_zone key zs e; e2 = (if ch then mirror env ns zone zs e1 else e1)
             in case absent_in_zones env ns zones e2 of (err, ps', e3) \<Rightarrow> (err, ps @ ps', e3)))"

definition ReleaseAbsentRobots :: "tde_env \<Rightarrow> string \<Rightarrow> engine \<Rightarrow> tde_error option \<times> engine" where
  "ReleaseAbsentRobots env ns e =
     (if \<not> eng_recovered e \<or> \<not> env_client env then (None, e)
      else case env_zones env ns of
          None \<Rightarrow> (Some ZonesUnlisted, e)
        | Some zs \<Rightarrow>
            let names = sort (map z_name (filter (\<lambda>z. z_shared z \<noteq> []) zs))
            in if names = [] then (None, e)
               else case absent_in_zones env ns names (snd (lockZones ns names e)) of
                   (Some err, ps, e') \<Rightarrow> (Some err, e')
                 | (None, ps, e') \<Rightarrow> (None, tell ps e'))"

subsection \<open>Recovery\<close>

datatype recovery_mode = RecoverValidate | RecoverReleaseAll | RecoverReleaseReservedOnly

definition keepOnRecovery :: "tde_env \<Rightarrow> fleet_zone \<Rightarrow> recovery_mode \<Rightarrow> zone_reservation \<Rightarrow> bool" where
  "keepOnRecovery env z mode r = (case mode of
     RecoverReleaseAll \<Rightarrow> False
   | RecoverReleaseReservedOnly \<Rightarrow> zr_state r = Occupied
   | RecoverValidate \<Rightarrow>
       zr_state r = Occupied \<and> (case env_robot env (z_namespace z) (zr_robot r) of
         None \<Rightarrow> False
       | Some rob \<Rightarrow> r_current_zone rob = z_name z))"

definition queuesFromStatus :: "resource_queue list \<Rightarrow> (string \<times> resource_queue) list" where
  "queuesFromStatus qs = fold (\<lambda>q m. put (q_name q) q m) qs []"

fun recover_queues :: "tde_env \<Rightarrow> string \<Rightarrow> string \<Rightarrow> string set \<Rightarrow> (string \<times> resource_queue) list
    \<Rightarrow> tde_error option \<times> (string \<times> resource_queue) list \<times> promotion list" where
  "recover_queues env ns zone kept [] = (None, [], [])"
| "recover_queues env ns zone kept ((n, q) # qs) =
     (case release_entries env ns (resourceCapacity env ns zone (q_name q)) (\<lambda>_ i. i \<in> kept)
             (queueActionIDs q) q of
        (Some err, q', ps, _) \<Rightarrow> (Some (RobotUnresolved ns zone (q_name q) err), (n, q') # qs, [])
      | (None, q', ps, _) \<Rightarrow>
          (case recover_queues env ns zone kept qs of (err, qs', ps') \<Rightarrow> (err, (n, q') # qs', ps @ ps')))"

definition recoverZone :: "tde_env \<Rightarrow> recovery_mode \<Rightarrow> fleet_zone \<Rightarrow> engine
    \<Rightarrow> tde_error option \<times> promotion list \<times> engine" where
  "recoverZone env mode z e =
     (let ns = z_namespace z; zone = z_name z; key = zoneKey ns zone;
          e1 = snd (lockZones ns [zone] e);
          kept = filter (keepOnRecovery env z mode) (z_reservations z)
      in case recover_queues env ns zone (zr_action ` set kept) (queuesFromStatus (z_queues z)) of
          (err, qs, ps) \<Rightarrow>
            let zs = \<lparr>zs_reservations = kept, zs_resources = qs\<rparr>; e2 = set_zone key zs e1
            in case err of
                Some x \<Rightarrow> (Some x, [], e2)
              | None \<Rightarrow>
                  if \<not> env_patch env ns zone then (Some (PatchFailed ns zone), [], e2)
                  else (None, ps, e2\<lparr>eng_mirror := eng_mirror e2 @
                    [\<lparr>m_namespace = ns, m_zone = zone, m_reservations = kept, m_queues = queuesSlice qs,
                      m_current_robots = wrap32 (int (fst (counts kept (env_now env))))\<rparr>]\<rparr>))"

fun recover_zones :: "tde_env \<Rightarrow> recovery_mode \<Rightarrow> fleet_zone list \<Rightarrow> engine
    \<Rightarrow> tde_error option \<times> promotion list \<times> engine" where
  "recover_zones env mode [] e = (None, [], e)"
| "recover_zones env mode (z # zs) e = (case recoverZone env mode z e of
     (Some err, ps, e') \<Rightarrow> (Some err, [], e')
   | (None, ps, e') \<Rightarrow> (case recover_zones env mode zs e' of (err, ps', e'') \<Rightarrow> (err, ps @ ps', e'')))"

definition Recover :: "tde_env \<Rightarrow> recovery_mode \<Rightarrow> engine \<Rightarrow> tde_error option \<times> engine" where
  "Recover env mode e = (case env_all_zones env of
     None \<Rightarrow> (Some ZonesUnlisted, e)
   | Some zs \<Rightarrow> (case recover_zones env mode zs e of
       (Some err, ps, e') \<Rightarrow> (Some err, e')
     | (None, ps, e') \<Rightarrow> (None, tell ps (e'\<lparr>eng_recovered := True\<rparr>))))"

subsection \<open>Vocabulary of the specification\<close>

definition status_queues :: "(string \<Rightarrow> string \<Rightarrow> resource_queue \<Rightarrow> bool) \<Rightarrow> tde_env \<Rightarrow> bool" where
  "status_queues P env = (\<forall>zs z q. env_all_zones env = Some zs \<longrightarrow> z \<in> set zs \<longrightarrow> q \<in> set (z_queues z) \<longrightarrow>
     P (zoneKey (z_namespace z) (z_name z)) (q_name q) q)"

text \<open>
  The life of an engine: it starts empty, and each step is one operation against some answer of the
  cluster in \<open>E\<close>. Recovery reads queues out of the status, which have to satisfy \<open>P\<close>.
\<close>

inductive engine_reach :: "tde_env set \<Rightarrow> (string \<Rightarrow> string \<Rightarrow> resource_queue \<Rightarrow> bool) \<Rightarrow> engine \<Rightarrow> bool"
  for E and P where
  start: "engine_reach E P New"
| request: "engine_reach E P e \<Longrightarrow> env \<in> E \<Longrightarrow> engine_reach E P (snd (RequestReservation env req e))"
| release: "engine_reach E P e \<Longrightarrow> env \<in> E \<Longrightarrow> engine_reach E P (ReleaseReservation env ns zone act e)"
| enter: "engine_reach E P e \<Longrightarrow> env \<in> E \<Longrightarrow> OnRobotEnteredZone env ns zone rob e = Some e' \<Longrightarrow> engine_reach E P e'"
| exit: "engine_reach E P e \<Longrightarrow> env \<in> E \<Longrightarrow> OnRobotExitedZone env ns zone rob e = Some e' \<Longrightarrow> engine_reach E P e'"
| phase: "engine_reach E P e \<Longrightarrow> env \<in> E \<Longrightarrow> OnActionPhaseChanged env ns zone act ph e = Some e' \<Longrightarrow>
    engine_reach E P e'"
| gate: "engine_reach E P e \<Longrightarrow> engine_reach E P (SetRecovered v e)"
| reserve: "engine_reach E P e \<Longrightarrow> env \<in> E \<Longrightarrow> engine_reach E P (snd (ReserveResource env ns name rob e))"
| release_resource: "engine_reach E P e \<Longrightarrow> env \<in> E \<Longrightarrow>
    engine_reach E P (snd (ReleaseResource env ns name rob e))"
| absent: "engine_reach E P e \<Longrightarrow> env \<in> E \<Longrightarrow> engine_reach E P (snd (ReleaseAbsentRobots env ns e))"
| recover: "engine_reach E P e \<Longrightarrow> env \<in> E \<Longrightarrow> status_queues P env \<Longrightarrow> engine_reach E P (snd (Recover env mode e))"

definition entries_accounted :: "tde_env \<Rightarrow> string \<Rightarrow> string set \<Rightarrow> resource_queue \<Rightarrow> bool" where
  "entries_accounted env ns kept q = (\<forall>i \<in> set (queueActionIDs q).
     i \<in> kept \<or> (\<exists>r. Lookup (env_robots env ns) i = Inr (Some r)))"

definition zone_rebuilt :: "tde_env \<Rightarrow> recovery_mode \<Rightarrow> engine \<Rightarrow> fleet_zone \<Rightarrow> bool" where
  "zone_rebuilt env mode e z =
     (let zs = zone_at e (zoneKey (z_namespace z) (z_name z));
          kept = filter (keepOnRecovery env z mode) (z_reservations z)
      in zs_reservations zs = kept
         \<and> (\<forall>n q. map_of (zs_resources zs) n = Some q \<longrightarrow>
              entries_accounted env (z_namespace z) (zr_action ` set kept) q))"

definition sample_lift_resource :: shared_resource where
  "sample_lift_resource = \<lparr>sr_name = ''lift'', sr_capacity = 1, sr_policy = PolicyPriority\<rparr>"

subsection \<open>Lemmas\<close>

subsection \<open>Invariants over the life of an engine\<close>

lemma zone_at_locked [simp]: "zone_at (snd (lockZones ns zones e)) k = zone_at e k"
  by (cases "lockZones ns zones e") (simp add: zone_at_lockZones)

lemma zone_at_tell [simp]: "zone_at (tell ps e) k = zone_at e k"
  by (simp add: tell_def zone_at_def)

lemma zone_at_recovered [simp]: "zone_at (e\<lparr>eng_recovered := v\<rparr>) k = zone_at e k"
  by (simp add: zone_at_def)

lemma zone_at_log [simp]: "zone_at (e\<lparr>eng_mirror := ms\<rparr>) k = zone_at e k"
  by (simp add: zone_at_def)

lemma queuesFromStatus_entry:
  "(n, q) \<in> set (queuesFromStatus qs) \<Longrightarrow> q \<in> set qs \<and> q_name q = n"
proof -
  have "(n, q) \<in> set (fold (\<lambda>q m. put (q_name q) q m) qs m) \<Longrightarrow> (n, q) \<in> set m \<or> q \<in> set qs \<and> q_name q = n" for m
    by (induction qs arbitrary: m) (auto dest: put_entry)
  from this [of "[]"] show "(n, q) \<in> set (queuesFromStatus qs) \<Longrightarrow> q \<in> set qs \<and> q_name q = n"
    by (simp add: queuesFromStatus_def)
qed

context queue_invariant
begin

lemma release_entries_ok:
  "env \<in> E \<Longrightarrow> P (zoneKey ns zone) n q \<Longrightarrow>
     c = resourceCapacity env ns zone (q_name q) \<Longrightarrow>
     release_entries env ns c skip ids q = (err, q', ps, ch) \<Longrightarrow> P (zoneKey ns zone) n q'"
proof (induction ids arbitrary: q ps ch)
  case (Cons i ids)
  then show ?case
    using release_queue [OF Cons.prems(1,2), of i "env_now env"]
    by (auto simp: Let_def split: if_splits sum.splits bool.splits prod.splits)
qed auto

lemma all_set_queue_locked:
  "all_queues P e \<Longrightarrow> P k n q \<Longrightarrow>
     all_queues P (set_zone k (set_queue n q (zone_at e k)) (snd (lockZones ns zones e)))"
  by (auto simp: all_queues_def set_queue_def)

lemma all_mirror [simp]: "all_queues P (mirror env ns zone zs e) = all_queues P e"
  by (simp add: all_queues_def)

lemma all_tell [simp]: "all_queues P (tell ps e) = all_queues P e"
  by (simp add: all_queues_def)

lemma all_log [simp]: "all_queues P (e\<lparr>eng_mirror := ms\<rparr>) = all_queues P e"
  by (simp add: all_queues_def)

lemma all_gate [simp]: "all_queues P (e\<lparr>eng_recovered := v\<rparr>) = all_queues P e"
  by (simp add: all_queues_def)

lemma all_ReserveResource: "env \<in> E \<Longrightarrow> all_queues P e \<Longrightarrow> all_queues P (snd (ReserveResource env ns name rob e))"
  by (auto simp: ReserveResource_def Let_def split: option.splits
      intro!: all_set_queue_locked grant_queue queue_at_ok)

end

text \<open>An invariant under which every queue is stored under its own name.\<close>

locale named_queue_invariant = queue_invariant +
  assumes named: "P k n q \<Longrightarrow> q_name q = n"
begin

lemma all_ReleaseResource:
  assumes "env \<in> E" "all_queues P e"
  shows "all_queues P (snd (ReleaseResource env ns name rob e))"
proof -
  have "P (zoneKey ns zone) name (releaseHolder q rob (env_now env) (resourceCapacity env ns zone name))"
    if "map_of (zs_resources (zone_at e (zoneKey ns zone))) name = Some q" for zone q
    using release_queue [OF assms(1) all_at [OF assms(2) that]] named [OF all_at [OF assms(2) that]] by simp
  moreover have "all_queues P (snd (lockZones ns [zone] e))" for zone
    using assms(2) by (simp add: all_queues_def)
  ultimately show ?thesis
    using assms by (auto simp: ReleaseResource_def Let_def split: option.splits intro!: all_set_queue_locked)
qed

lemma absent_in_zone_ok:
  "env \<in> E \<Longrightarrow> (\<And>n q. map_of (zs_resources zs) n = Some q \<Longrightarrow> P (zoneKey ns zone) n q) \<Longrightarrow>
     absent_in_zone env ns zone names zs = (err, zs', ps, ch) \<Longrightarrow>
     map_of (zs_resources zs') n = Some q \<Longrightarrow> P (zoneKey ns zone) n q"
proof (induction names arbitrary: zs err zs' ps ch)
  case (Cons m names)
  obtain err1 q1 ps1 ch1 where r: "release_entries env ns (resourceCapacity env ns zone m)
      (\<lambda>q i. \<not> snd (adapterEntryRobot q i)) (queueActionIDs (queue_at zs m)) (queue_at zs m) = (err1, q1, ps1, ch1)"
    by (metis prod_cases4)
  have q: "P (zoneKey ns zone) m (queue_at zs m)"
    using Cons.prems(1,2) by (auto simp: queue_at_def new_queue split: option.splits)
  have "P (zoneKey ns zone) m q1"
    using release_entries_ok [OF Cons.prems(1) q _ r] named [OF q] by simp
  then have ok: "map_of (zs_resources (set_queue m q1 zs)) n = Some q \<Longrightarrow> P (zoneKey ns zone) n q" for n q
    using Cons.prems(2) by (auto simp: set_queue_def split: if_splits)
  show ?case
  proof (cases err1)
    case None
    obtain err2 zs2 ps2 ch2 where z: "absent_in_zone env ns zone names (set_queue m q1 zs) = (err2, zs2, ps2, ch2)"
      by (metis prod_cases4)
    then show ?thesis
      using Cons.IH [OF Cons.prems(1) ok z] Cons.prems(3,4) r None by simp
  next
    case (Some x)
    then show ?thesis
      using Cons.prems(3,4) ok r by auto
  qed
qed simp

lemma absent_in_zones_ok:
  "env \<in> E \<Longrightarrow> all_queues P e \<Longrightarrow> absent_in_zones env ns zones e = (err, ps, e') \<Longrightarrow> all_queues P e'"
proof (induction zones arbitrary: e err ps)
  case (Cons zone zones)
  let ?zs = "zone_at e (zoneKey ns zone)"
  obtain err1 zs1 ps1 ch1 where z: "absent_in_zone env ns zone (sortedResourceNames (zs_resources ?zs)) ?zs
      = (err1, zs1, ps1, ch1)"
    by (metis prod_cases4)
  have "all_queues P (set_zone (zoneKey ns zone) zs1 e)"
    by (rule all_set_zone [OF Cons.prems(2)])
      (rule absent_in_zone_ok [OF Cons.prems(1) all_at [OF Cons.prems(2)] z])
  then show ?case
    using Cons.IH [OF Cons.prems(1), of "set_zone (zoneKey ns zone) zs1 e"] Cons.prems(3) z
      Cons.IH [OF Cons.prems(1), of "mirror env ns zone zs1 (set_zone (zoneKey ns zone) zs1 e)"]
    by (auto simp: Let_def split: option.splits prod.splits if_splits)
qed simp

lemma all_ReleaseAbsentRobots:
  assumes "env \<in> E" "all_queues P e"
  shows "all_queues P (snd (ReleaseAbsentRobots env ns e))"
proof -
  have "all_queues P (snd (lockZones ns names e))" for names
    using assms(2) by (simp add: all_queues_def)
  then show ?thesis
    using assms absent_in_zones_ok [OF assms(1)]
    by (fastforce simp: ReleaseAbsentRobots_def Let_def split: option.splits prod.splits)
qed

lemma recover_queues_ok:
  "env \<in> E \<Longrightarrow> (\<And>n q. (n, q) \<in> set qs \<Longrightarrow> P (zoneKey ns zone) n q) \<Longrightarrow>
     recover_queues env ns zone kept qs = (err, qs', ps) \<Longrightarrow> (n, q) \<in> set qs' \<Longrightarrow> P (zoneKey ns zone) n q"
proof (induction qs arbitrary: err qs' ps)
  case (Cons nq qs)
  obtain m q0 where nq: "nq = (m, q0)" by (cases nq)
  obtain err1 q1 ps1 ch1 where r: "release_entries env ns (resourceCapacity env ns zone (q_name q0))
      (\<lambda>_ i. i \<in> kept) (queueActionIDs q0) q0 = (err1, q1, ps1, ch1)"
    by (metis prod_cases4)
  obtain err2 qs2 ps2 where z: "recover_queues env ns zone kept qs = (err2, qs2, ps2)"
    by (metis prod_cases3)
  have "P (zoneKey ns zone) m q1"
    using release_entries_ok [OF Cons.prems(1) _ refl r] Cons.prems(2) nq by simp
  then show ?case
    using Cons.IH [OF Cons.prems(1) _ z] Cons.prems(2-4) r z nq by (auto split: option.splits)
qed simp

lemma recoverZone_ok:
  assumes "env \<in> E" "all_queues P e"
    and "\<And>q. q \<in> set (z_queues z) \<Longrightarrow> P (zoneKey (z_namespace z) (z_name z)) (q_name q) q"
    and "recoverZone env mode z e = (err, ps, e')"
  shows "all_queues P e'"
proof -
  let ?ns = "z_namespace z" and ?kept = "filter (keepOnRecovery env z mode) (z_reservations z)"
  obtain err1 qs ps1 where r: "recover_queues env ?ns (z_name z) (zr_action ` set ?kept) (queuesFromStatus (z_queues z))
      = (err1, qs, ps1)"
    by (metis prod_cases3)
  have "P (zoneKey ?ns (z_name z)) n q" if "map_of qs n = Some q" for n q
    using recover_queues_ok [OF assms(1) _ r] queuesFromStatus_entry assms(3) map_of_in_set [OF that] by blast
  then have "all_queues P (set_zone (zoneKey ?ns (z_name z)) \<lparr>zs_reservations = ?kept, zs_resources = qs\<rparr>
      (snd (lockZones ?ns [z_name z] e)))"
    using assms(2) by (auto simp: all_queues_def)
  then show ?thesis
    using assms(4) r by (auto simp: recoverZone_def Let_def split: option.splits if_splits)
qed

lemma recover_zones_ok:
  "env \<in> E \<Longrightarrow> all_queues P e \<Longrightarrow>
     (\<And>z q. z \<in> set zs \<Longrightarrow> q \<in> set (z_queues z) \<Longrightarrow> P (zoneKey (z_namespace z) (z_name z)) (q_name q) q) \<Longrightarrow>
     recover_zones env mode zs e = (err, ps, e') \<Longrightarrow> all_queues P e'"
proof (induction zs arbitrary: e err ps)
  case (Cons z zs)
  obtain err1 ps1 e1 where r: "recoverZone env mode z e = (err1, ps1, e1)"
    by (metis prod_cases3)
  have "all_queues P e1"
    using recoverZone_ok [OF Cons.prems(1,2) _ r] Cons.prems(3) by simp
  then show ?case
    using Cons.IH [of e1] Cons.prems r by (auto split: option.splits prod.splits)
qed simp

lemma all_Recover:
  assumes "env \<in> E" "all_queues P e" "status_queues P env"
  shows "all_queues P (snd (Recover env mode e))"
proof (cases "env_all_zones env")
  case (Some zs)
  obtain err ps e' where r: "recover_zones env mode zs e = (err, ps, e')"
    by (metis prod_cases3)
  then have "all_queues P e'"
    using recover_zones_ok [OF assms(1,2) _ r] assms(3) Some by (auto simp: status_queues_def)
  then show ?thesis
    using Some r by (auto simp: Recover_def split: option.splits)
qed (simp add: Recover_def assms)

lemma reach_invariant: "engine_reach E P e \<Longrightarrow> all_queues P e"
proof (induction rule: engine_reach.induct)
  case start
  then show ?case by (simp add: all_queues_def New_def zone_at_def empty_zone_def)
next
  case (gate e v)
  then show ?case by (simp add: SetRecovered_def all_queues_def)
qed (auto simp: all_RequestReservation all_ReleaseReservation all_ReserveResource all_ReleaseResource
    all_ReleaseAbsentRobots all_Recover OnRobotEnteredZone_def OnRobotExitedZone_def
    intro: all_on_zone all_OnActionPhaseChanged)

end

interpretation capacity_life: named_queue_invariant "capacity_envs cap" "holds_within cap" for cap
  by unfold_locales (simp add: holds_within_def)

interpretation order_life: named_queue_invariant "policy_envs pol" "waits_in_order pol" for pol
  by unfold_locales (simp add: waits_in_order_def)

subsection \<open>Recovery\<close>

lemma releaseHolder_count:
  "count_list (queueActionIDs (releaseHolder q i now c)) x \<le> count_list (queueActionIDs q) x"
  "count_list (queueActionIDs (releaseHolder q i now c)) i \<le> count_list (queueActionIDs q) i - 1"
proof -
  have f: "count_list (map h_action (filter (\<lambda>h. h_action h \<noteq> i) hs)) y =
      (if y = i then 0 else count_list (map h_action hs) y)" for hs y
    by (induction hs) auto
  have g: "count_list (map w_action (filter (\<lambda>h. w_action h \<noteq> i) ws)) y =
      (if y = i then 0 else count_list (map w_action ws) y)" for ws y
    by (induction ws) auto
  have h: "map h_action (map (holder_of now) us) = map w_action us" for us
    by (simp add: holder_of_def)
  have pos: "\<exists>h \<in> set hs. h_action h = i \<Longrightarrow> 0 < count_list (map h_action hs) i" for hs
    by (induction hs) auto
  have "(\<forall>y. count_list (queueActionIDs (releaseHolder q i now c)) y \<le> count_list (queueActionIDs q) y) \<and>
      count_list (queueActionIDs (releaseHolder q i now c)) i \<le> count_list (queueActionIDs q) i - 1"
  proof (cases rule: releaseHolder_cases [of q i now c])
    case waiting
    then have "count_list (map h_action (q_holders q)) i = 0"
      by (auto simp: count_list_0_iff)
    then show ?thesis
      using waiting by (simp add: queueActionIDs_def removeQueued_def g)
  next
    case (held us)
    then show ?thesis
      using pos [OF held(1)] by (simp add: queueActionIDs_def f h [unfolded map_map] comp_def holder_of_def)
  qed
  then show "count_list (queueActionIDs (releaseHolder q i now c)) x \<le> count_list (queueActionIDs q) x"
    "count_list (queueActionIDs (releaseHolder q i now c)) i \<le> count_list (queueActionIDs q) i - 1"
    by blast+
qed

lemma adapterEntryRobot_key: "adapterEntryRobot q i = (rob, True) \<Longrightarrow> rob = i"
  by (auto simp: adapterEntryRobot_def split: option.splits)

lemma keepAdapterEntry_True:
  "keepAdapterEntry env ns q i = Inr True \<Longrightarrow> \<exists>r. Lookup (env_robots env ns) i = Inr (Some r)"
  by (auto simp: keepAdapterEntry_def dest: adapterEntryRobot_key split: prod.splits if_splits sum.splits)

lemma release_entries_accounted:
  assumes "release_entries env ns c (\<lambda>_ i. i \<in> kept) ids q = (None, q', ps, ch)"
    and "\<And>x. x \<notin> kept \<Longrightarrow> (\<nexists>r. Lookup (env_robots env ns) x = Inr (Some r)) \<Longrightarrow>
      count_list (queueActionIDs q) x \<le> count_list ids x"
  shows "entries_accounted env ns kept q'"
  using assms
proof (induction ids arbitrary: q ps ch)
  case Nil
  then show ?case
    by (auto simp: entries_accounted_def count_list_0_iff)
next
  case (Cons i ids)
  show ?case
  proof (cases "i \<in> kept \<or> keepAdapterEntry env ns q i = Inr True")
    case True
    then have "i \<in> kept \<or> (\<exists>r. Lookup (env_robots env ns) i = Inr (Some r))"
      using keepAdapterEntry_True by blast
    then have "x \<notin> kept \<Longrightarrow> (\<nexists>r. Lookup (env_robots env ns) x = Inr (Some r)) \<Longrightarrow>
        count_list (queueActionIDs q) x \<le> count_list ids x" for x
      using Cons.prems(2) [of x] by (auto split: if_splits)
    then show ?thesis
      using Cons.IH [of q ps ch] Cons.prems(1) True by (auto split: if_splits)
  next
    case False
    let ?q = "releaseHolder q i (env_now env) c"
    obtain r where r: "release_entries env ns c (\<lambda>_ i. i \<in> kept) ids ?q = (None, q', r)"
      using Cons.prems(1) False by (auto simp: Let_def split: sum.splits bool.splits prod.splits if_splits)
    have "count_list (queueActionIDs ?q) x \<le> count_list ids x"
      if "x \<notin> kept" "\<nexists>r. Lookup (env_robots env ns) x = Inr (Some r)" for x
      using Cons.prems(2) [OF that] releaseHolder_count [of q i "env_now env" c] releaseHolder_count(1) [of q i "env_now env" c x]
      by (cases "x = i") (auto intro: order_trans)
    then show ?thesis
      using Cons.IH [of ?q "fst r" "snd r"] r by simp
  qed
qed

lemma recover_queues_accounted:
  "recover_queues env ns zone kept qs = (None, qs', ps) \<Longrightarrow> (n, q) \<in> set qs' \<Longrightarrow> entries_accounted env ns kept q"
proof (induction qs arbitrary: qs' ps)
  case (Cons nq qs)
  obtain m q0 where nq: "nq = (m, q0)" by (cases nq)
  obtain err1 q1 ps1 ch1 where r: "release_entries env ns (resourceCapacity env ns zone (q_name q0))
      (\<lambda>_ i. i \<in> kept) (queueActionIDs q0) q0 = (err1, q1, ps1, ch1)"
    by (metis prod_cases4)
  obtain err2 qs2 ps2 where z: "recover_queues env ns zone kept qs = (err2, qs2, ps2)"
    by (metis prod_cases3)
  show ?case
    using Cons.prems Cons.IH r z nq release_entries_accounted [of env ns _ kept "queueActionIDs q0" q0 q1 ps1 ch1]
    by (auto split: option.splits)
qed simp

lemma recoverZone_rebuilt:
  assumes "recoverZone env mode z e = (None, ps, e')"
  shows "zone_rebuilt env mode e' z"
    and "k \<noteq> zoneKey (z_namespace z) (z_name z) \<Longrightarrow> zone_at e' k = zone_at e k"
proof -
  let ?kept = "filter (keepOnRecovery env z mode) (z_reservations z)"
  obtain err1 qs ps1 where r: "recover_queues env (z_namespace z) (z_name z) (zr_action ` set ?kept)
      (queuesFromStatus (z_queues z)) = (err1, qs, ps1)"
    by (metis prod_cases3)
  then have e': "err1 = None" "zone_at e' k = (if k = zoneKey (z_namespace z) (z_name z)
      then \<lparr>zs_reservations = ?kept, zs_resources = qs\<rparr> else zone_at e k)" for k
    using assms by (auto simp: recoverZone_def Let_def split: option.splits if_splits)
  then show "zone_rebuilt env mode e' z"
    using recover_queues_accounted [of env "z_namespace z" "z_name z"] r map_of_in_set
    by (fastforce simp: zone_rebuilt_def Let_def)
  show "k \<noteq> zoneKey (z_namespace z) (z_name z) \<Longrightarrow> zone_at e' k = zone_at e k"
    using e' by simp
qed

lemma recover_zones_frame:
  "recover_zones env mode zs e = (None, ps, e') \<Longrightarrow>
     k \<notin> (\<lambda>z. zoneKey (z_namespace z) (z_name z)) ` set zs \<Longrightarrow> zone_at e' k = zone_at e k"
proof (induction zs arbitrary: e ps)
  case (Cons z zs)
  then show ?case
    by (auto simp: recoverZone_rebuilt split: prod.splits option.splits)
qed simp

lemma recover_zones_rebuilt:
  assumes "recover_zones env mode zs e = (None, ps, e')" "z \<in> set zs"
    and "distinct (map (\<lambda>z. zoneKey (z_namespace z) (z_name z)) zs)"
  shows "zone_rebuilt env mode e' z"
  using assms
proof (induction zs arbitrary: e ps)
  case (Cons x zs)
  obtain err1 ps1 e1 where r: "recoverZone env mode x e = (err1, ps1, e1)"
    by (metis prod_cases3)
  then obtain ps2 where z: "err1 = None" "recover_zones env mode zs e1 = (None, ps2, e')"
    using Cons.prems(1) by (auto split: option.splits prod.splits)
  show ?case
  proof (cases "z = x")
    case True
    then show ?thesis
      using recoverZone_rebuilt(1) [of env mode x e ps1 e1] recover_zones_frame [OF z(2)] r z(1) Cons.prems(3)
      by (simp add: zone_rebuilt_def)
  next
    case False
    then show ?thesis using Cons.IH [OF z(2)] Cons.prems(2,3) by simp
  qed
qed simp

lemma tell_recovered [simp]: "eng_recovered (tell ps e) = eng_recovered e"
  by (simp add: tell_def)

lemma map_of_queuesFromStatus:
  "distinct (map q_name qs) \<Longrightarrow> q \<in> set qs \<Longrightarrow> map_of (queuesFromStatus qs) (q_name q) = Some q"
proof -
  have "distinct (map q_name qs) \<Longrightarrow> map_of (fold (\<lambda>q m. put (q_name q) q m) qs m) n =
      (case find (\<lambda>q. q_name q = n) qs of Some q \<Rightarrow> Some q | None \<Rightarrow> map_of m n)" for m n
    by (induction qs arbitrary: m) (auto simp: find_None_iff split: option.splits dest!: find_Some_D)
  moreover have "distinct (map q_name qs) \<Longrightarrow> q \<in> set qs \<Longrightarrow> find (\<lambda>q'. q_name q' = q_name q) qs = Some q"
    by (induction qs) auto
  ultimately show "distinct (map q_name qs) \<Longrightarrow> q \<in> set qs \<Longrightarrow> ?thesis"
    by (simp add: queuesFromStatus_def)
qed

lemma queuesSlice_elem:
  "distinct (keys m) \<Longrightarrow> set (queuesSlice m) = snd ` set m"
  by (force simp: queuesSlice_def keys_def image_iff)

subsection \<open>Properties of resource reservations and recovery\<close>

lemma lockZones_recovered [simp]: "eng_recovered (snd (lockZones ns zones e)) = eng_recovered e"
proof -
  have "eng_recovered (fold stateFor ks e) = eng_recovered e" for ks
    by (induction ks arbitrary: e) simp_all
  then show ?thesis by (simp add: lockZones_def Let_def)
qed

lemma recoverZone_gate: "eng_recovered (snd (snd (recoverZone env mode z e))) = eng_recovered e"
  using lockZones_recovered [of "z_namespace z" "[z_name z]" e]
  by (auto simp: recoverZone_def Let_def split: prod.splits option.splits)

lemma recover_zones_gate: "recover_zones env mode zs e = (err, ps, e') \<Longrightarrow> eng_recovered e' = eng_recovered e"
proof (induction zs arbitrary: e err ps)
  case (Cons z zs)
  then show ?case
    using recoverZone_gate [of env mode z e] by (auto split: prod.splits option.splits)
qed simp

lemma waiting_has_robot:
  "list_ex (\<lambda>w. w_robot w = rob) (q_waiting (insertByPolicy q (adapter_waiter rob now) pol))"
proof -
  have "adapter_waiter rob now \<in> set (q_waiting (insertByPolicy q (adapter_waiter rob now) pol))"
    using arg_cong [OF insertByPolicy_mset [of q "adapter_waiter rob now" pol], of set_mset] by simp
  then show ?thesis by (force simp: list_ex_iff adapter_waiter_def)
qed







text \<open>
  A recovery that fails leaves the grant gate as it was: an engine that has not recovered
  keeps refusing every request.
\<close>

theorem failed_recovery_keeps_gate:
  assumes "Recover env mode e = (Some err, e')"
  shows "eng_recovered e' = eng_recovered e"
  using assms recover_zones_gate by (auto simp: Recover_def split: option.splits prod.splits)

theorem failed_recovery_keeps_gate_witness:
  "eng_recovered (snd (Recover ((sample_env 1 [])\<lparr>env_all_zones := None\<rparr>) RecoverValidate New)) = False"
  using failed_recovery_keeps_gate [of "(sample_env 1 [])\<lparr>env_all_zones := None\<rparr>" RecoverValidate New ZonesUnlisted New]
  by (simp add: Recover_def New_def)

text \<open>
  What an engine mirrors into the status of a zone is what recovery reads back: the queues
  written to the status and rebuilt from it are the same map.
\<close>

theorem mirrored_queues_read_back:
  assumes "distinct (keys m)" "\<And>n q. (n, q) \<in> set m \<Longrightarrow> q_name q = n"
  shows "map_of (queuesFromStatus (queuesSlice m)) = map_of m"
proof
  fix n
  have "q_name (the (map_of m n)) = n" if "n \<in> set (keys m)" for n
    using that assms(2) map_of_in_set by (fastforce simp: map_of_keys)
  then have names: "map q_name (queuesSlice m) = sort (keys m)"
    by (auto simp: queuesSlice_def intro!: map_idI)
  show "map_of (queuesFromStatus (queuesSlice m)) n = map_of m n"
  proof (cases "map_of m n")
    case None
    then have "n \<notin> set (map q_name (queuesSlice m))"
      by (simp add: names map_of_keys)
    then show ?thesis
      using None queuesFromStatus_entry map_of_in_set by (cases "map_of (queuesFromStatus (queuesSlice m)) n") fastforce+
  next
    case (Some q)
    then have "q \<in> set (queuesSlice m)" "q_name q = n"
      using assms map_of_in_set [OF Some] by (force simp: queuesSlice_elem)+
    then show ?thesis
      using map_of_queuesFromStatus [of "queuesSlice m" q] Some assms(1) names by simp
  qed
qed

theorem mirrored_queues_read_back_witness:
  "map_of (queuesFromStatus (queuesSlice [(''lift'', sample_lift)])) ''lift'' = Some sample_lift"
  by (subst mirrored_queues_read_back) (simp_all add: keys_def sample_lift_def)

lemma reserve_resource_settles:
  assumes "ReserveResource env ns name rob e = (out, e1)" "ro_state out \<noteq> ResourceDenied"
  obtains zone q where "eng_recovered e1" "resourceZone env ns name = Some zone"
    "map_of (zs_resources (zone_at e1 (zoneKey ns zone))) name = Some q"
    "if list_ex (\<lambda>h. h_robot h = rob) (q_holders q) then out = outcome_of ResourceGranted 0 NoMessage
     else list_ex (\<lambda>w. w_robot w = rob) (q_waiting q)
       \<and> out = outcome_of ResourceQueued (queue_position rob 1 (q_waiting q)) NoMessage"
proof -
  obtain zone where zone: "eng_recovered e" "resourceZone env ns name = Some zone"
    using assms by (auto simp: ReserveResource_def outcome_of_def split: if_splits option.splits)
  define q where "q = queue_at (zone_at e (zoneKey ns zone)) name"
  define q' where "q' = grant_or_queue (resourceCapacity env ns zone name) (resourcePolicy env ns zone name)
    (adapter_holder rob (env_now env)) (adapter_waiter rob (env_now env)) q"
  let ?held = "list_ex (\<lambda>h. h_robot h = rob)" and ?queued = "list_ex (\<lambda>w. w_robot w = rob)"
  show ?thesis
  proof (cases "?held (q_holders q) \<or> ?queued (q_waiting q)")
    case True
    then show ?thesis
      using assms(1) zone by (intro that [of zone q])
        (auto simp: ReserveResource_def Let_def set_queue_def simp flip: q_def split: if_splits)
  next
    case False
    then show ?thesis
      using assms(1) zone waiting_has_robot [of rob q "env_now env" "resourcePolicy env ns zone name"]
      by (intro that [of zone q'])
        (auto simp: ReserveResource_def Let_def set_queue_def q'_def grant_or_queue_def adapter_holder_def simp flip: q_def
          split: if_splits)
  qed
qed

text \<open>
  Reserving a resource is idempotent: repeating the request of a robot that was granted or
  queued reports the same state and position again, and changes no zone.
\<close>

theorem reserve_resource_idempotent:
  assumes "ReserveResource env ns name rob e = (out, e1)" "ro_state out \<noteq> ResourceDenied"
  shows "fst (ReserveResource env ns name rob e1) = out
    \<and> zone_at (snd (ReserveResource env ns name rob e1)) k = zone_at e1 k"
proof -
  obtain zone q where "eng_recovered e1" "resourceZone env ns name = Some zone"
    "map_of (zs_resources (zone_at e1 (zoneKey ns zone))) name = Some q"
    "if list_ex (\<lambda>h. h_robot h = rob) (q_holders q) then out = outcome_of ResourceGranted 0 NoMessage
     else list_ex (\<lambda>w. w_robot w = rob) (q_waiting q)
       \<and> out = outcome_of ResourceQueued (queue_position rob 1 (q_waiting q)) NoMessage"
    using reserve_resource_settles [OF assms] by blast
  then show ?thesis
    by (auto simp: ReserveResource_def Let_def queue_at_def set_queue_def put_same split: if_splits)
qed

theorem reserve_resource_idempotent_witness:
  "fst (ReserveResource (sample_env 1 [sample_lift_resource]) ''n'' ''lift'' ''b''
     (snd (ReserveResource (sample_env 1 [sample_lift_resource]) ''n'' ''lift'' ''b''
       (sample_engine [] [(''lift'', sample_lift)])))) = outcome_of ResourceQueued 1 NoMessage"
proof -
  let ?env = "sample_env 1 [sample_lift_resource]" and ?e = "sample_engine [] [(''lift'', sample_lift)]"
  have out: "fst (ReserveResource ?env ''n'' ''lift'' ''b'' ?e) = outcome_of ResourceQueued 1 NoMessage"
    by code_simp
  show ?thesis
    using reserve_resource_idempotent [of ?env "''n''" "''lift''" "''b''" ?e
        "outcome_of ResourceQueued 1 NoMessage" "snd (ReserveResource ?env ''n'' ''lift'' ''b'' ?e)"] out
    by (simp add: prod_eq_iff outcome_of_def)
qed

text \<open>
  The robot \<^verbatim>\<open>ReleaseResource\<close> reports as promoted is the head of the queue as it stood, also when
  the release promotes no one: here the capacity was lowered to one while two robots held.
\<close>

lemma release_reports_unpromoted_robot:
  "let q = \<lparr>q_name = ''lift'', q_holders = [adapter_holder ''a'' 0, adapter_holder ''b'' 0],
             q_waiting = [adapter_waiter ''c'' 0]\<rparr>;
       (out, e) = ReleaseResource (sample_env 1 [sample_lift_resource]) ''n'' ''lift'' ''a''
         (sample_engine [] [(''lift'', q)])
   in ro_promoted out = ''c''
      \<and> map h_robot (q_holders (queue_at (zone_at e ''n/z'') ''lift'')) = [''b'']"
  by code_simp

end
