(* ===== verification/Scheduler.thy ===== *)
theory Scheduler
  imports Api "HOL-Library.Product_Lexorder"
begin

text \<open>
  The scheduler (\<^verbatim>\<open>internal/scheduler\<close>): the candidate filters that are decidable from a robot and
  an action, the choice of a robot among those they admit, and the checks on sensor streams and
  artifact stores. The reason of an exclusion, a formatted string in the code, is a constructor
  with the values the string shows. \<^verbatim>\<open>spec.constraints\<close> is a Go map, an association list here.
\<close>

subsection \<open>Candidate filters\<close>

datatype exclusion_reason =
    ExternalAction
  | PinnedElsewhere string
  | CapabilitiesMissing "string list"
  | ConstraintUnmet string float64
  | PhaseNotIdle string
  | RobotTerminating

definition FilterPhaseIdle :: int where "FilterPhaseIdle = 1"
definition FilterRequiredCapability :: int where "FilterRequiredCapability = 3"
definition FilterParametricConstr :: int where "FilterParametricConstr = 5"
definition FilterRobotSelector :: int where "FilterRobotSelector = 6"
definition FilterTerminating :: int where "FilterTerminating = - 2"

record exclusion =
  ex_filter :: int
  ex_reason :: exclusion_reason

definition schedulableCapabilities :: "robot \<Rightarrow> bool \<Rightarrow> string set" where
  "schedulableCapabilities r acceptDegraded =
     set (map cap_name (filter (\<lambda>c. cap_status c = CapActive \<or> acceptDegraded \<and> cap_status c = CapDegraded)
       (r_capabilities r)))"

definition robotMeetsConstraint :: "robot \<Rightarrow> string \<Rightarrow> float64 \<Rightarrow> bool" where
  "robotMeetsConstraint r param least =
     list_ex (\<lambda>c. (cap_status c = CapActive \<or> cap_status c = CapDegraded \<and> cap_degraded_schedulable c)
         \<and> (case cap_params c param of Some v \<Rightarrow> fle least v | None \<Rightarrow> False))
       (r_capabilities r)"

definition ExcludedBy :: "robot \<Rightarrow> fleet_action \<Rightarrow> bool \<Rightarrow> exclusion option" where
  "ExcludedBy r a acceptDegraded =
     (if a_executor a \<noteq> None then Some \<lparr>ex_filter = 0, ex_reason = ExternalAction\<rparr>
      else if a_robot_selector a \<noteq> [] then
        (if r_name r \<noteq> a_robot_selector a
         then Some \<lparr>ex_filter = FilterRobotSelector, ex_reason = PinnedElsewhere (a_robot_selector a)\<rparr>
         else None)
      else
        let missing = filter (\<lambda>c. c \<notin> schedulableCapabilities r acceptDegraded) (a_required a)
        in if missing \<noteq> []
           then Some \<lparr>ex_filter = FilterRequiredCapability, ex_reason = CapabilitiesMissing (sort missing)\<rparr>
           else map_option
                  (\<lambda>p. \<lparr>ex_filter = FilterParametricConstr,
                        ex_reason = ConstraintUnmet p (the (map_of (a_constraints a) p))\<rparr>)
                  (find (\<lambda>p. \<not> robotMeetsConstraint r p (the (map_of (a_constraints a) p)))
                    (sort (keys (a_constraints a)))))"

definition ExcludedAsTerminating :: "robot \<Rightarrow> exclusion option" where
  "ExcludedAsTerminating r =
     (if r_deletion_timestamp r = None then None
      else Some \<lparr>ex_filter = FilterTerminating, ex_reason = RobotTerminating\<rparr>)"

definition phase_string :: "robot_phase \<Rightarrow> string" where
  "phase_string p = (case p of
     RobotDiscovered \<Rightarrow> ''Discovered'' | RobotIdle \<Rightarrow> ''Idle'' | RobotAssigned \<Rightarrow> ''Assigned''
   | RobotInProgress \<Rightarrow> ''InProgress'' | RobotCharging \<Rightarrow> ''Charging'' | RobotError \<Rightarrow> ''Error''
   | RobotOffline \<Rightarrow> ''Offline'' | RobotMaintenance \<Rightarrow> ''Maintenance'' | RobotPhaseOther s \<Rightarrow> s)"

definition phaseOrUnknown :: "robot_phase \<Rightarrow> string" where
  "phaseOrUnknown p = (if phase_string p = [] then ''unreported'' else phase_string p)"

definition ExcludedByForAssignment :: "robot \<Rightarrow> fleet_action \<Rightarrow> bool \<Rightarrow> exclusion option" where
  "ExcludedByForAssignment r a acceptDegraded =
     or_else (ExcludedAsTerminating r)
       (if r_phase r \<noteq> RobotIdle
        then Some \<lparr>ex_filter = FilterPhaseIdle, ex_reason = PhaseNotIdle (phaseOrUnknown (r_phase r))\<rparr>
        else ExcludedBy r a acceptDegraded)"

definition acceptDegradedOf :: "fleet_action \<Rightarrow> bool" where
  "acceptDegradedOf a = (a_accept_degraded a = Some True)"

definition RobotMatchesAction :: "robot \<Rightarrow> fleet_action \<Rightarrow> bool" where
  "RobotMatchesAction r a = (ExcludedBy r a (acceptDegradedOf a) = None)"

definition RobotSatisfiesActionCapabilities :: "robot \<Rightarrow> fleet_action \<Rightarrow> bool \<Rightarrow> bool" where
  "RobotSatisfiesActionCapabilities r a acceptDegraded =
     (\<not> (a_robot_selector a \<noteq> [] \<and> r_name r \<noteq> a_robot_selector a)
      \<and> list_all (\<lambda>c. c \<in> schedulableCapabilities r acceptDegraded) (a_required a)
      \<and> list_all (\<lambda>p. robotMeetsConstraint r p (the (map_of (a_constraints a) p))) (keys (a_constraints a)))"

subsection \<open>The choice of a robot\<close>

datatype schedule_error = ErrNoEligibleRobot | ErrExternalAction

definition batteryOf :: "robot \<Rightarrow> int" where
  "batteryOf r = (case r_battery r of None \<Rightarrow> 0 | Some b \<Rightarrow> b)"

definition isEligible :: "robot \<Rightarrow> fleet_action \<Rightarrow> bool \<Rightarrow> bool" where
  "isEligible r a acceptDegraded = (ExcludedByForAssignment r a acceptDegraded = None)"

text \<open>The comparison \<^verbatim>\<open>SelectRobot\<close> sorts by.\<close>

definition ranks_before :: "fleet_action \<Rightarrow> bool \<Rightarrow> bool \<Rightarrow> robot \<Rightarrow> robot \<Rightarrow> bool" where
  "ranks_before a preferManufacturer preferRobot r s =
     (let pr = (r_name r = a_preferred_robot a); ps = (r_name s = a_preferred_robot a);
          mr = (r_manufacturer r = a_preferred_manufacturer a);
          ms = (r_manufacturer s = a_preferred_manufacturer a)
      in if preferRobot \<and> pr \<noteq> ps then pr
         else if preferManufacturer \<and> mr \<noteq> ms then mr
         else batteryOf s < batteryOf r)"

definition SelectRobot :: "fleet_action \<Rightarrow> robot list \<Rightarrow> bool \<Rightarrow> bool \<Rightarrow> bool \<Rightarrow> schedule_error + robot" where
  "SelectRobot a candidates acceptDegraded preferSameManufacturer honorPreferredRobot =
     (if a_executor a \<noteq> None then Inl ErrExternalAction
      else let eligible = filter (\<lambda>r. isEligible r a acceptDegraded) candidates;
               preferManufacturer = (preferSameManufacturer \<and> a_preferred_manufacturer a \<noteq> []);
               preferRobot = (honorPreferredRobot \<and> a_preferred_robot a \<noteq> [])
        in if eligible = [] then Inl ErrNoEligibleRobot
           else Inr (hd (slice_stable (ranks_before a preferManufacturer preferRobot) eligible)))"

subsection \<open>Sensor streams\<close>

record sensor_stream_ref =
  sref_from_member :: "string option"
  sref_name :: "string option"

definition ResolveSensorStreamRobotRef :: "sensor_stream_ref \<Rightarrow> (string \<Rightarrow> string \<times> bool) option \<Rightarrow> string \<times> bool" where
  "ResolveSensorStreamRobotRef ref memberRobot = (case sref_name ref of
     Some n \<Rightarrow> (n, True)
   | None \<Rightarrow> (case sref_from_member ref of
       Some m \<Rightarrow> (case memberRobot of None \<Rightarrow> ([], False) | Some f \<Rightarrow> f m)
     | None \<Rightarrow> ([], False)))"

definition unmetStreamCapabilities :: "robot \<Rightarrow> sensor_stream \<Rightarrow> string list" where
  "unmetStreamCapabilities r s =
     (if ss_required s = [] then []
      else let active = cap_name ` set (filter (\<lambda>c. cap_status c = CapActive) (r_capabilities r))
           in sort (filter (\<lambda>c. c \<notin> active) (ss_required s)))"

fun stream_offered_from :: "string \<Rightarrow> string \<Rightarrow> bool \<Rightarrow> robot list \<Rightarrow> bool \<times> bool" where
  "stream_offered_from robotName streamID robotFound [] = (False, robotFound)"
| "stream_offered_from robotName streamID robotFound (r # rs) =
     (if r_name r \<noteq> robotName then stream_offered_from robotName streamID robotFound rs
      else case find (\<lambda>s. ss_id s = streamID) (r_sensor_streams r) of
          Some s \<Rightarrow> (unmetStreamCapabilities r s = [], True)
        | None \<Rightarrow> stream_offered_from robotName streamID True rs)"

definition SensorStreamOffered :: "robot list \<Rightarrow> string \<Rightarrow> string \<Rightarrow> bool \<times> bool" where
  "SensorStreamOffered candidates robotName streamID = stream_offered_from robotName streamID False candidates"

fun SensorStreamCapabilitiesUnmet :: "robot list \<Rightarrow> string \<Rightarrow> string \<Rightarrow> string list" where
  "SensorStreamCapabilitiesUnmet [] robotName streamID = []"
| "SensorStreamCapabilitiesUnmet (r # rs) robotName streamID =
     (if r_name r \<noteq> robotName then SensorStreamCapabilitiesUnmet rs robotName streamID
      else case find (\<lambda>s. ss_id s = streamID) (r_sensor_streams r) of
          Some s \<Rightarrow> unmetStreamCapabilities r s
        | None \<Rightarrow> SensorStreamCapabilitiesUnmet rs robotName streamID)"

subsection \<open>Artifact stores\<close>

datatype artifact_store_kind = KindObjectStore | KindVolumeClaim | KindEdgeLocal | KindOther string

datatype volume_access_mode = ReadWriteOnce | ReadOnlyMany | ReadWriteMany | AccessModeOther string

record artifact_store =
  as_kind :: artifact_store_kind
  as_object_store :: "string option"
  as_volume_claim :: "volume_access_mode option"
  as_edge_local :: "string option"

definition ReachableFromEverywhere :: "volume_access_mode \<Rightarrow> bool" where
  "ReachableFromEverywhere m = (m = ReadWriteMany \<or> m = ReadOnlyMany)"

text \<open>
  A store carries the field of each backing the check reads: the endpoint of an object store, the
  access mode of a claim, the zone of an edge-local store.
\<close>

definition ArtifactStoreReachable :: "artifact_store option \<Rightarrow> string \<Rightarrow> bool" where
  "ArtifactStoreReachable store consumerZone = (case store of
     None \<Rightarrow> False
   | Some s \<Rightarrow> (case as_kind s of
       KindObjectStore \<Rightarrow> as_object_store s \<noteq> None
     | KindVolumeClaim \<Rightarrow> (case as_volume_claim s of
         None \<Rightarrow> False
       | Some m \<Rightarrow> ReachableFromEverywhere m \<or> consumerZone = [])
     | KindEdgeLocal \<Rightarrow> (case as_edge_local s of None \<Rightarrow> False | Some z \<Rightarrow> z \<noteq> [] \<and> z = consumerZone)
     | KindOther _ \<Rightarrow> False))"

subsection \<open>Vocabulary of the specification\<close>

text \<open>What the filters are meant to decide: the robot can do the work, and may be given it now.\<close>

definition can_serve :: "robot \<Rightarrow> fleet_action \<Rightarrow> bool \<Rightarrow> bool" where
  "can_serve r a acceptDegraded \<longleftrightarrow>
     set (a_required a) \<subseteq> schedulableCapabilities r acceptDegraded
     \<and> (\<forall>(p, v) \<in> set (a_constraints a). robotMeetsConstraint r p v)"

definition available :: "robot \<Rightarrow> bool" where
  "available r \<longleftrightarrow> r_deletion_timestamp r = None \<and> r_phase r = RobotIdle"

definition rank_key :: "fleet_action \<Rightarrow> bool \<Rightarrow> bool \<Rightarrow> robot \<Rightarrow> int \<times> int \<times> int" where
  "rank_key a preferManufacturer preferRobot r =
     (if preferRobot \<and> r_name r \<noteq> a_preferred_robot a then 1 else 0,
      if preferManufacturer \<and> r_manufacturer r \<noteq> a_preferred_manufacturer a then 1 else 0,
      - batteryOf r)"

definition selection_key :: "fleet_action \<Rightarrow> bool \<Rightarrow> bool \<Rightarrow> robot \<Rightarrow> int \<times> int \<times> int" where
  "selection_key a preferSameManufacturer honorPreferredRobot =
     rank_key a (preferSameManufacturer \<and> a_preferred_manufacturer a \<noteq> [])
       (honorPreferredRobot \<and> a_preferred_robot a \<noteq> [])"

subsection \<open>Lemmas\<close>

lemma find_None_iff_all: "find P xs = None \<longleftrightarrow> (\<forall>x \<in> set xs. \<not> P x)"
  by (auto simp: find_None_iff)

lemma constraints_all:
  "distinct (keys cs) \<Longrightarrow> (\<forall>p \<in> set (keys cs). Q p (the (map_of cs p))) \<longleftrightarrow> (\<forall>(p, v) \<in> set cs. Q p v)"
proof -
  assume d: "distinct (keys cs)"
  have "the (map_of cs p) = v" if "(p, v) \<in> set cs" for p v
    using set_map_of [OF d that] by simp
  then show ?thesis by (force simp: keys_def)
qed

lemma ExcludedBy_None [admits_iff]:
  assumes "distinct (keys (a_constraints a))"
  shows "ExcludedBy r a d = None \<longleftrightarrow> a_executor a = None
    \<and> (if a_robot_selector a \<noteq> [] then r_name r = a_robot_selector a else can_serve r a d)"
  using constraints_all [OF assms, of "robotMeetsConstraint r"]
  by (auto simp: ExcludedBy_def Let_def find_None_iff_all can_serve_def filter_empty_conv)

lemma ExcludedAsTerminating_None [admits_iff]: "ExcludedAsTerminating r = None \<longleftrightarrow> r_deletion_timestamp r = None"
  by (simp add: ExcludedAsTerminating_def)

lemma isEligible_iff [admits_iff]:
  "distinct (keys (a_constraints a)) \<Longrightarrow> isEligible r a d \<longleftrightarrow> available r \<and> a_executor a = None
    \<and> (if a_robot_selector a \<noteq> [] then r_name r = a_robot_selector a else can_serve r a d)"
  by (auto simp: isEligible_def ExcludedByForAssignment_def or_else_None admits_iff available_def split: if_splits)

lemma ranks_before_key: "ranks_before a pm pr r s \<longleftrightarrow> rank_key a pm pr r < rank_key a pm pr s"
  by (auto simp: ranks_before_def rank_key_def less_prod_def' Let_def)

interpretation ranking: strict_weak_order "ranks_before a pm pr" for a pm pr
  by unfold_locales (auto simp: ranks_before_key)

lemma filter_split:
  "filter P xs = us @ y # vs \<Longrightarrow> \<exists>us' vs'. xs = us' @ y # vs' \<and> filter P us' = us \<and> filter P vs' = vs \<and> P y"
proof (induction us arbitrary: xs)
  case Nil
  then obtain cs ds where "xs = cs @ y # ds" "\<forall>c \<in> set cs. \<not> P c" "P y" "vs = filter P ds"
    by (auto simp: filter_eq_Cons_iff)
  then show ?case
    by (intro exI [of _ cs] exI [of _ ds]) simp
next
  case (Cons u us)
  then obtain cs ds where "xs = cs @ u # ds" "\<forall>c \<in> set cs. \<not> P c" "P u" "filter P ds = us @ y # vs"
    by (auto simp: filter_eq_Cons_iff)
  moreover then obtain us' vs' where "ds = us' @ y # vs'" "filter P us' = us" "filter P vs' = vs" "P y"
    using Cons.IH by blast
  ultimately show ?case
    by (intro exI [of _ "cs @ u # us'"] exI [of _ vs']) simp
qed

subsection \<open>Properties of the scheduler\<close>

text \<open>
  Claim C25. The scheduler hands an action to the first of the best candidates: the chosen robot is
  a candidate every filter admits, no admitted candidate ranks above it (by preferred robot, then
  preferred manufacturer, then battery), and every admitted candidate listed before it ranks
  strictly below it.
\<close>

theorem selected_robot_is_first_best:
  assumes "SelectRobot a candidates d sm hp = Inr r"
  shows "isEligible r a d \<and> (\<exists>us vs. candidates = us @ r # vs
    \<and> (\<forall>u \<in> set us. isEligible u a d \<longrightarrow> selection_key a sm hp r < selection_key a sm hp u)
    \<and> (\<forall>v \<in> set vs. isEligible v a d \<longrightarrow> selection_key a sm hp r \<le> selection_key a sm hp v))"
proof -
  let ?before = "ranks_before a (sm \<and> a_preferred_manufacturer a \<noteq> []) (hp \<and> a_preferred_robot a \<noteq> [])"
  let ?P = "\<lambda>r. isEligible r a d"
  let ?sorted = "slice_stable ?before (filter ?P candidates)"
  have "filter ?P candidates \<noteq> []" "hd ?sorted = r"
    using assms by (simp_all add: SelectRobot_def Let_def split: if_splits)
  then have "?sorted = r # tl ?sorted"
    using slice_stable_Nil_iff [of ?before "filter ?P candidates"] by (metis list.collapse)
  then obtain us vs where e: "filter ?P candidates = us @ r # vs" "\<forall>u \<in> set us. ?before r u"
      "\<forall>v \<in> set vs. \<not> ?before v r"
    using ranking.slice_stable_hd by blast
  obtain us' vs' where c: "candidates = us' @ r # vs'" "filter ?P us' = us" "filter ?P vs' = vs" "?P r"
    using filter_split [OF e(1)] by blast
  have "selection_key a sm hp r < selection_key a sm hp u" if "u \<in> set us'" "?P u" for u
    using e(2) that unfolding c(2) [symmetric] by (simp add: ranks_before_key selection_key_def)
  moreover have "selection_key a sm hp r \<le> selection_key a sm hp v" if "v \<in> set vs'" "?P v" for v
    using e(3) that unfolding c(3) [symmetric] by (simp add: ranks_before_key selection_key_def not_less)
  ultimately show ?thesis
    using c(1,4) by blast
qed

theorem selected_robot_is_first_best_witness:
  "isEligible (sample_robot ''b'' 80) sample_action False"
  using selected_robot_is_first_best [of sample_action "[sample_robot ''a'' 50, sample_robot ''b'' 80]" False True True
      "sample_robot ''b'' 80"]
  by (simp add: SelectRobot_def sample_action_def sample_robot_def isEligible_def ExcludedByForAssignment_def
      ExcludedAsTerminating_def or_else_def ExcludedBy_def schedulableCapabilities_def robotMeetsConstraint_def keys_def
      fle_def slice_stable_def ranks_before_def batteryOf_def)

text \<open>
  The scheduler finds a robot exactly when there is one: the action is not external and
  some candidate is idle, not being deleted, and is the pinned robot or, without a pin, offers every
  required capability and meets every constraint. The preferences of the action and of the
  namespace play no part in whether a robot is found.
\<close>

theorem robot_found_iff_eligible:
  assumes "distinct (keys (a_constraints a))"
  shows "(\<exists>r. SelectRobot a candidates d sm hp = Inr r) \<longleftrightarrow>
    a_executor a = None \<and> (\<exists>r \<in> set candidates. available r
      \<and> (if a_robot_selector a \<noteq> [] then r_name r = a_robot_selector a else can_serve r a d))"
proof -
  have "(\<exists>r. SelectRobot a candidates d sm hp = Inr r) \<longleftrightarrow>
      a_executor a = None \<and> filter (\<lambda>r. isEligible r a d) candidates \<noteq> []"
    by (auto simp: SelectRobot_def Let_def)
  then show ?thesis
    using isEligible_iff [OF assms] by (auto simp: filter_empty_conv)
qed

theorem robot_found_iff_eligible_witness:
  "\<exists>r. SelectRobot sample_action [sample_robot ''a'' 50] False False False = Inr r"
  by (subst robot_found_iff_eligible)
    (simp_all add: sample_action_def sample_robot_def available_def can_serve_def schedulableCapabilities_def
      robotMeetsConstraint_def keys_def fle_def)

text \<open>
  For an action that names no robot, the check that an assigned robot may go on with its
  work and the filters that assigned it decide the same question: the robot offers every required
  capability and meets every constraint.
\<close>

theorem continued_eligibility_agrees:
  assumes "a_executor a = None" "a_robot_selector a = []" "distinct (keys (a_constraints a))"
  shows "(ExcludedBy r a d = None \<longleftrightarrow> RobotSatisfiesActionCapabilities r a d)
    \<and> (RobotSatisfiesActionCapabilities r a d \<longleftrightarrow> can_serve r a d)"
proof -
  have "RobotSatisfiesActionCapabilities r a d \<longleftrightarrow> can_serve r a d"
    using constraints_all [OF assms(3), of "robotMeetsConstraint r"] assms(2)
    by (auto simp: RobotSatisfiesActionCapabilities_def can_serve_def list_all_iff)
  then show ?thesis
    using assms by (simp add: admits_iff)
qed

theorem continued_eligibility_agrees_witness:
  "can_serve (sample_robot ''a'' 50) sample_action False"
  using continued_eligibility_agrees [of sample_action "sample_robot ''a'' 50" False]
  by (simp add: sample_action_def sample_robot_def RobotSatisfiesActionCapabilities_def schedulableCapabilities_def
      robotMeetsConstraint_def keys_def fle_def)

text \<open>
  A pinned robot is assigned without its capabilities being checked, and is then found to have
  lost them at once: here the pinned robot never had the capability the action requires.
\<close>

lemma pinned_robot_loses_capability_it_never_had:
  "let r = sample_robot ''a'' 50;
       a = sample_action\<lparr>a_robot_selector := ''a'', a_required := [''paint'']\<rparr>
   in isEligible r a False \<and> \<not> RobotSatisfiesActionCapabilities r a False"
  by (simp add: sample_action_def sample_robot_def isEligible_def ExcludedByForAssignment_def ExcludedAsTerminating_def
      or_else_def ExcludedBy_def RobotSatisfiesActionCapabilities_def schedulableCapabilities_def image_iff)

text \<open>
  A stream is offered exactly when the named robot declares it and lacks none of the capabilities
  it needs, and the robot counts as found exactly when it is a candidate.
\<close>

lemma stream_offered_from_iff:
  "stream_offered_from n sid found cs = (offered, found') \<Longrightarrow>
     (found' \<longleftrightarrow> found \<or> (\<exists>r \<in> set cs. r_name r = n))
     \<and> (offered \<longleftrightarrow> (\<exists>r \<in> set cs. r_name r = n \<and> (\<exists>s \<in> set (r_sensor_streams r). ss_id s = sid))
          \<and> SensorStreamCapabilitiesUnmet cs n sid = [])"
proof (induction cs arbitrary: found)
  case Nil
  then show ?case by auto
next
  case (Cons r cs)
  show ?case
  proof (cases "r_name r = n")
    case True
    show ?thesis
    proof (cases "find (\<lambda>s. ss_id s = sid) (r_sensor_streams r)")
      case None
      then have "stream_offered_from n sid True cs = (offered, found')" "\<not> (\<exists>s \<in> set (r_sensor_streams r). ss_id s = sid)"
        using Cons.prems True find_None_D [OF None] by auto
      then show ?thesis
        using Cons.IH [of True] True None by simp
    next
      case (Some s)
      then have "\<exists>s \<in> set (r_sensor_streams r). ss_id s = sid"
        using find_Some_D [OF Some] by blast
      then show ?thesis
        using Cons.prems True Some by auto
    qed
  next
    case False
    then show ?thesis using Cons.IH [of found] Cons.prems by simp
  qed
qed

lemma sensor_stream_offered_iff:
  "SensorStreamOffered cs n sid = (offered, found) \<Longrightarrow>
     (found \<longleftrightarrow> (\<exists>r \<in> set cs. r_name r = n))
     \<and> (offered \<longleftrightarrow> (\<exists>r \<in> set cs. r_name r = n \<and> (\<exists>s \<in> set (r_sensor_streams r). ss_id s = sid))
          \<and> SensorStreamCapabilitiesUnmet cs n sid = [])"
  using stream_offered_from_iff [of n sid False cs offered found] by (simp add: SensorStreamOffered_def)

lemma zone_scoped_store_reach:
  "consumerZone \<noteq> [] \<Longrightarrow> ArtifactStoreReachable (Some s) consumerZone \<Longrightarrow>
     as_kind s = KindObjectStore
     \<or> as_kind s = KindVolumeClaim \<and> (\<exists>m. as_volume_claim s = Some m \<and> ReachableFromEverywhere m)
     \<or> as_kind s = KindEdgeLocal \<and> as_edge_local s = Some consumerZone"
  by (auto simp: ArtifactStoreReachable_def split: artifact_store_kind.splits option.splits if_splits)

end
