(* ===== verification/Contract.thy ===== *)
theory Contract
  imports GoStrconv
begin

text \<open>
  The contract version of the fleet-adapter protocol (\<^verbatim>\<open>internal/contract/version.go\<close>): which
  versions an adapter may report, what is negotiated from a report, and the order of versions. The
  reason of a refusal, a sentence in the code, is a constructor. A panic of \<^verbatim>\<open>mustParse\<close> is \<open>None\<close>;
  it is only ever applied to the compiled-in version.
\<close>

subsection \<open>Parsing\<close>

text \<open>\<^verbatim>\<open>strings.SplitN(s, sep, n)\<close> for a one-byte separator and a positive \<open>n\<close>.\<close>

fun split_n :: "char \<Rightarrow> nat \<Rightarrow> string \<Rightarrow> string list" where
  "split_n c 0 s = []"
| "split_n c (Suc 0) s = [s]"
| "split_n c (Suc (Suc n)) s =
     (if c \<in> set s then takeWhile (\<lambda>x. x \<noteq> c) s # split_n c (Suc n) (tl (dropWhile (\<lambda>x. x \<noteq> c) s)) else [s])"

definition Version :: string where
  "Version = ''1.4.0''"

definition mustParse :: "string \<Rightarrow> (int \<times> int) option" where
  "mustParse v =
     (let parts = split_n CHR ''.'' 3 v
      in if length parts < 3 then None
         else case (atoi (parts ! 0), atoi (parts ! 1)) of
             (Some major, Some minor) \<Rightarrow> Some (major, minor)
           | _ \<Rightarrow> None)"

definition parse_part :: "string \<Rightarrow> int option" where
  "parse_part p = (case atoi p of Some n \<Rightarrow> if n < 0 then None else Some n | None \<Rightarrow> None)"

definition parseFull :: "string \<Rightarrow> (int \<times> int \<times> int) option" where
  "parseFull v = (case split_on CHR ''.'' v of
     [a, b, c] \<Rightarrow> (case (parse_part a, parse_part b, parse_part c) of
         (Some x, Some y, Some z) \<Rightarrow> Some (x, y, z)
       | _ \<Rightarrow> None)
   | _ \<Rightarrow> None)"

definition parseStrict :: "string \<Rightarrow> (int \<times> int) option" where
  "parseStrict v = (case split_on CHR ''.'' v of
     [a, b, c] \<Rightarrow> (case (parse_part a, parse_part b, parse_part c) of
         (Some x, Some y, Some z) \<Rightarrow> Some (x, y)
       | _ \<Rightarrow> None)
   | _ \<Rightarrow> None)"

subsection \<open>The supported range\<close>

definition our_version :: "int \<times> int" where
  "our_version = the (mustParse Version)"

definition format_version :: "int \<Rightarrow> int \<Rightarrow> int \<Rightarrow> string" where
  "format_version x y z = format_int x @ ''.'' @ format_int y @ ''.'' @ format_int z"

definition low_minor :: "int \<Rightarrow> int" where
  "low_minor minor = (if minor - 1 < 0 then 0 else minor - 1)"

definition SupportedRange :: string where
  "SupportedRange = (case our_version of (major, minor) \<Rightarrow>
     ''>='' @ format_version major (low_minor minor) 0 @ '' <'' @ format_version major (minor + 1) 0)"

datatype version_refusal =
    NotReported
  | NotPlainSemver string
  | OtherMajor string int int
  | OutsideRange string string

definition Supports :: "string \<Rightarrow> bool \<times> version_refusal option" where
  "Supports reported =
     (if reported = [] then (False, Some NotReported)
      else case parseStrict reported of
          None \<Rightarrow> (False, Some (NotPlainSemver reported))
        | Some (major, minor) \<Rightarrow> (case our_version of (ourMajor, ourMinor) \<Rightarrow>
            if major \<noteq> ourMajor then (False, Some (OtherMajor reported major ourMajor))
            else if minor < low_minor ourMinor \<or> ourMinor < minor
            then (False, Some (OutsideRange reported SupportedRange))
            else (True, None)))"

definition Negotiate :: "string \<Rightarrow> string \<times> bool" where
  "Negotiate reported =
     (if \<not> fst (Supports reported) then ([], False)
      else case parseFull reported of
          None \<Rightarrow> ([], False)
        | Some (x, y, z) \<Rightarrow>
            if (x, y) = our_version then (Version, True) else (format_version x y z, True))"

definition Below :: "string \<Rightarrow> string \<Rightarrow> bool \<times> bool" where
  "Below reported version = (case (parseFull reported, parseFull version) of
     (Some (a, b, c), Some (x, y, z)) \<Rightarrow>
       (if a \<noteq> x then a < x else if b \<noteq> y then b < y else if c \<noteq> z then c < z else False, True)
   | _ \<Rightarrow> (False, False))"

subsection \<open>Lemmas\<close>

lemma our_version_eq: "our_version = (1, 4)"
  by (simp add: our_version_def mustParse_def Version_def numeral_eq_Suc atoi_def parse_digits_def digit_val_def
      char_val_def max_int64_def)

lemma parseStrict_full: "parseStrict v = map_option (\<lambda>(x, y, z). (x, y)) (parseFull v)"
  by (simp add: parseStrict_def parseFull_def split: list.splits option.splits prod.splits)

lemma parse_part_format: "0 \<le> i \<Longrightarrow> i \<le> max_int64 \<Longrightarrow> parse_part (format_int i) = Some i"
  by (simp add: parse_part_def atoi_format_int max_int64_def)

lemma parse_part_range: "parse_part p = Some i \<Longrightarrow> 0 \<le> i \<and> i \<le> max_int64"
  using atoi_range by (auto simp: parse_part_def split: option.splits if_splits)

lemma parseFull_range:
  "parseFull v = Some (x, y, z) \<Longrightarrow> 0 \<le> x \<and> 0 \<le> y \<and> 0 \<le> z \<and> x \<le> max_int64 \<and> y \<le> max_int64 \<and> z \<le> max_int64"
  using parse_part_range by (auto simp: parseFull_def split: list.splits option.splits)

lemma format_int_dot [simp]: "CHR ''.'' \<notin> set (format_int i)"
  by (simp add: format_int_def)

lemma parseFull_format:
  assumes "0 \<le> x" "0 \<le> y" "0 \<le> z" "x \<le> max_int64" "y \<le> max_int64" "z \<le> max_int64"
  shows "parseFull (format_version x y z) = Some (x, y, z)"
proof -
  have "split_on CHR ''.'' (format_version x y z) = [format_int x, format_int y, format_int z]"
    by (simp add: format_version_def split_on_sep split_on_plain)
  then show ?thesis using assms by (simp add: parseFull_def parse_part_format)
qed

lemma parseFull_Version: "parseFull Version = Some (1, 4, 0)"
  by (simp add: parseFull_def Version_def parse_part_def atoi_def parse_digits_def digit_val_def char_val_def max_int64_def)

lemma supports_iff:
  "fst (Supports v) \<longleftrightarrow> (\<exists>y z. parseFull v = Some (1, y, z) \<and> 3 \<le> y \<and> y \<le> 4)"
proof -
  have "parseFull [] = None" by (simp add: parseFull_def)
  then show ?thesis
    by (auto simp: Supports_def our_version_eq parseStrict_full low_minor_def split: option.splits)
qed

subsection \<open>Properties of contract versions\<close>

text \<open>
  The versions that are accepted are those of the range that is advertised: the string
  \<^verbatim>\<open>SupportedRange\<close> names a lowest and a first excluded version, and a report is supported exactly when
  it is a plain version, not below the former and below the latter.
\<close>

theorem supported_versions_are_the_advertised_range:
  "\<exists>low high. SupportedRange = ''>='' @ low @ '' <'' @ high
     \<and> (\<forall>v. fst (Supports v) \<longleftrightarrow> Below v low = (False, True) \<and> Below v high = (True, True))"
proof (intro exI conjI)
  show "SupportedRange = ''>='' @ format_version 1 3 0 @ '' <'' @ format_version 1 5 0"
    by (simp add: SupportedRange_def our_version_eq low_minor_def)
  show "\<forall>v. fst (Supports v) \<longleftrightarrow>
      Below v (format_version 1 3 0) = (False, True) \<and> Below v (format_version 1 5 0) = (True, True)"
  proof
    fix v
    have "parseFull (format_version 1 3 0) = Some (1, 3, 0)" "parseFull (format_version 1 5 0) = Some (1, 5, 0)"
      by (simp_all add: parseFull_format max_int64_def)
    then show "fst (Supports v) \<longleftrightarrow>
        Below v (format_version 1 3 0) = (False, True) \<and> Below v (format_version 1 5 0) = (True, True)"
      using parseFull_range [of v] by (cases "parseFull v") (auto simp: supports_iff Below_def split: prod.splits)
  qed
qed

text \<open>
  What is negotiated is a supported version in plain form, and negotiating it again agrees
  on it: the peer and the control plane end up with the same version whoever reports it.
\<close>

theorem negotiated_version_is_stable:
  assumes "Negotiate v = (w, True)"
  shows "fst (Supports w) \<and> Negotiate w = (w, True)
    \<and> (\<exists>x y z. parseFull w = Some (x, y, z) \<and> (w = Version \<or> w = format_version x y z))"
proof -
  obtain y z where v: "parseFull v = Some (1, y, z)" "3 \<le> y" "y \<le> 4"
    using assms by (auto simp: Negotiate_def supports_iff split: if_splits)
  have Ver: "Negotiate Version = (Version, True)" "fst (Supports Version)"
    by (simp_all add: Negotiate_def supports_iff parseFull_Version our_version_eq)
  show ?thesis
  proof (cases "y = 4")
    case True
    then have "w = Version" using assms v by (simp add: Negotiate_def supports_iff our_version_eq)
    then show ?thesis using Ver parseFull_Version by simp
  next
    case False
    then have w: "w = format_version 1 y z" using assms v by (simp add: Negotiate_def supports_iff our_version_eq)
    have "parseFull w = Some (1, y, z)"
      unfolding w using parseFull_range [OF v(1)] by (intro parseFull_format) auto
    then show ?thesis
      using w v False by (simp add: Negotiate_def supports_iff our_version_eq)
  qed
qed

theorem negotiated_version_is_stable_witness:
  "Negotiate Version = (Version, True)"
  using negotiated_version_is_stable [of Version Version]
  by (simp add: Negotiate_def supports_iff parseFull_Version our_version_eq)

text \<open>The order of versions is strict and total on the versions that can be read.\<close>

lemma below_asym: "Below v w = (True, True) \<Longrightarrow> Below w v = (False, True)"
  by (auto simp: Below_def split: option.splits prod.splits if_splits)

lemma below_trans: "Below u v = (True, True) \<Longrightarrow> Below v w = (True, True) \<Longrightarrow> Below u w = (True, True)"
  by (auto simp: Below_def split: option.splits prod.splits if_splits)

text \<open>A signed component is accepted.\<close>

lemma signed_component_accepted: "fst (Supports ''+1.4.-0'')"
  by (simp add: supports_iff parseFull_def parse_part_def atoi_def parse_digits_def digit_val_def char_val_def
      max_int64_def)

end
