(* ===== verification/Guard.thy ===== *)
theory Guard
  imports Api
begin

text \<open>
  The executor guard (\<^verbatim>\<open>internal/executorguard/guard.go\<close>): the decision whether an action may be
  given to a robot while others still record it, and which of their records may be released. The
  reason the decision gives, a sentence in the code, is a constructor of \<open>guard_reason\<close>. Sums of
  durations wrap as \<^verbatim>\<open>int64\<close> does.
\<close>

subsection \<open>The decision\<close>

definition MaxLease :: duration where "MaxLease = 300 * second"
definition CoveredRecheck :: duration where "CoveredRecheck = 5 * second"
definition MaxSkew :: duration where "MaxSkew = 60 * second"

record recorder =
  rc_robot :: string
  rc_cancel_confirmed :: bool
  rc_ended :: bool
  rc_covered :: string

record guard_input =
  in_horizon :: "time option"
  in_reference :: time
  in_recorders :: "recorder list"
  in_now :: time
  in_skew :: duration
  in_move_authorized :: bool
  in_action_gone :: bool

datatype guard_reason =
    NoReasonGiven | UnderStop string | CancelAcknowledged | ReportedEnded | LeaseDead
  | HorizonUnknown | LeaseMayLive

record decision =
  d_release :: "string list"
  d_blocked :: string
  d_wait :: duration
  d_why :: guard_reason
  d_stop :: string

definition Dispatchable :: "decision \<Rightarrow> bool" where
  "Dispatchable d = (d_blocked d = [])"

definition Dead :: "guard_input \<Rightarrow> time" where
  "Dead inp = (case in_horizon inp of
     Some h \<Rightarrow> h + in_skew inp
   | None \<Rightarrow>
       let ref = (if in_reference inp = zero_time then in_now inp else in_reference inp)
       in ref + wrap64 (MaxLease + in_skew inp))"

definition KeepsRecord :: "string \<Rightarrow> bool \<Rightarrow> bool" where
  "KeepsRecord covered moveAuthorized = (covered \<noteq> [] \<and> \<not> moveAuthorized)"

definition decide_one :: "guard_input \<Rightarrow> recorder \<Rightarrow> decision \<Rightarrow> decision" where
  "decide_one inp r d =
     (let dead = Dead inp; leaseDead = (\<not> in_now inp < dead);
          release = (\<lambda>why. d\<lparr>d_release := d_release d @ [rc_robot r], d_why := why\<rparr>)
      in if KeepsRecord (rc_covered r) (in_move_authorized inp) then
           (if d_blocked d = []
            then d\<lparr>d_blocked := rc_robot r, d_wait := CoveredRecheck, d_stop := rc_covered r,
                   d_why := UnderStop (rc_covered r)\<rparr>
            else d)
         else if rc_cancel_confirmed r then release CancelAcknowledged
         else if rc_ended r then release ReportedEnded
         else if leaseDead then release LeaseDead
         else if d_blocked d = []
         then d\<lparr>d_blocked := rc_robot r, d_wait := wrap64 (time_sub dead (in_now inp) + second),
                d_why := (if in_horizon inp = None then HorizonUnknown else LeaseMayLive)\<rparr>
         else d)"

definition no_decision :: decision where
  "no_decision = \<lparr>d_release = [], d_blocked = [], d_wait = 0, d_why = NoReasonGiven, d_stop = []\<rparr>"

definition Decide :: "guard_input \<Rightarrow> decision" where
  "Decide inp = fold (decide_one inp) (in_recorders inp) no_decision"

subsection \<open>What the decision reads of an action\<close>

definition Latest :: "time option list \<Rightarrow> time" where
  "Latest ts = fold (\<lambda>t out. case t of Some u \<Rightarrow> if out < u then u else out | None \<Rightarrow> out) ts zero_time"

definition HorizonOf :: "fleet_action \<Rightarrow> time option" where
  "HorizonOf a = a_lease_expires a"

definition ReferenceOf :: "fleet_action \<Rightarrow> time" where
  "ReferenceOf a =
     (if a_phase a = PhasePaused \<and> a_lease_expires a = None then zero_time
      else Latest [Some (a_created a), a_pending_since a, a_completion a, a_failed_at a])"

definition DeleteLosesKey :: "string \<Rightarrow> guard_input \<Rightarrow> bool \<times> time" where
  "DeleteLosesKey rob inp =
     (if in_action_gone inp then (True, zero_time)
      else let d = Decide (inp\<lparr>in_recorders := [\<lparr>rc_robot = rob, rc_cancel_confirmed = False, rc_ended = False,
                                                 rc_covered = []\<rparr>]\<rparr>)
           in if Dispatchable d then (False, zero_time)
              else if in_horizon inp = None \<and> in_reference inp = zero_time then (True, zero_time)
              else (True, in_now inp + d_wait d))"

subsection \<open>Predicates on stops and requeues\<close>

definition StopOutcome :: "string list \<Rightarrow> bool" where
  "StopOutcome stops = (0 < length stops)"

definition WaitsForAPerson :: "string list \<Rightarrow> bool \<Rightarrow> bool \<Rightarrow> bool \<Rightarrow> bool" where
  "WaitsForAPerson stops confirmed leaseDead heldByOperator =
     (0 < length stops \<and> \<not> confirmed \<and> leaseDead \<and> \<not> heldByOperator)"

definition PausedRequeueRuns :: "bool \<Rightarrow> bool \<Rightarrow> bool \<Rightarrow> bool" where
  "PausedRequeueRuns covered seen askedUnderThese = (\<not> covered \<or> \<not> seen \<or> askedUnderThese)"

definition RequeueChecked :: "bool \<Rightarrow> bool \<Rightarrow> bool \<Rightarrow> bool" where
  "RequeueChecked create hadAnnotation hasAnnotation = (hasAnnotation \<and> (create \<or> \<not> hadAnnotation))"

definition KeepsStopFinalizer :: "bool \<Rightarrow> bool \<Rightarrow> bool" where
  "KeepsStopFinalizer ownStop underStop = (ownStop \<or> underStop)"

subsection \<open>Vocabulary of the specification\<close>

text \<open>
  What makes a robot provably off the action: no stop that counts covers it, and its adapter gave
  its word or the lease is dead.
\<close>

definition provably_off :: "guard_input \<Rightarrow> recorder \<Rightarrow> bool" where
  "provably_off inp r \<longleftrightarrow> (rc_covered r = [] \<or> in_move_authorized inp)
     \<and> (rc_cancel_confirmed r \<or> rc_ended r \<or> Dead inp \<le> in_now inp)"

definition sample_input :: "recorder list \<Rightarrow> guard_input" where
  "sample_input rs = \<lparr>in_horizon = Some (10 * second), in_reference = zero_time, in_recorders = rs, in_now = 0,
     in_skew = 2 * second, in_move_authorized = False, in_action_gone = False\<rparr>"

definition sample_recorder :: "string \<Rightarrow> bool \<Rightarrow> string \<Rightarrow> recorder" where
  "sample_recorder rob confirmed covered =
     \<lparr>rc_robot = rob, rc_cancel_confirmed = confirmed, rc_ended = False, rc_covered = covered\<rparr>"

subsection \<open>Lemmas\<close>

lemma decide_one_release:
  "d_release (decide_one inp r d) = d_release d @ (if provably_off inp r then [rc_robot r] else [])"
  by (auto simp: decide_one_def provably_off_def KeepsRecord_def Let_def)

lemma decide_one_blocked:
  "d_blocked (decide_one inp r d) =
     (if d_blocked d = [] \<and> \<not> provably_off inp r then rc_robot r else d_blocked d)"
  by (auto simp: decide_one_def provably_off_def KeepsRecord_def Let_def)

lemma decide_fold:
  assumes "\<forall>r \<in> set rs. rc_robot r \<noteq> []"
  shows "d_release (fold (decide_one inp) rs d) = d_release d @ map rc_robot (filter (provably_off inp) rs)
    \<and> d_blocked (fold (decide_one inp) rs d) =
        (if d_blocked d \<noteq> [] then d_blocked d
         else case filter (\<lambda>r. \<not> provably_off inp r) rs of [] \<Rightarrow> [] | r # _ \<Rightarrow> rc_robot r)"
  using assms
proof (induction rs arbitrary: d)
  case (Cons r rs)
  show ?case
    using Cons.IH [of "decide_one inp r d"] Cons.prems
    by (simp add: decide_one_release decide_one_blocked split: list.splits)
qed (simp split: list.splits)

text \<open>The wait the decision asks for reaches the death of the lease.\<close>

lemma decide_wait:
  assumes "rc_robot r \<noteq> []" "rc_covered r = []" "\<not> provably_off inp r"
    and "in_recorders inp = [r]" "Dead inp - in_now inp + second \<le> max_int64"
  shows "in_now inp + d_wait (Decide inp) = Dead inp + second"
proof -
  have "in_now inp < Dead inp" using assms(2,3) by (auto simp: provably_off_def)
  moreover have "time_sub (Dead inp) (in_now inp) = Dead inp - in_now inp"
    using assms(5) calculation by (intro time_sub_exact) (auto simp: second_def)
  moreover have "wrap64 (Dead inp - in_now inp + second) = Dead inp - in_now inp + second"
    using assms(5) calculation(1) by (intro wrap64_id) (auto simp: second_def)
  ultimately show ?thesis
    using assms(1-4)
    by (simp add: Decide_def decide_one_def no_decision_def provably_off_def KeepsRecord_def Let_def)
qed

lemma skew_sum: "0 \<le> s \<Longrightarrow> s \<le> MaxSkew \<Longrightarrow> wrap64 (MaxLease + s) = MaxLease + s"
  by (intro wrap64_id) (auto simp: MaxLease_def MaxSkew_def second_def max_int64_def)

lemma latest_upper: "Some t \<in> set ts \<Longrightarrow> t \<le> Latest ts"
proof -
  let ?f = "\<lambda>t out. case t of Some u \<Rightarrow> if out < u then u else out | None \<Rightarrow> (out::time)"
  have mono: "out \<le> fold ?f ts out" for ts out
  proof (induction ts arbitrary: out)
    case (Cons t ts)
    have "out \<le> ?f t out" by (simp split: option.splits)
    then show ?case using Cons [of "?f t out"] by simp
  qed simp
  have "Some t \<in> set ts \<Longrightarrow> t \<le> fold ?f ts out" for out
  proof (induction ts arbitrary: out)
    case (Cons a ts)
    show ?case
    proof (cases "a = Some t")
      case True
      then have "t \<le> ?f a out" by simp
      then show ?thesis using mono [of "?f a out" ts] by simp
    next
      case False
      then show ?thesis using Cons by simp
    qed
  qed simp
  then show "Some t \<in> set ts \<Longrightarrow> t \<le> Latest ts" by (simp add: Latest_def)
qed

text \<open>The reference of an action that keeps one is at or after every moment the object records.\<close>

lemma reference_latest:
  "a_phase a \<noteq> PhasePaused \<or> a_lease_expires a \<noteq> None \<Longrightarrow>
     t \<in> {a_created a} \<union> set_option (a_pending_since a) \<union> set_option (a_completion a) \<union> set_option (a_failed_at a) \<Longrightarrow>
     t \<le> ReferenceOf a"
  using latest_upper [of t "[Some (a_created a), a_pending_since a, a_completion a, a_failed_at a]"]
  by (auto simp: ReferenceOf_def)

subsection \<open>Properties of the executor guard\<close>

text \<open>
  Claim C7. The guard releases exactly the records of the robots that are provably off the action,
  lets the action be dispatched exactly when every robot that records it is, and otherwise names the
  first that is not: at no moment can the action be given to a second robot while the first may still
  run it.
\<close>

theorem executor_guard_sound:
  assumes "\<forall>r \<in> set (in_recorders inp). rc_robot r \<noteq> []"
  shows "d_release (Decide inp) = map rc_robot (filter (provably_off inp) (in_recorders inp))
    \<and> (Dispatchable (Decide inp) \<longleftrightarrow> (\<forall>r \<in> set (in_recorders inp). provably_off inp r))
    \<and> (\<not> Dispatchable (Decide inp) \<longrightarrow>
        (\<exists>us r vs. in_recorders inp = us @ r # vs \<and> (\<forall>u \<in> set us. provably_off inp u)
          \<and> \<not> provably_off inp r \<and> d_blocked (Decide inp) = rc_robot r))"
proof -
  let ?rs = "in_recorders inp" and ?bad = "filter (\<lambda>r. \<not> provably_off inp r) (in_recorders inp)"
  have f: "d_release (Decide inp) = map rc_robot (filter (provably_off inp) ?rs)"
    "d_blocked (Decide inp) = (case ?bad of [] \<Rightarrow> [] | r # _ \<Rightarrow> rc_robot r)"
    using decide_fold [OF assms, of inp no_decision] by (simp_all add: Decide_def no_decision_def)
  show ?thesis
  proof (cases ?bad)
    case Nil
    then have "\<forall>r \<in> set ?rs. provably_off inp r" by (simp add: filter_empty_conv)
    then show ?thesis using f Nil by (simp add: Dispatchable_def)
  next
    case (Cons r rest)
    then obtain us vs where s: "?rs = us @ r # vs" "\<forall>u \<in> set us. provably_off inp u" "\<not> provably_off inp r"
      by (auto simp: filter_eq_Cons_iff)
    moreover have "rc_robot r \<noteq> []" using assms s(1) by simp
    ultimately show ?thesis using f Cons by (auto simp: Dispatchable_def)
  qed
qed

theorem executor_guard_sound_witness:
  "d_release (Decide (sample_input [sample_recorder ''a'' True [], sample_recorder ''b'' False []])) = [''a'']"
  using executor_guard_sound [of "sample_input [sample_recorder ''a'' True [], sample_recorder ''b'' False []]"]
  by (simp add: sample_input_def sample_recorder_def provably_off_def Dead_def second_def)

text \<open>
  Where neither the lease horizon nor a reference is known, time proves nothing: a record is
  released only on the word of the robot's adapter, however long the guard has waited.
\<close>

theorem unknown_horizon_never_proof:
  assumes "in_horizon inp = None" "in_reference inp = zero_time" "0 \<le> in_skew inp" "in_skew inp \<le> MaxSkew"
    and "\<forall>r \<in> set (in_recorders inp). rc_robot r \<noteq> []" "rob \<in> set (d_release (Decide inp))"
  shows "\<exists>r \<in> set (in_recorders inp). rc_robot r = rob \<and> (rc_cancel_confirmed r \<or> rc_ended r)"
proof -
  have "in_now inp < Dead inp"
    using assms(1-4) by (simp add: Dead_def skew_sum) (simp add: MaxLease_def second_def)
  moreover have "rob \<in> rc_robot ` set (filter (provably_off inp) (in_recorders inp))"
    using assms(6) decide_fold [OF assms(5), of inp no_decision] by (simp add: Decide_def no_decision_def)
  ultimately show ?thesis by (auto simp: provably_off_def)
qed

theorem unknown_horizon_never_proof_witness:
  "\<exists>r \<in> set [sample_recorder ''a'' True []]. rc_robot r = ''a'' \<and> (rc_cancel_confirmed r \<or> rc_ended r)"
  using unknown_horizon_never_proof [of "(sample_input [sample_recorder ''a'' True []])\<lparr>in_horizon := None\<rparr>" "''a''"]
  by (simp add: sample_input_def sample_recorder_def MaxSkew_def second_def Decide_def decide_one_def KeepsRecord_def
      no_decision_def)

text \<open>
  Claim C26. A robot's deletion is refused while it would lose the guard's key, and the moment the
  refusal names is late enough: the same question asked then, or at any later time, is answered
  that the key is not lost.
\<close>

theorem delete_admitted_after_named_time:
  assumes "rob \<noteq> []" "DeleteLosesKey rob inp = (True, t)" "t \<noteq> zero_time" "t \<le> t'"
    and "Dead inp - in_now inp + second \<le> max_int64"
  shows "fst (DeleteLosesKey rob (inp\<lparr>in_now := t'\<rparr>)) = False"
proof -
  let ?r = "\<lparr>rc_robot = rob, rc_cancel_confirmed = False, rc_ended = False, rc_covered = []\<rparr>"
  let ?at = "\<lambda>u. inp\<lparr>in_now := u, in_recorders := [?r]\<rparr>"
  have known: "\<not> in_action_gone inp" "\<not> (in_horizon inp = None \<and> in_reference inp = zero_time)"
    "\<not> Dispatchable (Decide (inp\<lparr>in_recorders := [?r]\<rparr>))"
    "t = in_now inp + d_wait (Decide (inp\<lparr>in_recorders := [?r]\<rparr>))"
    using assms(2,3) by (auto simp: DeleteLosesKey_def Let_def split: if_splits)
  have dead: "Dead (?at u) = Dead inp" "Dead (inp\<lparr>in_recorders := [?r]\<rparr>) = Dead inp" for u
    using known(2) by (auto simp: Dead_def split: option.splits)
  have "\<not> provably_off (inp\<lparr>in_recorders := [?r]\<rparr>) ?r"
    using known(3) decide_fold [of "[?r]" "inp\<lparr>in_recorders := [?r]\<rparr>" no_decision] assms(1)
    by (simp add: Dispatchable_def Decide_def no_decision_def split: if_splits)
  then have "t = Dead inp + second"
    using known(4) decide_wait [of ?r "inp\<lparr>in_recorders := [?r]\<rparr>"] assms(1,5) by (simp add: dead)
  then have "provably_off (?at t') ?r"
    using assms(4) by (simp add: provably_off_def dead second_def)
  then have "Dispatchable (Decide (?at t'))"
    using decide_fold [of "[?r]" "?at t'" no_decision] assms(1)
    by (simp add: Dispatchable_def Decide_def no_decision_def)
  then show ?thesis
    using known(1) by (simp add: DeleteLosesKey_def)
qed

theorem delete_admitted_after_named_time_witness:
  "fst (DeleteLosesKey ''a'' ((sample_input [])\<lparr>in_now := 20 * second\<rparr>)) = False"
  by (rule delete_admitted_after_named_time [of _ _ "13 * second"])
    (simp_all add: sample_input_def DeleteLosesKey_def Decide_def decide_one_def no_decision_def KeepsRecord_def Dead_def
      Dispatchable_def second_def zero_time_def time_sub_def wrap64_def max_int64_def)

text \<open>
  The reason the decision gives is that of the last robot it released, also when an earlier one
  blocks: the message of a blocked action can then say that the adapter acknowledged the cancel.
\<close>

lemma blocked_decision_gives_release_reason:
  "let d = Decide (sample_input [sample_recorder ''a'' False [], sample_recorder ''b'' True []])
   in d_blocked d = ''a'' \<and> d_why d = CancelAcknowledged"
  by (simp add: sample_input_def sample_recorder_def Decide_def decide_one_def no_decision_def KeepsRecord_def Dead_def
      second_def)

end
