(* ===== verification/EstopScope.thy ===== *)
theory EstopScope
  imports Api
begin

text \<open>
  Which emergency stops hold a robot (\<^verbatim>\<open>internal/estopscope\<close>): the zone tree and the walks over it,
  the stop guard's answer for one robot and for an edit of the tree (\<^verbatim>\<open>coverage.go\<close>), the holders
  of a robot (\<^verbatim>\<open>estopscope.go\<close>), and the readers of pending stops (\<^verbatim>\<open>pending.go\<close>). A tree is the
  map from names to zones, as an association list; what a read of the API server answers is an
  argument.
\<close>

subsection \<open>Annotations and holders\<close>

definition ProcessedAnnotation :: string where
  "ProcessedAnnotation = ''swarmada.io/estop-processed''"

definition TriggerAnnotation :: string where
  "TriggerAnnotation = ''swarmada.io/estop-triggered''"

definition walkCap :: nat where
  "walkCap = 64"

definition MaxAncestors :: nat where
  "MaxAncestors = walkCap"

datatype scope_kind = KindRobot | KindZone | KindNamespace

record holder =
  ho_kind :: scope_kind
  ho_name :: string
  ho_value :: string
  ho_recorded :: bool
  ho_clearing :: bool
  ho_orphaned :: bool
  ho_pending :: bool

definition holder_of_scope :: "scope_kind \<Rightarrow> string \<Rightarrow> string \<Rightarrow> holder" where
  "holder_of_scope k n v = \<lparr>ho_kind = k, ho_name = n, ho_value = v, ho_recorded = False, ho_clearing = False,
     ho_orphaned = False, ho_pending = False\<rparr>"

text \<open>An annotation read without a presence check is the empty string when absent.\<close>

definition annotation :: "(string \<rightharpoonup> string) \<Rightarrow> string \<Rightarrow> string" where
  "annotation m k = (case m k of Some v \<Rightarrow> v | None \<Rightarrow> [])"

definition InForce :: "(string \<rightharpoonup> string) \<Rightarrow> bool" where
  "InForce m = (m TriggerAnnotation \<noteq> None \<or> m ProcessedAnnotation \<noteq> None)"

definition pendingOn :: "(string \<rightharpoonup> string) \<Rightarrow> bool" where
  "pendingOn m = (m TriggerAnnotation \<noteq> None \<and> m ProcessedAnnotation = None)"

definition Pending :: "fleet_zone \<Rightarrow> bool" where
  "Pending z = pendingOn (z_annotations z)"

definition Carries :: "fleet_zone \<Rightarrow> bool" where
  "Carries z = (z_annotations z TriggerAnnotation \<noteq> None \<or> z_annotations z ProcessedAnnotation \<noteq> None)"

definition propagatesDown :: "fleet_zone \<Rightarrow> bool" where
  "propagatesDown z = (case z_estop_policy z of None \<Rightarrow> True | Some p \<Rightarrow> PropagatesToChildren p)"

definition HoldKind :: "estop_hold_kind \<Rightarrow> scope_kind" where
  "HoldKind k = (if k = HoldSwarmadaConfig then KindNamespace else KindZone)"

definition add_holder :: "holder \<Rightarrow> holder list \<Rightarrow> holder list" where
  "add_holder h hs =
     (if list_ex (\<lambda>s. ho_kind s = ho_kind h \<and> ho_name s = ho_name h) hs then hs else hs @ [h])"

subsection \<open>The zone tree\<close>

type_synonym tree = "(string \<times> fleet_zone) list"

definition TreeOf :: "fleet_zone list \<Rightarrow> tree" where
  "TreeOf zones = fold (\<lambda>z t. put (z_name z) z t) zones []"

definition Zone :: "tree \<Rightarrow> string \<Rightarrow> fleet_zone option" where
  "Zone t name = map_of t name"

definition Names :: "tree \<Rightarrow> string list" where
  "Names t = sort (keys t)"

definition With :: "tree \<Rightarrow> fleet_zone \<Rightarrow> tree" where
  "With t z = put (z_name z) z t"

definition Without :: "tree \<Rightarrow> string \<Rightarrow> tree" where
  "Without t name = filter (\<lambda>(k, z). k \<noteq> name) t"

definition StopCarrier :: "tree \<Rightarrow> string" where
  "StopCarrier t = (case find (\<lambda>n. Carries (the (Zone t n))) (Names t) of Some n \<Rightarrow> n | None \<Rightarrow> [])"

datatype scope_error =
    TooDeep string nat
  | OutOfSteps
  | NoReader
  | ReadError
  | TooDeepToCheck string

text \<open>
  The walk of \<^verbatim>\<open>Ancestors\<close> from the name of the next parent, with the zones seen and the number of
  ancestors still admitted.
\<close>

fun ancestors_from :: "tree \<Rightarrow> string \<Rightarrow> nat \<Rightarrow> string list \<Rightarrow> string \<Rightarrow> scope_error + fleet_zone list" where
  "ancestors_from t zone 0 seen name = (if name = [] then Inr [] else Inl (TooDeep zone MaxAncestors))"
| "ancestors_from t zone (Suc n) seen name =
     (if name = [] then Inr []
      else if name \<in> set seen then Inl (TooDeep zone (MaxAncestors - Suc n))
      else case Zone t name of
          None \<Rightarrow> Inr []
        | Some p \<Rightarrow> (case ancestors_from t zone n (name # seen) (z_parent p) of
            Inl err \<Rightarrow> Inl err
          | Inr ps \<Rightarrow> Inr (p # ps)))"

definition Ancestors :: "tree \<Rightarrow> string \<Rightarrow> scope_error + fleet_zone list" where
  "Ancestors t zone = (case Zone t zone of
     None \<Rightarrow> Inr []
   | Some z \<Rightarrow> ancestors_from t zone MaxAncestors [zone] (z_parent z))"

definition Depth :: "tree \<Rightarrow> string \<Rightarrow> scope_error + nat" where
  "Depth t zone = (case Ancestors t zone of Inl err \<Rightarrow> Inl err | Inr as \<Rightarrow> Inr (length as))"

definition Reaching :: "tree \<Rightarrow> string \<Rightarrow> (fleet_zone \<Rightarrow> bool) \<Rightarrow> scope_error + string list" where
  "Reaching t zone stopped = (case Zone t zone of
     None \<Rightarrow> Inr []
   | Some z \<Rightarrow> (case Ancestors t zone of
       Inl err \<Rightarrow> Inl err
     | Inr as \<Rightarrow> Inr ((if stopped z then [z_name z] else [])
         @ map z_name (filter (\<lambda>a. stopped a \<and> propagatesDown a) as))))"

definition Covers :: "tree \<Rightarrow> string \<Rightarrow> string \<Rightarrow> bool \<Rightarrow> scope_error + bool" where
  "Covers t carrier zone toChildren =
     (if zone = [] then Inr False
      else if zone = carrier then Inr True
      else if \<not> toChildren then Inr False
      else case Ancestors t zone of
          Inl err \<Rightarrow> Inl err
        | Inr as \<Rightarrow> Inr (list_ex (\<lambda>a. z_name a = carrier) as))"

text \<open>Which of the zones are in scope, and the indexes of those that could not be decided.\<close>

definition FanOutScope :: "tree \<Rightarrow> string \<Rightarrow> string list \<Rightarrow> bool \<Rightarrow> bool list \<times> nat list" where
  "FanOutScope t carrier zones toChildren =
     (map (\<lambda>z. case Covers t carrier z toChildren of Inr b \<Rightarrow> b | Inl _ \<Rightarrow> True) zones,
      filter (\<lambda>i. case Covers t carrier (zones ! i) toChildren of Inl _ \<Rightarrow> True | Inr _ \<Rightarrow> False) [0..<length zones])"

subsection \<open>The subtree of a zone\<close>

definition children_of :: "tree \<Rightarrow> string \<Rightarrow> string list" where
  "children_of t p = filter (\<lambda>n. p \<noteq> [] \<and> z_parent (the (Zone t n)) = p) (Names t)"

text \<open>
  The breadth-first loop: what was expanded, what is still to expand, and the steps left. The
  children of a name are appended one at a time; one that was seen before ends the loop.
\<close>

fun add_children :: "string list \<Rightarrow> string list \<Rightarrow> scope_error + string list" where
  "add_children out [] = Inr out"
| "add_children out (c # cs) =
     (if c \<in> set out then Inl (TooDeep c MaxAncestors) else add_children (out @ [c]) cs)"

fun subtree_from :: "tree \<Rightarrow> string \<Rightarrow> nat \<Rightarrow> nat \<Rightarrow> string list \<Rightarrow> scope_error + string list" where
  "subtree_from t base 0 i out = Inl OutOfSteps"
| "subtree_from t base (Suc n) i out =
     (if \<not> i < length out then Inr out
      else case add_children out (children_of t (out ! i)) of
          Inl err \<Rightarrow> Inl err
        | Inr out' \<Rightarrow>
            if length t + 1 < length out' then Inl (TooDeep base MaxAncestors)
            else subtree_from t base n (i + 1) out')"

definition Subtree :: "tree \<Rightarrow> string \<Rightarrow> scope_error + string list" where
  "Subtree t base = subtree_from t base (length t + 2) 0 [base]"

fun deepest_from :: "tree \<Rightarrow> string list \<Rightarrow> int \<Rightarrow> string \<Rightarrow> scope_error + int \<times> string" where
  "deepest_from t [] deepest name = Inr (deepest, name)"
| "deepest_from t (z # zs) deepest name = (case Depth t z of
     Inl err \<Rightarrow> Inl err
   | Inr d \<Rightarrow> if deepest < int d then deepest_from t zs (int d) z else deepest_from t zs deepest name)"

definition DeepestBelow :: "tree \<Rightarrow> string \<Rightarrow> scope_error + int \<times> string" where
  "DeepestBelow t base = (case Subtree t base of
     Inl err \<Rightarrow> Inl err
   | Inr sub \<Rightarrow> deepest_from t sub (- 1) base)"

subsection \<open>The stop guard\<close>

definition CoveringAt :: "tree \<Rightarrow> swarmada_config list \<Rightarrow> string \<Rightarrow> scope_error + holder list" where
  "CoveringAt t configs zone =
     (let zoneStops = (if zone = [] then Inr [] else Reaching t zone Carries);
          zoneHolder = (\<lambda>n. let z = the (Zone t n) in
            (holder_of_scope KindZone n (annotation (z_annotations z) TriggerAnnotation))\<lparr>ho_pending := Pending z\<rparr>);
          configHolder = (\<lambda>c. (holder_of_scope KindNamespace (c_name c) (annotation (c_annotations c) TriggerAnnotation))
            \<lparr>ho_pending := pendingOn (c_annotations c)\<rparr>)
      in case zoneStops of
          Inl err \<Rightarrow> Inl err
        | Inr names \<Rightarrow> Inr (map zoneHolder names
            @ map configHolder (filter (\<lambda>c. InForce (c_annotations c)) configs)))"

type_synonym coverage = "holder list"

definition Covered :: "coverage \<Rightarrow> bool" where
  "Covered cov = (0 < length cov)"

definition Coverage_Pending :: "coverage \<Rightarrow> bool" where
  "Coverage_Pending cov = list_ex ho_pending cov"

definition kind_string :: "scope_kind \<Rightarrow> string" where
  "kind_string k = (case k of KindRobot \<Rightarrow> ''robot'' | KindZone \<Rightarrow> ''zone'' | KindNamespace \<Rightarrow> ''namespace'')"

definition Coverage_Names :: "coverage \<Rightarrow> string list" where
  "Coverage_Names cov = map (\<lambda>s. kind_string (ho_kind s) @ ''/'' @ ho_name s) cov"

definition Has :: "coverage \<Rightarrow> scope_kind \<Rightarrow> string \<Rightarrow> bool" where
  "Has cov k n = list_ex (\<lambda>s. ho_kind s = k \<and> ho_name s = n) cov"

definition Lost :: "coverage \<Rightarrow> coverage \<Rightarrow> holder list" where
  "Lost before after = filter (\<lambda>s. \<not> Has after (ho_kind s) (ho_name s)) before"

text \<open>The carrier of a recorded hold: its UID and annotations, if it exists.\<close>

definition find_last :: "('a \<Rightarrow> bool) \<Rightarrow> 'a list \<Rightarrow> 'a option" where
  "find_last P xs = find P (rev xs)"

definition carrier_of :: "tree \<Rightarrow> swarmada_config list \<Rightarrow> estop_hold \<Rightarrow> (string \<times> (string \<rightharpoonup> string)) option" where
  "carrier_of t configs e =
     (if eh_kind e = HoldSwarmadaConfig
      then map_option (\<lambda>c. (c_uid c, c_annotations c)) (find_last (\<lambda>c. c_name c = eh_name e) configs)
      else map_option (\<lambda>z. (z_uid z, z_annotations z)) (Zone t (eh_name e)))"

definition orphaned :: "estop_hold \<Rightarrow> (string \<times> (string \<rightharpoonup> string)) option \<Rightarrow> bool" where
  "orphaned e meta = (case meta of
     None \<Rightarrow> True
   | Some (uid, ann) \<Rightarrow> eh_uid e \<noteq> [] \<and> uid \<noteq> [] \<and> eh_uid e \<noteq> uid)"

definition recorded_hold :: "estop_hold \<Rightarrow> holder" where
  "recorded_hold e = (holder_of_scope (HoldKind (eh_kind e)) (eh_name e) [])\<lparr>ho_recorded := True\<rparr>"

definition record_coverage :: "tree \<Rightarrow> swarmada_config list \<Rightarrow> estop_hold \<Rightarrow> holder list \<Rightarrow> holder list" where
  "record_coverage t configs e cov =
     (let h = recorded_hold e; meta = carrier_of t configs e
      in if orphaned e meta then add_holder (h\<lparr>ho_orphaned := True\<rparr>) cov
         else if InForce (snd (the meta))
         then add_holder (h\<lparr>ho_value := annotation (snd (the meta)) TriggerAnnotation\<rparr>) cov
         else cov)"

definition own_trigger :: "robot \<Rightarrow> holder list" where
  "own_trigger r = (case r_annotations r TriggerAnnotation of
     Some v \<Rightarrow> [(holder_of_scope KindRobot (r_name r) v)\<lparr>ho_pending := pendingOn (r_annotations r)\<rparr>]
   | None \<Rightarrow> [])"

fun covering_zones :: "tree \<Rightarrow> string list \<Rightarrow> holder list \<Rightarrow> scope_error + holder list" where
  "covering_zones t [] cov = Inr cov"
| "covering_zones t (zone # zones) cov =
     (if zone = [] then covering_zones t zones cov
      else case CoveringAt t [] zone of
          Inl err \<Rightarrow> Inl err
        | Inr hs \<Rightarrow> covering_zones t zones (fold add_holder hs cov))"

definition CoverageOf :: "tree \<Rightarrow> swarmada_config list \<Rightarrow> robot \<Rightarrow> scope_error + coverage" where
  "CoverageOf t configs r =
     (case covering_zones t [r_current_zone r, r_spec_zone r] (fold add_holder (own_trigger r) []) of
        Inl err \<Rightarrow> Inl err
      | Inr cov \<Rightarrow>
          let ns = (case CoveringAt t configs [] of Inr hs \<Rightarrow> hs | Inl _ \<Rightarrow> [])
          in Inr (fold (record_coverage t configs) (r_held_by r) (fold add_holder ns cov)))"

definition FanOutCoverageOf :: "tree \<Rightarrow> swarmada_config list \<Rightarrow> robot \<Rightarrow> scope_error + coverage" where
  "FanOutCoverageOf t configs r =
     CoverageOf t configs (if r_current_zone r \<noteq> [] then r\<lparr>r_spec_zone := r_current_zone r\<rparr> else r)"

text \<open>\<^verbatim>\<open>EditLoss\<close>: the pending stops an edit loses, and those in force.\<close>

fun edit_losses :: "tree \<Rightarrow> tree \<Rightarrow> string list \<Rightarrow> string list \<times> string list \<Rightarrow> scope_error + string list \<times> string list" where
  "edit_losses before after [] loss = Inr loss"
| "edit_losses before after (d # ds) loss =
     (case CoveringAt before [] d of
        Inl err \<Rightarrow> Inl err
      | Inr was \<Rightarrow> (case CoveringAt after [] d of
          Inl err \<Rightarrow> Inl err
        | Inr now \<Rightarrow> edit_losses before after ds
            (fold (\<lambda>lost (pending, inForce).
               if ho_name lost \<in> set pending \<union> set inForce then (pending, inForce)
               else if ho_pending lost then (pending @ [ho_name lost], inForce)
               else (pending, inForce @ [ho_name lost])) (Lost was now) loss)))"

definition EditUncovers :: "tree \<Rightarrow> fleet_zone \<Rightarrow> scope_error + string list \<times> string list" where
  "EditUncovers before newZone = (case Subtree before (z_name newZone) of
     Inl err \<Rightarrow> Inl err
   | Inr sub \<Rightarrow> edit_losses before (With before newZone) sub ([], []))"

definition EditLoss_Any :: "string list \<times> string list \<Rightarrow> bool" where
  "EditLoss_Any loss = (0 < length (fst loss) + length (snd loss))"

definition MoveLoses :: "tree \<Rightarrow> swarmada_config list \<Rightarrow> robot \<Rightarrow> robot \<Rightarrow> scope_error + holder list" where
  "MoveLoses t configs before after =
     (case (CoverageOf t configs before, CoverageOf t configs after) of
        (Inl err, _) \<Rightarrow> Inl err
      | (_, Inl err) \<Rightarrow> Inl err
      | (Inr was, Inr now) \<Rightarrow>
          (case (FanOutCoverageOf t configs before, FanOutCoverageOf t configs after) of
             (Inl err, _) \<Rightarrow> Inl err
           | (_, Inl err) \<Rightarrow> Inl err
           | (Inr was', Inr now') \<Rightarrow> Inr (fold add_holder (Lost was' now') (fold add_holder (Lost was now) []))))"

text \<open>The zones and configs of a namespace as read from the API server; \<open>None\<close> is a failed list.\<close>

definition ReadWorld :: "bool \<Rightarrow> fleet_zone list option \<Rightarrow> swarmada_config list option
    \<Rightarrow> scope_error + tree \<times> swarmada_config list" where
  "ReadWorld reader zones configs =
     (if \<not> reader then Inl NoReader
      else case (zones, configs) of
          (Some zs, Some cs) \<Rightarrow> Inr (TreeOf zs, cs)
        | _ \<Rightarrow> Inl ReadError)"

definition Covering :: "bool \<Rightarrow> fleet_zone list option \<Rightarrow> swarmada_config list option \<Rightarrow> robot
    \<Rightarrow> scope_error + coverage" where
  "Covering reader zones configs r = (case ReadWorld reader zones configs of
     Inl err \<Rightarrow> Inl err
   | Inr (t, cs) \<Rightarrow> CoverageOf t cs r)"

definition PendingStopsOverTree :: "tree \<Rightarrow> string \<Rightarrow> scope_error + string list" where
  "PendingStopsOverTree t zone = Reaching t zone Pending"

subsection \<open>The holders of a robot\<close>

definition HeldOnRecord :: "robot \<Rightarrow> holder option" where
  "HeldOnRecord r = (case r_annotations r TriggerAnnotation of
     Some v \<Rightarrow> Some (holder_of_scope KindRobot (r_name r) v)
   | None \<Rightarrow> (case r_held_by r of e # _ \<Rightarrow> Some (recorded_hold e) | [] \<Rightarrow> None))"

text \<open>The recorded holds: those in force are added to the answer, the orphaned ones kept for the end.\<close>

fun recorded_holders :: "tree \<Rightarrow> swarmada_config list \<Rightarrow> estop_hold list \<Rightarrow> holder list \<Rightarrow> holder list
    \<Rightarrow> holder list \<times> holder list" where
  "recorded_holders t configs [] out orphans = (out, orphans)"
| "recorded_holders t configs (e # es) out orphans =
     (let h = recorded_hold e; meta = carrier_of t configs e
      in if orphaned e meta then recorded_holders t configs es out (orphans @ [h\<lparr>ho_orphaned := True\<rparr>])
         else if InForce (snd (the meta))
         then recorded_holders t configs es
                (add_holder (h\<lparr>ho_value := annotation (snd (the meta)) TriggerAnnotation,
                               ho_clearing := (snd (the meta) TriggerAnnotation = None)\<rparr>) out) orphans
         else recorded_holders t configs es out orphans)"

text \<open>The walk up the tree, which ends without an error past \<^verbatim>\<open>walkCap\<close> ancestors.\<close>

fun zone_holders :: "tree \<Rightarrow> nat \<Rightarrow> bool \<Rightarrow> string \<Rightarrow> holder list \<Rightarrow> holder list" where
  "zone_holders t 0 first name out = out"
| "zone_holders t (Suc n) first name out =
     (if name = [] then out
      else case Zone t name of
          None \<Rightarrow> out
        | Some z \<Rightarrow> zone_holders t n False (z_parent z)
            (case z_annotations z TriggerAnnotation of
               Some v \<Rightarrow> if first \<or> propagatesDown z then add_holder (holder_of_scope KindZone (z_name z) v) out else out
             | None \<Rightarrow> out))"

definition Holders :: "robot \<Rightarrow> fleet_zone list \<Rightarrow> swarmada_config list \<Rightarrow> holder list" where
  "Holders r zones configs =
     (let t = TreeOf zones;
          own = (case r_annotations r TriggerAnnotation of
                   Some v \<Rightarrow> [holder_of_scope KindRobot (r_name r) v] | None \<Rightarrow> []);
          (recorded, orphans) = recorded_holders t configs (r_held_by r) own [];
          start = (if r_current_zone r = [] then r_spec_zone r else r_current_zone r);
          zoned = zone_holders t (walkCap + 1) True start recorded;
          named = fold (\<lambda>c out. case c_annotations c TriggerAnnotation of
                     Some v \<Rightarrow> add_holder (holder_of_scope KindNamespace (c_name c) v) out
                   | None \<Rightarrow> out) configs zoned
      in fold add_holder orphans named)"

definition StandingStop :: "robot \<Rightarrow> fleet_zone list \<Rightarrow> swarmada_config list \<Rightarrow> holder option" where
  "StandingStop r zones configs = (case Holders r zones configs of h # _ \<Rightarrow> Some h | [] \<Rightarrow> None)"

subsection \<open>Pending stops, read zone by zone\<close>

text \<open>
  \<open>get\<close> is what the API server answers for a zone: \<open>Inr None\<close> where there is none, \<open>Inl\<close> for an
  error. The counter is the number of zones still admitted.
\<close>

fun stops_from :: "(string \<Rightarrow> unit + fleet_zone option) \<Rightarrow> string \<Rightarrow> bool \<Rightarrow> (fleet_zone \<Rightarrow> bool) \<Rightarrow> nat \<Rightarrow> string
    \<Rightarrow> scope_error + string list" where
  "stops_from get start self stopped 0 name = (if name = [] then Inr [] else Inl (TooDeepToCheck start))"
| "stops_from get start self stopped (Suc n) name =
     (if name = [] then Inr []
      else case get name of
          Inl _ \<Rightarrow> Inl ReadError
        | Inr None \<Rightarrow> Inr []
        | Inr (Some z) \<Rightarrow> (case stops_from get start False stopped n (z_parent z) of
            Inl err \<Rightarrow> Inl err
          | Inr names \<Rightarrow>
              Inr ((if stopped z \<and> (self \<or> propagatesDown z) then [z_name z] else []) @ names)))"

definition StopsOver :: "bool \<Rightarrow> (string \<Rightarrow> unit + fleet_zone option) \<Rightarrow> string \<Rightarrow> bool \<Rightarrow> (fleet_zone \<Rightarrow> bool)
    \<Rightarrow> scope_error + string list" where
  "StopsOver reader get start self stopped =
     (if \<not> reader then Inl NoReader else stops_from get start self stopped (walkCap + 1) start)"

definition PendingStopsOver :: "bool \<Rightarrow> (string \<Rightarrow> unit + fleet_zone option) \<Rightarrow> string \<Rightarrow> bool
    \<Rightarrow> scope_error + string list" where
  "PendingStopsOver reader get start self = StopsOver reader get start self Pending"

definition Missing :: "string list \<Rightarrow> string list \<Rightarrow> string list" where
  "Missing before after = filter (\<lambda>n. n \<notin> set after) before"

definition PendingStopsLeft :: "bool \<Rightarrow> (string \<Rightarrow> unit + fleet_zone option) \<Rightarrow> string \<Rightarrow> string
    \<Rightarrow> scope_error + string list" where
  "PendingStopsLeft reader get from to =
     (if from = [] \<or> from = to then Inr []
      else case PendingStopsOver reader get from True of
          Inl err \<Rightarrow> Inl err
        | Inr before \<Rightarrow>
            if before = [] then Inr []
            else case PendingStopsOver reader get to True of
                Inl err \<Rightarrow> Inl err
              | Inr after \<Rightarrow> Inr (Missing before after))"

definition PendingNamespaceStops :: "bool \<Rightarrow> swarmada_config list option \<Rightarrow> scope_error + string list" where
  "PendingNamespaceStops reader listed =
     (if \<not> reader then Inl NoReader
      else case listed of
          None \<Rightarrow> Inl ReadError
        | Some cs \<Rightarrow> Inr (map c_name (filter (\<lambda>c. pendingOn (c_annotations c)) cs)))"

subsection \<open>Vocabulary of the specification\<close>

text \<open>A tree as the code builds it: one zone per name, under its own name, which is not empty.\<close>

definition tree_wf :: "tree \<Rightarrow> bool" where
  "tree_wf t \<longleftrightarrow> distinct (keys t) \<and> (\<forall>(n, z) \<in> set t. z_name z = n \<and> n \<noteq> [])"

text \<open>The chain of zones from a name upwards; a name the tree does not hold ends it.\<close>

inductive parent_chain :: "tree \<Rightarrow> string \<Rightarrow> fleet_zone list \<Rightarrow> bool" for t where
  chain_end: "Zone t n = None \<Longrightarrow> parent_chain t n []"
| chain_up: "Zone t n = Some z \<Longrightarrow> parent_chain t (z_parent z) zs \<Longrightarrow> parent_chain t n (z # zs)"

text \<open>The zones whose stop reaches a robot standing in \<open>n\<close>.\<close>

definition reaches :: "tree \<Rightarrow> (fleet_zone \<Rightarrow> bool) \<Rightarrow> string \<Rightarrow> string \<Rightarrow> bool" where
  "reaches t stopped carrier n \<longleftrightarrow> (\<exists>zs. parent_chain t n zs \<and> zs \<noteq> []
     \<and> (stopped (hd zs) \<and> z_name (hd zs) = carrier
        \<or> (\<exists>a \<in> set (tl zs). stopped a \<and> propagatesDown a \<and> z_name a = carrier)))"

definition stops :: "coverage \<Rightarrow> (scope_kind \<times> string) set" where
  "stops cov = (\<lambda>h. (ho_kind h, ho_name h)) ` set cov"

text \<open>Where a chain ends, and the chains the walks admit: at most \<open>n\<close> zones, and no name left to look up after the last.\<close>

definition chain_stop :: "string \<Rightarrow> fleet_zone list \<Rightarrow> string" where
  "chain_stop name zs = (if zs = [] then name else z_parent (last zs))"

definition chain_fits :: "nat \<Rightarrow> string \<Rightarrow> fleet_zone list \<Rightarrow> bool" where
  "chain_fits n name zs \<longleftrightarrow> length zs \<le> n \<and> (length zs = n \<longrightarrow> chain_stop name zs = [])"

definition reaching_names :: "bool \<Rightarrow> (fleet_zone \<Rightarrow> bool) \<Rightarrow> fleet_zone list \<Rightarrow> string list" where
  "reaching_names self stopped zs = (case zs of
     [] \<Rightarrow> []
   | z # as \<Rightarrow> (if stopped z \<and> (self \<or> propagatesDown z) then [z_name z] else [])
       @ map z_name (filter (\<lambda>a. stopped a \<and> propagatesDown a) as))"

text \<open>The holds on record that count: orphaned, or with a carrier still in force.\<close>

definition hold_counts :: "tree \<Rightarrow> swarmada_config list \<Rightarrow> estop_hold \<Rightarrow> bool" where
  "hold_counts t configs e \<longleftrightarrow> (let meta = carrier_of t configs e in orphaned e meta \<or> InForce (snd (the meta)))"

definition hold_stop :: "estop_hold \<Rightarrow> scope_kind \<times> string" where
  "hold_stop e = (HoldKind (eh_kind e), eh_name e)"

definition zone_stops :: "tree \<Rightarrow> string \<Rightarrow> (scope_kind \<times> string) set" where
  "zone_stops t n = {(KindZone, c) | c. reaches t Carries c n}"

definition own_stops :: "robot \<Rightarrow> (scope_kind \<times> string) set" where
  "own_stops r = (if r_annotations r TriggerAnnotation = None then {} else {(KindRobot, r_name r)})"

definition namespace_stops :: "swarmada_config list \<Rightarrow> (scope_kind \<times> string) set" where
  "namespace_stops configs = {(KindNamespace, c_name c) | c. c \<in> set configs \<and> InForce (c_annotations c)}"

definition sample_site :: "fleet_zone list" where
  "sample_site = (let z = (\<lambda>n p ann. \<lparr>z_namespace = ''n'', z_name = n, z_uid = n, z_annotations = ann, z_finalizers = [], z_parent = p,
       z_members = [], z_max_robots = 0, z_shared = [], z_estop_policy = None, z_reservations = [], z_queues = [],
       z_current_robots = 0\<rparr>)
     in [z ''hall'' [] [TriggerAnnotation \<mapsto> ''fire''], z ''aisle'' ''hall'' Map.empty])"

subsection \<open>Lemmas\<close>

inductive_simps parent_chain_Nil: "parent_chain t n []"
inductive_simps parent_chain_Cons: "parent_chain t n (z # zs)"

lemma parent_chain_unique: "parent_chain t n zs \<Longrightarrow> parent_chain t n zs' \<Longrightarrow> zs' = zs"
proof (induction zs arbitrary: n zs')
  case Nil
  show ?case
  proof (cases zs')
    case (Cons z ys)
    then show ?thesis using Nil by (simp add: parent_chain_Nil parent_chain_Cons)
  qed simp
next
  case (Cons z zs)
  show ?case
  proof (cases zs')
    case Nil
    then show ?thesis using Cons.prems by (simp add: parent_chain_Nil parent_chain_Cons)
  next
    case (Cons z' ys)
    then show ?thesis using Cons.prems Cons.IH [of "z_parent z" ys] by (simp add: parent_chain_Cons)
  qed
qed

lemma tree_wf_With [intro]: "tree_wf t \<Longrightarrow> z_name z \<noteq> [] \<Longrightarrow> tree_wf (With t z)"
  by (auto simp: tree_wf_def With_def dest!: put_entry)

lemma tree_wf_Without [intro]: "tree_wf t \<Longrightarrow> tree_wf (Without t n)"
  by (auto simp: tree_wf_def Without_def keys_def distinct_map_filter)

lemma tree_wf_Nil: "tree_wf []"
  by (simp add: tree_wf_def keys_def)

lemma tree_wf_TreeOf: "(\<And>z. z \<in> set zs \<Longrightarrow> z_name z \<noteq> []) \<Longrightarrow> tree_wf (TreeOf zs)"
proof -
  have "(\<And>z. z \<in> set zs \<Longrightarrow> z_name z \<noteq> []) \<Longrightarrow> tree_wf t \<Longrightarrow> tree_wf (fold (\<lambda>z t. put (z_name z) z t) zs t)" for t
  proof (induction zs arbitrary: t)
    case (Cons z zs)
    have "tree_wf (put (z_name z) z t)" using Cons.prems tree_wf_With [of t z] by (simp add: With_def)
    then show ?case using Cons by simp
  qed simp
  then show "(\<And>z. z \<in> set zs \<Longrightarrow> z_name z \<noteq> []) \<Longrightarrow> tree_wf (TreeOf zs)"
    by (simp add: TreeOf_def tree_wf_Nil)
qed

lemma Zone_name: "tree_wf t \<Longrightarrow> Zone t n = Some z \<Longrightarrow> z_name z = n \<and> n \<noteq> []"
  unfolding tree_wf_def Zone_def using map_of_in_set [of t n z] by blast

lemma Zone_empty [simp]: "tree_wf t \<Longrightarrow> Zone t [] = None"
  using Zone_name [of t "[]"] by (cases "Zone t []") auto

lemma Zone_With [simp]: "Zone (With t z) n = (if n = z_name z then Some z else Zone t n)"
  by (simp add: Zone_def With_def)

lemma chain_fits_Cons [simp]: "chain_fits (Suc n) name (z # zs) \<longleftrightarrow> chain_fits n (z_parent z) zs"
  by (auto simp: chain_fits_def chain_stop_def)

lemma chain_fits_0 [simp]: "chain_fits 0 name zs \<longleftrightarrow> zs = [] \<and> name = []"
  by (auto simp: chain_fits_def chain_stop_def)

lemma chain_fits_Nil [simp]: "chain_fits (Suc n) name []"
  by (simp add: chain_fits_def)

lemma parent_chain_empty: "tree_wf t \<Longrightarrow> parent_chain t [] zs \<longleftrightarrow> zs = []"
  by (cases zs) (simp_all add: parent_chain_Nil parent_chain_Cons)

lemma parent_chain_suffix: "tree_wf t \<Longrightarrow> parent_chain t n (us @ w # vs) \<Longrightarrow> parent_chain t (z_name w) (w # vs)"
proof (induction us arbitrary: n)
  case Nil
  then show ?case using Zone_name [of t n w] by (simp add: parent_chain_Cons)
next
  case (Cons u us)
  then show ?case using Cons.IH [of "z_parent u"] by (simp add: parent_chain_Cons)
qed

lemma parent_chain_names_distinct: "tree_wf t \<Longrightarrow> parent_chain t n zs \<Longrightarrow> distinct (map z_name zs)"
proof (induction zs arbitrary: n)
  case (Cons z zs)
  have "z_name z \<notin> set (map z_name zs)"
  proof
    assume "z_name z \<in> set (map z_name zs)"
    then obtain w where "w \<in> set zs" "z_name w = z_name z" by auto
    moreover then obtain us vs where s: "zs = us @ w # vs" by (meson split_list)
    ultimately have "parent_chain t (z_name z) (w # vs)"
      using parent_chain_suffix [of t n "z # us" w vs] Cons.prems by simp
    moreover have "parent_chain t (z_name z) (z # zs)"
      using parent_chain_suffix [of t n "[]" z zs] Cons.prems by simp
    ultimately have "z # zs = w # vs" by (rule parent_chain_unique)
    then show False using s by simp
  qed
  then show ?case using Cons by (auto simp: parent_chain_Cons)
qed simp

lemma parent_chain_tail_fresh:
  assumes "tree_wf t" "Zone t name = Some p" "parent_chain t (z_parent p) ps"
  shows "name \<notin> z_name ` set ps"
proof -
  have "distinct (map z_name (p # ps))"
    using parent_chain_names_distinct [of t name "p # ps"] assms by (simp add: parent_chain_Cons)
  then show ?thesis using Zone_name [OF assms(1,2)] by simp
qed

lemma ancestors_from_iff:
  assumes "tree_wf t" "\<forall>s \<in> set seen. Zone t s \<noteq> None"
  shows "ancestors_from t zone n seen name = Inr as \<longleftrightarrow>
    parent_chain t name as \<and> chain_fits n name as \<and> z_name ` set as \<inter> set seen = {}"
  using assms(2)
proof (induction n arbitrary: seen name as)
  case 0
  then show ?case using assms(1) by (auto simp: parent_chain_empty)
next
  case (Suc n)
  show ?case
  proof (cases "name = []")
    case True
    then show ?thesis using assms(1) by (auto simp: parent_chain_empty)
  next
    case nonempty: False
    show ?thesis
    proof (cases "Zone t name")
      case None
      then have "name \<notin> set seen" using Suc.prems by auto
      then show ?thesis
        using None nonempty by (cases as) (auto simp: parent_chain_Nil parent_chain_Cons)
    next
      case (Some p)
      have name: "z_name p = name" using Zone_name [OF assms(1) Some] by simp
      have IH: "ancestors_from t zone n (name # seen) (z_parent p) = Inr ps \<longleftrightarrow>
          parent_chain t (z_parent p) ps \<and> chain_fits n (z_parent p) ps \<and> z_name ` set ps \<inter> set (name # seen) = {}" for ps
        using Suc.prems Some by (intro Suc.IH) auto
      have rhs: "parent_chain t name as \<and> chain_fits (Suc n) name as \<longleftrightarrow>
          (\<exists>ps. as = p # ps \<and> parent_chain t (z_parent p) ps \<and> chain_fits n (z_parent p) ps)"
        using Some by (cases as) (auto simp: parent_chain_Nil parent_chain_Cons)
      show ?thesis
      proof (cases "name \<in> set seen")
        case True
        then have "\<not> (parent_chain t name as \<and> chain_fits (Suc n) name as \<and> z_name ` set as \<inter> set seen = {})"
          using rhs name by auto
        then show ?thesis using True nonempty by simp
      next
        case False
        have eq: "z_name ` set ps \<inter> set (name # seen) = {} \<longleftrightarrow> z_name ` set (p # ps) \<inter> set seen = {}"
          if "parent_chain t (z_parent p) ps" for ps
          using that False name parent_chain_tail_fresh [OF assms(1) Some] by simp
        have "ancestors_from t zone (Suc n) seen name = Inr as \<longleftrightarrow>
            (\<exists>ps. as = p # ps \<and> ancestors_from t zone n (name # seen) (z_parent p) = Inr ps)"
          using nonempty Some False by (auto split: sum.splits)
        also have "\<dots> \<longleftrightarrow> (\<exists>ps. as = p # ps \<and> parent_chain t (z_parent p) ps \<and> chain_fits n (z_parent p) ps
            \<and> z_name ` set ps \<inter> set (name # seen) = {})"
          by (simp only: IH)
        also have "\<dots> \<longleftrightarrow> (parent_chain t name as \<and> chain_fits (Suc n) name as) \<and> z_name ` set as \<inter> set seen = {}"
          unfolding rhs using eq by blast
        finally show ?thesis by (simp only: conj_assoc)
      qed
    qed
  qed
qed

lemma Ancestors_iff:
  assumes "tree_wf t"
  shows "Ancestors t zone = Inr as \<longleftrightarrow>
    (\<exists>zs. parent_chain t zone zs \<and> chain_fits (Suc MaxAncestors) zone zs \<and> as = tl zs)"
proof (cases "Zone t zone")
  case None
  then have "parent_chain t zone zs \<longleftrightarrow> zs = []" for zs
    by (cases zs) (simp_all add: parent_chain_Nil parent_chain_Cons)
  then show ?thesis using None by (auto simp: Ancestors_def)
next
  case (Some z)
  have chain: "parent_chain t zone zs \<and> chain_fits (Suc MaxAncestors) zone zs \<longleftrightarrow>
      (\<exists>as. zs = z # as \<and> parent_chain t (z_parent z) as \<and> chain_fits MaxAncestors (z_parent z) as)" for zs
    using Some by (cases zs) (auto simp: parent_chain_Nil parent_chain_Cons)
  have "Ancestors t zone = Inr as \<longleftrightarrow> parent_chain t (z_parent z) as \<and> chain_fits MaxAncestors (z_parent z) as"
    using Some ancestors_from_iff [OF assms, of "[zone]" zone MaxAncestors "z_parent z" as]
      parent_chain_tail_fresh [OF assms Some, of as] by (auto simp: Ancestors_def)
  also have "\<dots> \<longleftrightarrow> (\<exists>zs. (parent_chain t zone zs \<and> chain_fits (Suc MaxAncestors) zone zs) \<and> as = tl zs)"
    unfolding chain by auto
  finally show ?thesis by (simp only: conj_assoc)
qed

lemma Reaching_iff:
  assumes "tree_wf t"
  shows "Reaching t zone stopped = Inr names \<longleftrightarrow>
    (\<exists>zs. parent_chain t zone zs \<and> chain_fits (Suc MaxAncestors) zone zs \<and> names = reaching_names True stopped zs)"
proof (cases "Zone t zone")
  case None
  then have "parent_chain t zone zs \<longleftrightarrow> zs = []" for zs
    by (cases zs) (simp_all add: parent_chain_Nil parent_chain_Cons)
  then show ?thesis using None by (auto simp: Reaching_def reaching_names_def)
next
  case (Some z)
  have hd: "\<exists>as. zs = z # as" if "parent_chain t zone zs" for zs
    using that Some by (cases zs) (auto simp: parent_chain_Nil parent_chain_Cons)
  show ?thesis
  proof
    assume "Reaching t zone stopped = Inr names"
    then obtain as where as: "Ancestors t zone = Inr as" and
      names: "names = (if stopped z then [z_name z] else []) @ map z_name (filter (\<lambda>a. stopped a \<and> propagatesDown a) as)"
      using Some by (auto simp: Reaching_def split: sum.splits)
    obtain zs where zs: "parent_chain t zone zs" "chain_fits (Suc MaxAncestors) zone zs" "as = tl zs"
      using as Ancestors_iff [OF assms, of zone as] by blast
    have "zs = z # as" using hd [OF zs(1)] zs(3) by (metis list.sel(3))
    then have "names = reaching_names True stopped zs" using names by (simp add: reaching_names_def)
    with zs(1,2) show "\<exists>zs. parent_chain t zone zs \<and> chain_fits (Suc MaxAncestors) zone zs
        \<and> names = reaching_names True stopped zs" by blast
  next
    assume "\<exists>zs. parent_chain t zone zs \<and> chain_fits (Suc MaxAncestors) zone zs \<and> names = reaching_names True stopped zs"
    then obtain as where "parent_chain t zone (z # as)" "chain_fits (Suc MaxAncestors) zone (z # as)"
      "names = reaching_names True stopped (z # as)" using hd by blast
    moreover from this(1,2) have "Ancestors t zone = Inr as"
      using Ancestors_iff [OF assms, of zone as] by (metis list.sel(3))
    ultimately show "Reaching t zone stopped = Inr names"
      using Some by (simp add: Reaching_def reaching_names_def)
  qed
qed

lemma stops_from_iff:
  assumes "tree_wf t"
  shows "stops_from (\<lambda>n. Inr (Zone t n)) start self stopped n name = Inr names \<longleftrightarrow>
    (\<exists>zs. parent_chain t name zs \<and> chain_fits n name zs \<and> names = reaching_names self stopped zs)"
proof (induction n arbitrary: self name names)
  case 0
  then show ?case using assms by (auto simp: parent_chain_empty reaching_names_def)
next
  case (Suc n)
  show ?case
  proof (cases "name = [] \<or> Zone t name = None")
    case True
    then have "Zone t name = None" using assms by auto
    then have "parent_chain t name zs \<longleftrightarrow> zs = []" for zs
      by (cases zs) (simp_all add: parent_chain_Nil parent_chain_Cons)
    moreover have "stops_from (\<lambda>n. Inr (Zone t n)) start self stopped (Suc n) name = Inr []"
      using \<open>Zone t name = None\<close> by simp
    ultimately show ?thesis by (auto simp: reaching_names_def simp del: stops_from.simps)
  next
    case False
    then obtain z where z: "name \<noteq> []" "Zone t name = Some z" by auto
    have split: "parent_chain t name zs \<and> chain_fits (Suc n) name zs \<longleftrightarrow>
        (\<exists>as. zs = z # as \<and> parent_chain t (z_parent z) as \<and> chain_fits n (z_parent z) as)" for zs
      using z by (cases zs) (auto simp: parent_chain_Nil parent_chain_Cons)
    have tail: "reaching_names False stopped as = map z_name (filter (\<lambda>a. stopped a \<and> propagatesDown a) as)" for as
      by (cases as) (auto simp: reaching_names_def)
    have rn: "reaching_names self stopped (z # as) =
        (if stopped z \<and> (self \<or> propagatesDown z) then [z_name z] else []) @ reaching_names False stopped as" for as
      unfolding tail by (simp add: reaching_names_def)
    have "stops_from (\<lambda>n. Inr (Zone t n)) start self stopped (Suc n) name = Inr names \<longleftrightarrow>
        (\<exists>rest. stops_from (\<lambda>n. Inr (Zone t n)) start False stopped n (z_parent z) = Inr rest
          \<and> names = (if stopped z \<and> (self \<or> propagatesDown z) then [z_name z] else []) @ rest)"
      using z by (auto split: sum.splits)
    also have "\<dots> \<longleftrightarrow> (\<exists>as. parent_chain t (z_parent z) as \<and> chain_fits n (z_parent z) as
        \<and> names = reaching_names self stopped (z # as))"
      unfolding Suc.IH rn by blast
    also have "\<dots> \<longleftrightarrow> (\<exists>zs. (parent_chain t name zs \<and> chain_fits (Suc n) name zs) \<and> names = reaching_names self stopped zs)"
      unfolding split by blast
    finally show ?thesis by (simp only: conj_assoc)
  qed
qed

lemma reaches_iff: "parent_chain t n zs \<Longrightarrow> reaches t stopped c n \<longleftrightarrow> c \<in> set (reaching_names True stopped zs)"
proof -
  assume c: "parent_chain t n zs"
  then have "reaches t stopped c n \<longleftrightarrow> zs \<noteq> [] \<and> (stopped (hd zs) \<and> z_name (hd zs) = c
      \<or> (\<exists>a \<in> set (tl zs). stopped a \<and> propagatesDown a \<and> z_name a = c))"
    unfolding reaches_def using parent_chain_unique [OF c] by blast
  then show ?thesis by (cases zs) (auto simp: reaching_names_def)
qed

lemma chain_fits_short: "length zs < n \<Longrightarrow> chain_fits n name zs"
  by (simp add: chain_fits_def)

lemma Has_stops: "Has cov k n \<longleftrightarrow> (k, n) \<in> stops cov"
  by (auto simp: Has_def stops_def list_ex_iff)

lemma stops_simps [simp]:
  "stops [] = {}" "stops (h # hs) = insert (ho_kind h, ho_name h) (stops hs)" "stops (xs @ ys) = stops xs \<union> stops ys"
  by (auto simp: stops_def)

lemma stops_add [simp]: "stops (add_holder h cov) = insert (ho_kind h, ho_name h) (stops cov)"
  using Has_stops [of cov "ho_kind h" "ho_name h"] by (auto simp: add_holder_def Has_def)

lemma stops_fold_add [simp]: "stops (fold add_holder hs cov) = stops hs \<union> stops cov"
  by (induction hs arbitrary: cov) auto

lemma Lost_Nil: "Lost before after = [] \<longleftrightarrow> stops before \<subseteq> stops after"
  by (auto simp: Lost_def filter_empty_conv Has_stops) (auto simp: stops_def)

lemma stops_record:
  "stops (fold (record_coverage t configs) es cov) = hold_stop ` {e \<in> set es. hold_counts t configs e} \<union> stops cov"
proof (induction es arbitrary: cov)
  case (Cons e es)
  have "stops (record_coverage t configs e cov) = (if hold_counts t configs e then {hold_stop e} else {}) \<union> stops cov"
    by (auto simp: record_coverage_def hold_counts_def hold_stop_def recorded_hold_def holder_of_scope_def Let_def)
  then show ?case using Cons by auto
qed simp

lemma stops_CoveringAt_zone:
  assumes "tree_wf t" "CoveringAt t [] n = Inr hs" "n \<noteq> []"
  shows "stops hs = zone_stops t n"
proof -
  obtain names where names: "Reaching t n Carries = Inr names"
    "stops hs = (\<lambda>c. (KindZone, c)) ` set names"
    using assms(2,3) by (auto simp: CoveringAt_def Let_def stops_def holder_of_scope_def image_image split: sum.splits)
  obtain zs where "parent_chain t n zs" "names = reaching_names True Carries zs"
    using names(1) Reaching_iff [OF assms(1)] by blast
  then show ?thesis
    using names(2) reaches_iff [of t n zs Carries] by (auto simp: zone_stops_def)
qed

lemma zone_stops_empty [simp]: "tree_wf t \<Longrightarrow> zone_stops t [] = {}"
  using reaches_iff [of t "[]" "[]" Carries] by (simp add: zone_stops_def parent_chain_Nil reaching_names_def)

lemma stops_covering_zones:
  assumes "tree_wf t"
  shows "covering_zones t zones cov = Inr cov' \<Longrightarrow> stops cov' = (\<Union>z \<in> set zones. zone_stops t z) \<union> stops cov"
proof (induction zones arbitrary: cov)
  case (Cons z zones)
  show ?case
  proof (cases "z = []")
    case True
    then show ?thesis using Cons assms by simp
  next
    case False
    then obtain hs where "CoveringAt t [] z = Inr hs" "covering_zones t zones (fold add_holder hs cov) = Inr cov'"
      using Cons.prems by (auto split: sum.splits)
    then show ?thesis using Cons.IH stops_CoveringAt_zone [OF assms _ False] by auto
  qed
qed simp

lemma stops_namespace: "\<exists>hs. CoveringAt t configs [] = Inr hs \<and> stops hs = namespace_stops configs"
  by (auto simp: CoveringAt_def Let_def stops_def namespace_stops_def holder_of_scope_def image_image)

lemma stops_own: "stops (own_trigger r) = own_stops r"
  by (auto simp: own_trigger_def own_stops_def holder_of_scope_def split: option.splits)

lemma CoverageOf_stops:
  assumes "tree_wf t" "CoverageOf t configs r = Inr cov"
  shows "stops cov = own_stops r \<union> zone_stops t (r_current_zone r) \<union> zone_stops t (r_spec_zone r)
    \<union> namespace_stops configs \<union> hold_stop ` {e \<in> set (r_held_by r). hold_counts t configs e}"
proof -
  obtain cov' where c: "covering_zones t [r_current_zone r, r_spec_zone r] (fold add_holder (own_trigger r) []) = Inr cov'"
    using assms(2) by (auto simp: CoverageOf_def split: sum.splits)
  obtain hs where hs: "CoveringAt t configs [] = Inr hs" "stops hs = namespace_stops configs"
    using stops_namespace by blast
  have "cov = fold (record_coverage t configs) (r_held_by r) (fold add_holder hs cov')"
    using assms(2) c hs by (simp add: CoverageOf_def del: covering_zones.simps)
  then show ?thesis
    using stops_covering_zones [OF assms(1) c] hs by (auto simp: stops_record stops_own)
qed

lemma covering_zones_Inr:
  "(\<exists>cov'. covering_zones t zones cov = Inr cov') \<longleftrightarrow> (\<forall>z \<in> set zones. z \<noteq> [] \<longrightarrow> (\<exists>hs. CoveringAt t [] z = Inr hs))"
proof (induction zones arbitrary: cov)
  case (Cons z zones)
  then show ?case by (cases "z = []"; cases "CoveringAt t [] z") auto
qed simp

lemma CoverageOf_Inr:
  "(\<exists>cov. CoverageOf t configs r = Inr cov) \<longleftrightarrow>
     (\<forall>z \<in> {r_current_zone r, r_spec_zone r}. z \<noteq> [] \<longrightarrow> (\<exists>hs. CoveringAt t [] z = Inr hs))"
proof -
  have "(\<exists>cov. CoverageOf t configs r = Inr cov) \<longleftrightarrow>
      (\<exists>cov'. covering_zones t [r_current_zone r, r_spec_zone r] (fold add_holder (own_trigger r) []) = Inr cov')"
    by (auto simp: CoverageOf_def Let_def simp del: covering_zones.simps split: sum.splits)
  then show ?thesis unfolding covering_zones_Inr by simp
qed

lemma add_children_Inr: "add_children out cs = Inr out' \<Longrightarrow> out' = out @ cs"
  by (induction out cs rule: add_children.induct) (auto split: if_splits)

lemma add_children_Inl: "add_children out cs = Inl err \<Longrightarrow> err \<noteq> OutOfSteps"
  by (induction out cs rule: add_children.induct) (auto split: if_splits)

lemma subtree_closed:
  "subtree_from t base n i out = Inr sub \<Longrightarrow> i \<le> length out \<Longrightarrow> (\<And>j. j < i \<Longrightarrow> set (children_of t (out ! j)) \<subseteq> set out) \<Longrightarrow>
     set out \<subseteq> set sub \<and> (\<forall>s \<in> set sub. set (children_of t s) \<subseteq> set sub)"
proof (induction n arbitrary: i out)
  case (Suc n)
  show ?case
  proof (cases "i < length out")
    case False
    then have "sub = out" using Suc.prems(1) by simp
    moreover have "set (children_of t s) \<subseteq> set out" if s: "s \<in> set out" for s
    proof -
      obtain j where "j < length out" "s = out ! j" using s by (metis in_set_conv_nth)
      then show ?thesis using Suc.prems(3) [of j] False by simp
    qed
    ultimately show ?thesis by blast
  next
    case True
    then obtain out' where o: "add_children out (children_of t (out ! i)) = Inr out'" "subtree_from t base n (i + 1) out' = Inr sub"
      using Suc.prems(1) by (auto split: sum.splits if_splits)
    have out': "out' = out @ children_of t (out ! i)" using add_children_Inr [OF o(1)] .
    have "set (children_of t (out' ! j)) \<subseteq> set out'" if "j < i + 1" for j
    proof (cases "j = i")
      case False
      then have "set (children_of t (out ! j)) \<subseteq> set out" using that Suc.prems(3) by simp
      then show ?thesis using that True False by (auto simp: out' nth_append)
    qed (use True in \<open>simp add: out' nth_append\<close>)
    from Suc.IH [OF o(2) _ this] show ?thesis using True by (auto simp: out')
  qed
qed simp

lemma subtree_in_steps:
  "i \<le> length out \<Longrightarrow> length out \<le> length t + 1 \<Longrightarrow> length t + 2 \<le> n + i \<Longrightarrow> subtree_from t base n i out \<noteq> Inl OutOfSteps"
proof (induction n arbitrary: i out)
  case (Suc n)
  show ?case
  proof (cases "i < length out")
    case False
    then show ?thesis by simp
  next
    case True
    show ?thesis
    proof (cases "add_children out (children_of t (out ! i))")
      case (Inl err)
      then show ?thesis using True add_children_Inl [OF Inl] by simp
    next
      case (Inr out')
      have "length out \<le> length out'" using add_children_Inr [OF Inr] by simp
      then show ?thesis using True Inr Suc.prems(3) Suc.IH [of "i + 1" out'] by simp
    qed
  qed
qed simp

text \<open>The steps \<^verbatim>\<open>Subtree\<close> is given are enough: its loop always ends by itself.\<close>

lemma Subtree_in_steps: "Subtree t base \<noteq> Inl OutOfSteps"
  unfolding Subtree_def by (rule subtree_in_steps) simp_all

lemma Subtree_closed: "Subtree t base = Inr sub \<Longrightarrow> base \<in> set sub \<and> (\<forall>s \<in> set sub. set (children_of t s) \<subseteq> set sub)"
  using subtree_closed [of t base "length t + 2" 0 "[base]" sub] by (auto simp: Subtree_def)

lemma in_children: "Zone t n = Some z \<Longrightarrow> z_parent z = p \<Longrightarrow> p \<noteq> [] \<Longrightarrow> n \<in> set (children_of t p)"
  by (auto simp: children_of_def Names_def Zone_def map_of_keys)

text \<open>A zone outside the subtree of the edited zone has the same chain after the edit.\<close>

lemma chain_outside:
  assumes "tree_wf t" "z_name nz \<noteq> []" "Subtree t (z_name nz) = Inr sub"
  shows "d \<notin> set sub \<Longrightarrow> parent_chain (With t nz) d zs \<longleftrightarrow> parent_chain t d zs"
proof (induction zs arbitrary: d)
  case Nil
  then show ?case using Subtree_closed [OF assms(3)] by (auto simp: parent_chain_Nil)
next
  case (Cons z zs)
  then have same: "Zone (With t nz) d = Zone t d" using Subtree_closed [OF assms(3)] by auto
  have "parent_chain (With t nz) (z_parent z) zs \<longleftrightarrow> parent_chain t (z_parent z) zs" if "Zone t d = Some z"
  proof (cases "z_parent z = []")
    case True
    then show ?thesis using parent_chain_empty assms(1,2) tree_wf_With by metis
  next
    case False
    then have "z_parent z \<notin> set sub"
      using in_children [OF that refl False] Subtree_closed [OF assms(3)] Cons.prems by blast
    then show ?thesis by (rule Cons.IH)
  qed
  then show ?case unfolding parent_chain_Cons same by blast
qed

lemma CoveringAt_Inr: "n \<noteq> [] \<Longrightarrow> (\<exists>hs. CoveringAt t [] n = Inr hs) \<longleftrightarrow> (\<exists>names. Reaching t n Carries = Inr names)"
  by (auto simp: CoveringAt_def Let_def split: sum.splits)

lemma covering_outside:
  assumes "tree_wf t" "z_name nz \<noteq> []" "Subtree t (z_name nz) = Inr sub" "d \<notin> set sub" "d \<noteq> []"
    and "CoveringAt t [] d = Inr was"
  shows "\<exists>now. CoveringAt (With t nz) [] d = Inr now \<and> stops now = stops was"
proof -
  have wf: "tree_wf (With t nz)" using assms(1,2) by blast
  have chain: "parent_chain (With t nz) d zs \<longleftrightarrow> parent_chain t d zs" for zs
    using chain_outside [OF assms(1-3)] assms(4) by blast
  obtain names where n: "Reaching t d Carries = Inr names"
    using CoveringAt_Inr [OF assms(5), of t] assms(6) by blast
  then have "Reaching (With t nz) d Carries = Inr names"
    unfolding Reaching_iff [OF wf] Reaching_iff [OF assms(1)] chain .
  then obtain now where now: "CoveringAt (With t nz) [] d = Inr now"
    using CoveringAt_Inr [OF assms(5), of "With t nz"] by blast
  have "zone_stops (With t nz) d = zone_stops t d"
    unfolding zone_stops_def reaches_def chain ..
  then show ?thesis
    using now stops_CoveringAt_zone [OF wf now assms(5)] stops_CoveringAt_zone [OF assms(1,6,5)] by simp
qed

abbreviation note_loss :: "holder \<Rightarrow> string list \<times> string list \<Rightarrow> string list \<times> string list" where
  "note_loss lost \<equiv> (\<lambda>(pending, inForce).
     if ho_name lost \<in> set pending \<union> set inForce then (pending, inForce)
     else if ho_pending lost then (pending @ [ho_name lost], inForce)
     else (pending, inForce @ [ho_name lost]))"

lemma note_losses:
  "set (fst (fold note_loss ls loss)) \<union> set (snd (fold note_loss ls loss)) =
     ho_name ` set ls \<union> set (fst loss) \<union> set (snd loss)"
  by (induction ls arbitrary: loss) (auto split: prod.splits)

lemma no_loss_iff: "\<not> EditLoss_Any loss \<longleftrightarrow> set (fst loss) \<union> set (snd loss) = {}"
  by (auto simp: EditLoss_Any_def)

lemma edit_losses_none:
  "edit_losses before after ds loss = Inr loss' \<Longrightarrow> \<not> EditLoss_Any loss' \<Longrightarrow>
     \<not> EditLoss_Any loss \<and> (\<forall>d \<in> set ds. \<exists>was now. CoveringAt before [] d = Inr was
       \<and> CoveringAt after [] d = Inr now \<and> stops was \<subseteq> stops now)"
proof (induction ds arbitrary: loss)
  case (Cons d ds)
  obtain was now where c: "CoveringAt before [] d = Inr was" "CoveringAt after [] d = Inr now"
    "edit_losses before after ds (fold note_loss (Lost was now) loss) = Inr loss'"
    using Cons.prems(1) by (auto split: sum.splits)
  from Cons.IH [OF c(3) Cons.prems(2)] have "\<not> EditLoss_Any (fold note_loss (Lost was now) loss)"
    "\<forall>d \<in> set ds. \<exists>was now. CoveringAt before [] d = Inr was \<and> CoveringAt after [] d = Inr now \<and> stops was \<subseteq> stops now"
    by blast+
  moreover from this(1) have "\<not> EditLoss_Any loss" "Lost was now = []"
    using note_losses [of "Lost was now" loss] unfolding no_loss_iff by auto
  ultimately show ?case using c(1,2) Lost_Nil by auto
qed simp

lemma sample_site_wf: "tree_wf (TreeOf sample_site)"
  by (rule tree_wf_TreeOf) (auto simp: sample_site_def Let_def)

lemma sample_site_zone:
  "Zone (TreeOf sample_site) n = (if n = ''aisle'' then Some (sample_site ! 1) else if n = ''hall'' then Some (sample_site ! 0) else None)"
  by (simp add: sample_site_def TreeOf_def Zone_def Let_def)

lemma sample_chain: "parent_chain (TreeOf sample_site) ''aisle'' [sample_site ! 1, sample_site ! 0]"
  by (simp add: parent_chain_Cons parent_chain_Nil sample_site_zone) (simp add: sample_site_def Let_def)

lemma sample_names: "reaching_names True Carries [sample_site ! 1, sample_site ! 0] = [''hall'']"
  by (simp add: reaching_names_def sample_site_def Let_def Carries_def propagatesDown_def ProcessedAnnotation_def
      TriggerAnnotation_def)

lemma sample_reaching: "Reaching (TreeOf sample_site) ''aisle'' Carries = Inr [''hall'']"
  unfolding Reaching_iff [OF sample_site_wf]
  by (intro exI [of _ "[sample_site ! 1, sample_site ! 0]"] conjI sample_chain sample_names [symmetric])
    (simp add: chain_fits_def MaxAncestors_def walkCap_def)

lemma sample_reaches: "reaches (TreeOf sample_site) Carries ''hall'' ''aisle''"
  unfolding reaches_iff [OF sample_chain] sample_names by simp

subsection \<open>Properties of the stop guard\<close>



text \<open>
  The two readers of the zone tree cannot disagree: the walk that reads one zone at a time
  and the walk over the tree read at once name the same stops, and one fails exactly when the
  other does.
\<close>

theorem stop_readers_agree:
  assumes "tree_wf t"
  shows "StopsOver True (\<lambda>m. Inr (Zone t m)) n True stopped = Inr names \<longleftrightarrow> Reaching t n stopped = Inr names"
  unfolding StopsOver_def Reaching_iff [OF assms]
  using stops_from_iff [OF assms, of n True stopped "walkCap + 1" n names] by (simp add: MaxAncestors_def)

theorem stop_readers_agree_witness:
  "StopsOver True (\<lambda>m. Inr (Zone (TreeOf sample_site) m)) ''aisle'' True Carries = Inr [''hall'']"
  unfolding stop_readers_agree [OF sample_site_wf] by (rule sample_reaching)

text \<open>
  Claim C12. The stop guard's answer for a robot is complete and exact: the stops it names are the
  robot's own, the zone stops that reach its recorded or its declared zone, the namespace stops in
  force, and the holds it records whose carrier is in force or gone; no other.
\<close>

theorem coverage_is_exact:
  assumes "tree_wf t" "CoverageOf t configs r = Inr cov"
  shows "((KindRobot, n) \<in> stops cov \<longleftrightarrow> n = r_name r \<and> r_annotations r TriggerAnnotation \<noteq> None)
    \<and> ((KindZone, n) \<in> stops cov \<longleftrightarrow> reaches t Carries n (r_current_zone r) \<or> reaches t Carries n (r_spec_zone r)
      \<or> (\<exists>e \<in> set (r_held_by r). eh_kind e \<noteq> HoldSwarmadaConfig \<and> eh_name e = n \<and> hold_counts t configs e))
    \<and> ((KindNamespace, n) \<in> stops cov \<longleftrightarrow> (\<exists>c \<in> set configs. c_name c = n \<and> InForce (c_annotations c))
      \<or> (\<exists>e \<in> set (r_held_by r). eh_kind e = HoldSwarmadaConfig \<and> eh_name e = n \<and> hold_counts t configs e))"
proof -
  have held: "(k, n) \<in> hold_stop ` {e \<in> set (r_held_by r). hold_counts t configs e} \<longleftrightarrow>
      (\<exists>e \<in> set (r_held_by r). HoldKind (eh_kind e) = k \<and> eh_name e = n \<and> hold_counts t configs e)" for k
    by (auto simp: hold_stop_def)
  have kinds: "HoldKind k = KindZone \<longleftrightarrow> k \<noteq> HoldSwarmadaConfig" "HoldKind k = KindNamespace \<longleftrightarrow> k = HoldSwarmadaConfig"
    "HoldKind k \<noteq> KindRobot" for k
    by (simp_all add: HoldKind_def)
  have "(KindRobot, n) \<in> own_stops r \<longleftrightarrow> n = r_name r \<and> r_annotations r TriggerAnnotation \<noteq> None"
    "k = KindZone \<or> k = KindNamespace \<Longrightarrow> (k, n) \<notin> own_stops r"
    "(k, n) \<in> zone_stops t d \<longleftrightarrow> k = KindZone \<and> reaches t Carries n d"
    "(k, n) \<in> namespace_stops configs \<longleftrightarrow> k = KindNamespace \<and> (\<exists>c \<in> set configs. c_name c = n \<and> InForce (c_annotations c))"
    for k d by (auto simp: own_stops_def zone_stops_def namespace_stops_def)
  then show ?thesis
    unfolding CoverageOf_stops [OF assms] Un_iff held kinds(1,2) by (simp add: kinds(3))
qed

theorem coverage_is_exact_witness:
  "\<exists>cov. CoverageOf (TreeOf sample_site) [] ((sample_robot ''r'' 50)\<lparr>r_spec_zone := ''aisle'', r_current_zone := []\<rparr>) = Inr cov
     \<and> (KindZone, ''hall'') \<in> stops cov"
proof -
  let ?r = "(sample_robot ''r'' 50)\<lparr>r_spec_zone := ''aisle'', r_current_zone := []\<rparr>"
  have "\<exists>hs. CoveringAt (TreeOf sample_site) [] ''aisle'' = Inr hs"
    using CoveringAt_Inr [of "''aisle''"] sample_reaching by simp
  then obtain cov where cov: "CoverageOf (TreeOf sample_site) [] ?r = Inr cov"
    using CoverageOf_Inr [of "TreeOf sample_site" "[]" ?r] by auto
  have "(KindZone, ''hall'') \<in> stops cov"
    using coverage_is_exact [OF sample_site_wf cov, of "''hall''"] sample_reaches by simp
  with cov show ?thesis by blast
qed

text \<open>
  Claim C5. The reading the fan-out makes of a robot's position never names a stop the guard misses:
  whenever the guard answers, so does the fan-out's reading, and every stop it names is one the
  guard names.
\<close>

theorem guard_covers_fan_out:
  assumes "tree_wf t" "CoverageOf t configs r = Inr cov"
  shows "\<exists>cov'. FanOutCoverageOf t configs r = Inr cov' \<and> stops cov' \<subseteq> stops cov"
proof -
  let ?r = "if r_current_zone r \<noteq> [] then r\<lparr>r_spec_zone := r_current_zone r\<rparr> else r"
  have "\<exists>cov'. CoverageOf t configs ?r = Inr cov'"
    using assms(2) CoverageOf_Inr [of t configs r] CoverageOf_Inr [of t configs ?r] by auto
  then obtain cov' where cov': "CoverageOf t configs ?r = Inr cov'" ..
  have "stops cov' \<subseteq> stops cov"
    unfolding CoverageOf_stops [OF assms] CoverageOf_stops [OF assms(1) cov'] by (auto simp: own_stops_def)
  then show ?thesis using cov' by (auto simp: FanOutCoverageOf_def)
qed

theorem guard_covers_fan_out_witness:
  "\<exists>cov'. FanOutCoverageOf [] [] (sample_robot ''r'' 50) = Inr cov' \<and> stops cov' \<subseteq> stops []"
  using guard_covers_fan_out [OF tree_wf_Nil, of "[]" "sample_robot ''r'' 50" "[]"]
  by (simp add: CoverageOf_def CoveringAt_def Reaching_def Zone_def own_trigger_def sample_robot_def Let_def)

text \<open>
  Claim C30. An edit of a zone that the guard lets through uncovers no one: if the check of an edit
  reports no stop lost, then wherever in the namespace a robot stands, in the edited zone, below it or
  anywhere else, every zone stop that covered it still covers it in the tree the edit produces.
\<close>

theorem admitted_edit_uncovers_no_zone:
  assumes "tree_wf t" "z_name nz \<noteq> []" "EditUncovers t nz = Inr loss" "\<not> EditLoss_Any loss"
    and "CoveringAt t [] d = Inr was"
  shows "\<exists>now. CoveringAt (With t nz) [] d = Inr now \<and> stops was \<subseteq> stops now"
proof (cases "d = []")
  case True
  then show ?thesis using assms(5) by (auto simp: CoveringAt_def Let_def)
next
  case False
  obtain sub where sub: "Subtree t (z_name nz) = Inr sub" "edit_losses t (With t nz) sub ([], []) = Inr loss"
    using assms(3) by (auto simp: EditUncovers_def split: sum.splits)
  show ?thesis
  proof (cases "d \<in> set sub")
    case True
    then show ?thesis using edit_losses_none [OF sub(2) assms(4)] assms(5) by fastforce
  next
    case out: False
    then show ?thesis using covering_outside [OF assms(1,2) sub(1) out False assms(5)] by auto
  qed
qed

theorem admitted_edit_uncovers_no_zone_witness:
  "\<exists>now. CoveringAt (With (TreeOf sample_site) ((sample_site ! 1)\<lparr>z_max_robots := 3\<rparr>)) [] ''aisle'' = Inr now
     \<and> (KindZone, ''hall'') \<in> stops now"
proof -
  let ?nz = "(sample_site ! 1)\<lparr>z_max_robots := 3\<rparr>"
  obtain was where was: "CoveringAt (TreeOf sample_site) [] ''aisle'' = Inr was"
    using CoveringAt_Inr [of "''aisle''"] sample_reaching by auto
  then have "(KindZone, ''hall'') \<in> stops was"
    using sample_reaching by (auto simp: CoveringAt_def Let_def holder_of_scope_def)
  moreover have "EditUncovers (TreeOf sample_site) ?nz = Inr ([], [])" by code_simp
  moreover have "z_name ?nz \<noteq> []" by (simp add: sample_site_def Let_def)
  ultimately show ?thesis
    using admitted_edit_uncovers_no_zone [OF sample_site_wf _ _ _ was, of ?nz "([], [])"]
    by (auto simp: EditLoss_Any_def)
qed

end
