(* ===== verification/CasCounter.thy ===== *)
theory CasCounter
  imports Prelude
begin

text \<open>
  A counter several processes draw from, kept in one object of the API server and written with
  optimistic concurrency: a process reads the object, computes the object to write and the value
  it then issues, and the write succeeds only if the object is still at the version that was read
  (for a create, if there still is none). This is the protocol of the leader-term floor
  (\<^verbatim>\<open>internal/leadership/floor.go\<close>) and of the generation store
  (\<^verbatim>\<open>internal/controller/fencing_store.go\<close>). The interleaving is that of the steps of any number
  of processes; a step that fails, at any point, changes nothing. That the object is not deleted
  or written by anyone else is what both sources rely on: only the control plane can write it.
\<close>

subsection \<open>The protocol\<close>

record ('o, 'p, 'v) cas_state =
  cs_object :: "('o \<times> nat) option"
  cs_next :: nat
  cs_read :: "'p \<Rightarrow> ('o \<times> nat) option option"
  cs_issued :: "'v list"

definition cas_init :: "'o option \<Rightarrow> ('o, 'p, 'v) cas_state" where
  "cas_init obj = \<lparr>cs_object = map_option (\<lambda>x. (x, 0)) obj, cs_next = 1, cs_read = (\<lambda>_. None), cs_issued = []\<rparr>"

definition cas_write :: "'p \<Rightarrow> 'o \<Rightarrow> 'v option \<Rightarrow> ('o, 'p, 'v) cas_state \<Rightarrow> ('o, 'p, 'v) cas_state" where
  "cas_write p obj v s = s\<lparr>cs_object := Some (obj, cs_next s), cs_next := cs_next s + 1,
     cs_read := (cs_read s)(p := None),
     cs_issued := (case v of None \<Rightarrow> cs_issued s | Some x \<Rightarrow> x # cs_issued s)\<rparr>"

text \<open>
  \<open>compute\<close> is the client's step from the object it read and its other inputs; \<open>inputs\<close> are those
  the claim is about. Issued values are listed newest first.
\<close>

inductive cas_reach :: "('o option \<Rightarrow> 'i \<Rightarrow> ('o \<times> 'v option) option) \<Rightarrow> ('o option \<Rightarrow> 'i \<Rightarrow> bool) \<Rightarrow> 'o option
    \<Rightarrow> ('o, 'p, 'v) cas_state \<Rightarrow> bool"
  for compute :: "'o option \<Rightarrow> 'i \<Rightarrow> ('o \<times> 'v option) option" and inputs :: "'o option \<Rightarrow> 'i \<Rightarrow> bool"
    and obj :: "'o option" where
  start: "cas_reach compute inputs obj (cas_init obj)"
| read: "cas_reach compute inputs obj s \<Longrightarrow>
    cas_reach compute inputs obj (s\<lparr>cs_read := (cs_read s)(p := Some (cs_object s))\<rparr>)"
| fail: "cas_reach compute inputs obj s \<Longrightarrow>
    cas_reach compute inputs obj (s\<lparr>cs_read := (cs_read s)(p := None)\<rparr>)"
| stored: "cas_reach compute inputs obj s \<Longrightarrow> cs_read s p = Some seen \<Longrightarrow>
    inputs (map_option fst seen) i \<Longrightarrow> compute (map_option fst seen) i = Some (x, v) \<Longrightarrow>
    map_option snd seen = map_option snd (cs_object s) \<Longrightarrow>
    cas_reach compute inputs obj (cas_write p x v s)"

subsection \<open>Lemmas\<close>

text \<open>A version identifies its object: what a process read at the current version is the object.\<close>

definition versions_fresh :: "('o, 'p, 'v) cas_state \<Rightarrow> bool" where
  "versions_fresh s \<longleftrightarrow> (\<forall>x r. cs_object s = Some (x, r) \<longrightarrow> r < cs_next s)
     \<and> (\<forall>p x r. cs_read s p = Some (Some (x, r)) \<longrightarrow>
          r < cs_next s \<and> (\<forall>y. cs_object s = Some (y, r) \<longrightarrow> y = x))"

lemma versions_fresh_reach: "cas_reach compute inputs obj s \<Longrightarrow> versions_fresh s"
proof (induction rule: cas_reach.induct)
  case start
  then show ?case by (auto simp: versions_fresh_def cas_init_def)
next
  case (read s p)
  then show ?case by (auto simp: versions_fresh_def)
next
  case (fail s p)
  then show ?case by (auto simp: versions_fresh_def)
next
  case (stored s p seen i x v)
  then show ?case by (fastforce simp: versions_fresh_def cas_write_def less_Suc_eq)
qed

lemma read_is_current:
  assumes "versions_fresh s" "cs_read s p = Some seen" "map_option snd seen = map_option snd (cs_object s)"
  shows "map_option fst seen = map_option fst (cs_object s)"
proof (cases seen)
  case None
  then show ?thesis using assms(3) by simp
next
  case (Some c)
  obtain x r where c: "c = (x, r)" by (rule prod.exhaust)
  then obtain y where "cs_object s = Some (y, r)" using assms(3) Some by (cases "cs_object s") auto
  then show ?thesis using assms(1,2) Some c by (auto simp: versions_fresh_def)
qed

lemma sorted_gt_distinct: "sorted_wrt (>) (xs::'a::linorder list) \<Longrightarrow> distinct xs"
  by (induction xs) auto

text \<open>
  The contract a client gives the protocol: the object it writes records the value it issues, and
  that value is above the one the object it read records. Then the values all processes issue rise
  strictly, in the order of the writes.
\<close>

locale cas_counter =
  fixes compute :: "'o option \<Rightarrow> 'i \<Rightarrow> ('o \<times> 'v::linorder option) option"
    and inputs :: "'o option \<Rightarrow> 'i \<Rightarrow> bool"
    and mark :: "'o \<Rightarrow> 'v"
    and readable :: "'o \<Rightarrow> bool"
  assumes create: "inputs None i \<Longrightarrow> compute None i = Some (x, v) \<Longrightarrow> readable x \<and> v = Some (mark x)"
    and update: "inputs (Some y) i \<Longrightarrow> readable y \<Longrightarrow> compute (Some y) i = Some (x, v) \<Longrightarrow>
      readable x \<and> (case v of None \<Rightarrow> mark y \<le> mark x | Some u \<Rightarrow> mark y < u \<and> u = mark x)"
begin

lemma issued_rise:
  assumes "cas_reach compute inputs obj s" "\<forall>x. obj = Some x \<longrightarrow> readable x"
  shows "sorted_wrt (>) (cs_issued s)
    \<and> (case cs_object s of
         None \<Rightarrow> cs_issued s = []
       | Some (x, r) \<Rightarrow> readable x \<and> (\<forall>v \<in> set (cs_issued s). v \<le> mark x))"
  using assms
proof (induction rule: cas_reach.induct)
  case start
  then show ?case by (auto simp: cas_init_def split: option.splits)
next
  case (stored s p seen i x v)
  have cur: "map_option fst seen = map_option fst (cs_object s)"
    using read_is_current [OF versions_fresh_reach [OF stored.hyps(1)]] stored.hyps by blast
  show ?case
  proof (cases "cs_object s")
    case None
    then show ?thesis
      using stored cur create [of i x v] by (auto simp: cas_write_def)
  next
    case (Some c)
    obtain y r where c: "c = (y, r)" by (rule prod.exhaust)
    have "readable x \<and> (case v of None \<Rightarrow> mark y \<le> mark x | Some u \<Rightarrow> mark y < u \<and> u = mark x)"
      using stored Some c cur by (intro update [of y i]) auto
    moreover have "sorted_wrt (>) (cs_issued s)" "\<forall>v \<in> set (cs_issued s). v \<le> mark y"
      using stored.IH stored.prems Some c by simp_all
    ultimately show ?thesis
      by (cases v) (auto simp: cas_write_def)
  qed
qed (auto split: option.splits)

lemma issued_marks:
  assumes "cas_reach compute inputs obj s" "\<forall>x. obj = Some x \<longrightarrow> readable x" "\<And>x. readable x \<Longrightarrow> P (mark x)"
  shows "\<forall>v \<in> set (cs_issued s). P v"
  using assms(1,2)
proof (induction rule: cas_reach.induct)
  case (stored s p seen i x v)
  have cur: "map_option fst seen = map_option fst (cs_object s)"
    using read_is_current [OF versions_fresh_reach [OF stored.hyps(1)]] stored.hyps by blast
  have "v = None \<or> v = Some (mark x) \<and> readable x"
  proof (cases seen)
    case None
    then show ?thesis using create [of i x v] stored.hyps by simp
  next
    case (Some c)
    obtain y r where c: "c = (y, r)" by (rule prod.exhaust)
    then have "readable y"
      using issued_rise [OF stored.hyps(1) stored.prems] Some cur by (cases "cs_object s") auto
    then show ?thesis using update [of y i x v] stored.hyps Some c by (auto split: option.splits)
  qed
  then show ?case
    using stored.IH stored.prems assms(3) by (auto simp: cas_write_def)
qed (auto simp: cas_init_def)

lemma issued_distinct:
  assumes "cas_reach compute inputs obj s" "\<forall>x. obj = Some x \<longrightarrow> readable x"
  shows "distinct (cs_issued s)"
proof -
  have "sorted_wrt (>) (cs_issued s)" using issued_rise [OF assms] by simp
  then show ?thesis by (rule sorted_gt_distinct)
qed

end

end
