(* ===== verification/Leadership.thy ===== *)
theory Leadership
  imports GoStrconv CasCounter "HOL-Library.Word"
begin

text \<open>
  Leadership of the control plane (\<^verbatim>\<open>internal/leadership\<close>): the floor that issues leader terms
  (\<^verbatim>\<open>floor.go\<close>), a process's hold on leadership (\<^verbatim>\<open>leadership.go\<close>), the runnable that takes it
  (\<^verbatim>\<open>runnable.go\<close>), and the stamping of commands with the term (\<^verbatim>\<open>internal/command/term.go\<close>). A
  term is a \<^verbatim>\<open>uint64\<close>, a 64-bit word. What the API server answers to a read or a write is an
  argument.
\<close>

subsection \<open>Leases and the answers of the API server\<close>

datatype 'a api_read = Found 'a | NotFound | ReadFailed

datatype api_write = Written | Conflicted | WriteFailed

text \<open>
  A Lease: its annotations and \<^verbatim>\<open>spec.leaseTransitions\<close>. Its resourceVersion is in the answer to a
  write. A create that finds the object in place answers \<open>Conflicted\<close>.
\<close>

record lease =
  lease_annotations :: "string \<rightharpoonup> string"
  lease_transitions :: "int option"

definition empty_lease :: lease where
  "empty_lease = \<lparr>lease_annotations = Map.empty, lease_transitions = None\<rparr>"

subsection \<open>The leader-term floor\<close>

definition AnnotationTermFloor :: string where
  "AnnotationTermFloor = ''swarmada.io/leader-term-floor''"

definition maxFloorAttempts :: nat where
  "maxFloorAttempts = 8"

datatype floor_error = ElectionUnread | FloorUnread | NotATerm string | FloorUnwritten | KeptChanging

type_synonym leader_term = "64 word"

definition transitions :: "string \<Rightarrow> lease api_read \<Rightarrow> floor_error + leader_term" where
  "transitions electionLease answer =
     (if electionLease = [] then Inr 0
      else case answer of
          ReadFailed \<Rightarrow> Inl ElectionUnread
        | NotFound \<Rightarrow> Inr 0
        | Found l \<Rightarrow> (case lease_transitions l of
            Some n \<Rightarrow> if 0 < n then Inr (word_of_int n) else Inr 0
          | None \<Rightarrow> Inr 0))"

definition floorOf :: "lease \<Rightarrow> floor_error + leader_term" where
  "floorOf l = (case lease_annotations l AnnotationTermFloor of
     None \<Rightarrow> Inr 0
   | Some v \<Rightarrow> (case parse_uint v of None \<Rightarrow> Inl (NotATerm v) | Some n \<Rightarrow> Inr (of_nat n)))"

definition with_floor :: "leader_term \<Rightarrow> lease \<Rightarrow> lease" where
  "with_floor term l =
     l\<lparr>lease_annotations := (lease_annotations l)(AnnotationTermFloor \<mapsto> format_uint (unat term))\<rparr>"

text \<open>
  What one attempt writes and the term it issues when the write succeeds, from the floor Lease it
  read, if there was one, and the count of the election Lease.
\<close>

definition floor_plan :: "lease option \<Rightarrow> leader_term \<Rightarrow> floor_error + lease \<times> leader_term" where
  "floor_plan found changes =
     (let l = (case found of Some l \<Rightarrow> l | None \<Rightarrow> empty_lease)
      in case floorOf l of
          Inl err \<Rightarrow> Inl err
        | Inr highest \<Rightarrow> let term = max highest changes + 1 in Inr (with_floor term l, term))"

record floor_answers =
  fa_election :: "lease api_read"
  fa_floor :: "lease api_read"
  fa_write :: "lease \<Rightarrow> api_write"

text \<open>The retry loop: \<open>answers k\<close> is what the API server answers in attempt \<open>k\<close>, of which \<open>n\<close> are left.\<close>

fun next_from :: "string \<Rightarrow> (nat \<Rightarrow> floor_answers) \<Rightarrow> nat \<Rightarrow> nat \<Rightarrow> floor_error + leader_term" where
  "next_from electionLease answers k 0 = Inl KeptChanging"
| "next_from electionLease answers k (Suc n) =
     (case transitions electionLease (fa_election (answers k)) of
        Inl err \<Rightarrow> Inl err
      | Inr changes \<Rightarrow> (case fa_floor (answers k) of
          ReadFailed \<Rightarrow> Inl FloorUnread
        | found \<Rightarrow> (case floor_plan (case found of Found l \<Rightarrow> Some l | _ \<Rightarrow> None) changes of
            Inl err \<Rightarrow> Inl err
          | Inr (l, term) \<Rightarrow> (case fa_write (answers k) l of
              Written \<Rightarrow> Inr term
            | Conflicted \<Rightarrow> next_from electionLease answers (Suc k) n
            | WriteFailed \<Rightarrow> Inl FloorUnwritten))))"

definition Floor_Next :: "string \<Rightarrow> (nat \<Rightarrow> floor_answers) \<Rightarrow> floor_error + leader_term" where
  "Floor_Next electionLease answers = next_from electionLease answers 0 maxFloorAttempts"

subsection \<open>A process's hold on leadership\<close>

text \<open>The channel that closes when leadership is lost is the number of leaderships given up.\<close>

record leadership =
  l_leading :: bool
  l_term :: leader_term
  l_lost :: nat

definition Leadership_zero :: leadership where
  "Leadership_zero = \<lparr>l_leading = False, l_term = 0, l_lost = 0\<rparr>"

definition Term :: "leadership \<Rightarrow> leader_term \<times> bool" where
  "Term s = (l_term s, l_leading s)"

definition Acquire :: "leader_term \<Rightarrow> leadership \<Rightarrow> bool \<times> leadership" where
  "Acquire term s =
     (if l_leading s \<or> term = 0 \<or> term \<le> l_term s then (False, s)
      else (True, s\<lparr>l_leading := True, l_term := term\<rparr>))"

definition Release :: "leadership \<Rightarrow> leadership" where
  "Release s = (if \<not> l_leading s then s else s\<lparr>l_leading := False, l_lost := l_lost s + 1\<rparr>)"

text \<open>
  \<^verbatim>\<open>Runnable.Start\<close> up to the loss of leadership: the answers of the term source, one per attempt,
  until its context is cancelled. It leads under the first term \<^verbatim>\<open>Acquire\<close> accepts.
\<close>

fun take_leadership :: "(floor_error + leader_term) list \<Rightarrow> leadership \<Rightarrow> leadership" where
  "take_leadership [] s = s"
| "take_leadership (Inl err # rest) s = take_leadership rest s"
| "take_leadership (Inr t # rest) s =
     (case Acquire t s of (True, s') \<Rightarrow> s' | (False, s') \<Rightarrow> take_leadership rest s')"

definition Start :: "(floor_error + leader_term) list \<Rightarrow> leadership \<Rightarrow> leadership" where
  "Start issued s = (let s' = take_leadership issued s in if l_leading s' then Release s' else s')"

subsection \<open>Stamping commands with the term\<close>

record 'c command =
  cmd_id :: nat
  cmd_term :: leader_term
  cmd_payload :: 'c

datatype send_error = NotLeading | SendFailed

text \<open>
  \<^verbatim>\<open>Dispatcher.send\<close>: the term source of the dispatcher, if one is wired, and the transport, which
  takes the command or fails. What it returns is the command that went out.
\<close>

definition send_command :: "leadership option \<Rightarrow> ('c command \<Rightarrow> bool) \<Rightarrow> 'c command \<Rightarrow> send_error + 'c command" where
  "send_command terms transport cmd =
     (let out = (case terms of Some s \<Rightarrow> cmd\<lparr>cmd_term := l_term s\<rparr> | None \<Rightarrow> cmd)
      in if (case terms of Some s \<Rightarrow> \<not> l_leading s | None \<Rightarrow> False) then Inl NotLeading
         else if transport out then Inr out else Inl SendFailed)"

record 'r command_result =
  res_stale_term :: bool
  res_arm :: 'r

definition termChecked :: "'r command_result \<Rightarrow> 'r command_result option" where
  "termChecked res = (if res_stale_term res then None else Some res)"

subsection \<open>Vocabulary of the specification\<close>

text \<open>The step of the floor as a client of the counter protocol; its input is the transition count.\<close>

definition floor_step :: "lease option \<Rightarrow> leader_term \<Rightarrow> (lease \<times> leader_term option) option" where
  "floor_step found changes =
     (case floor_plan found changes of Inl _ \<Rightarrow> None | Inr (l, term) \<Rightarrow> Some (l, Some term))"

definition floor_of :: "lease \<Rightarrow> leader_term" where
  "floor_of l = (case floorOf l of Inr t \<Rightarrow> t | Inl _ \<Rightarrow> 0)"

definition floor_readable :: "lease \<Rightarrow> bool" where
  "floor_readable l = (case floorOf l of Inr _ \<Rightarrow> True | Inl _ \<Rightarrow> False)"

text \<open>The counts an election Lease can report: \<^verbatim>\<open>leaseTransitions\<close> is an \<^verbatim>\<open>int32\<close>.\<close>

definition count_range :: "lease option \<Rightarrow> leader_term \<Rightarrow> bool" where
  "count_range found changes \<longleftrightarrow> changes < - 1 \<and> (\<forall>l. found = Some l \<longrightarrow> floor_of l < - 1)"

text \<open>The life of one process: the terms it led under, newest first.\<close>

inductive leads :: "leadership \<Rightarrow> leader_term list \<Rightarrow> bool" where
  leads_start: "leads Leadership_zero []"
| leads_acquire: "leads s ts \<Longrightarrow> Acquire t s = (True, s') \<Longrightarrow> leads s' (t # ts)"
| leads_refused: "leads s ts \<Longrightarrow> Acquire t s = (False, s') \<Longrightarrow> leads s' ts"
| leads_release: "leads s ts \<Longrightarrow> leads (Release s) ts"

subsection \<open>Lemmas\<close>

inductive_cases leads_zeroE: "leads s []"

lemma floorOf_with_floor [simp]: "floorOf (with_floor t l) = Inr t"
proof -
  have "unat t \<le> max_uint64"
    using unsigned_less [of t, where 'a = nat] by (simp add: max_uint64_def)
  then show ?thesis by (simp add: floorOf_def with_floor_def parse_uint_format_uint)
qed

lemma max_plus_one: "(a::leader_term) < - 1 \<Longrightarrow> b < - 1 \<Longrightarrow> a < max a b + 1 \<and> b < max a b + 1"
proof -
  assume a: "a < - 1" and b: "b < - 1"
  have "c < c + 1" if "c < - 1" for c :: leader_term
  proof -
    have "unat (- 1 :: leader_term) = 2 ^ 64 - 1" by (simp add: unsigned_minus_1_eq_mask mask_eq_exp_minus_1)
    then have "unat c < 2 ^ 64 - 1" using that by (simp only: word_less_nat_alt)
    then show ?thesis by (simp add: word_less_nat_alt unat_word_ariths)
  qed
  then have "max a b < max a b + 1" using a b by (simp add: max_def)
  then show ?thesis
    using order_le_less_trans [OF max.cobounded1 [of a b]] order_le_less_trans [OF max.cobounded2 [of b a]] by blast
qed

interpretation terms: cas_counter floor_step count_range floor_of floor_readable
proof
  fix i x v
  assume "count_range None i" "floor_step None i = Some (x, v)"
  then show "floor_readable x \<and> v = Some (floor_of x)"
    by (auto simp: floor_step_def floor_plan_def Let_def floor_readable_def floor_of_def split: sum.splits)
next
  fix y i x v
  assume c: "count_range (Some y) i" and "floor_readable y" "floor_step (Some y) i = Some (x, v)"
  then have "x = with_floor (max (floor_of y) i + 1) y" "v = Some (max (floor_of y) i + 1)"
    by (auto simp: floor_step_def floor_plan_def Let_def floor_readable_def floor_of_def split: sum.splits)
  moreover have "floor_of y < max (floor_of y) i + 1"
    using c max_plus_one [of "floor_of y" i] by (simp add: count_range_def)
  ultimately show "floor_readable x \<and> (case v of None \<Rightarrow> floor_of y \<le> floor_of x | Some u \<Rightarrow> floor_of y < u \<and> u = floor_of x)"
    by (simp add: floor_readable_def floor_of_def)
qed

lemma floor_step_None: "floor_step None changes = Some (with_floor (changes + 1) empty_lease, Some (changes + 1))"
  by (simp add: floor_step_def floor_plan_def floorOf_def empty_lease_def Let_def)

lemma next_from_written:
  "next_from el answers k n = Inr t \<Longrightarrow> \<exists>j found changes l. k \<le> j \<and> j < k + n
     \<and> transitions el (fa_election (answers j)) = Inr changes
     \<and> fa_floor (answers j) = (case found of Some f \<Rightarrow> Found f | None \<Rightarrow> NotFound)
     \<and> floor_plan found changes = Inr (l, t) \<and> fa_write (answers j) l = Written"
proof (induction n arbitrary: k)
  case (Suc n)
  obtain changes where c: "transitions el (fa_election (answers k)) = Inr changes"
    using Suc.prems by (auto split: sum.splits)
  define found where "found = (case fa_floor (answers k) of Found l \<Rightarrow> Some l | _ \<Rightarrow> None)"
  have f: "fa_floor (answers k) = (case found of Some f \<Rightarrow> Found f | None \<Rightarrow> NotFound)"
    using Suc.prems c by (cases "fa_floor (answers k)") (auto simp: found_def)
  obtain l u where p: "floor_plan found changes = Inr (l, u)"
    using Suc.prems c f by (cases found) (auto split: sum.splits)
  show ?case
  proof (cases "fa_write (answers k) l")
    case Written
    then have "u = t" using Suc.prems c f p by (cases found) auto
    then show ?thesis using c f p Written by (intro exI [of _ k] exI [of _ found] exI [of _ changes] exI [of _ l]) simp
  next
    case Conflicted
    then have "next_from el answers (Suc k) n = Inr t" using Suc.prems c f p by (cases found) auto
    from Suc.IH [OF this] show ?thesis by (metis Suc_leD add_Suc_shift)
  next
    case WriteFailed
    then show ?thesis using Suc.prems c f p by (cases found) auto
  qed
qed simp

lemma conflict_step:
  assumes "next_from el answers k (Suc n) = Inl KeptChanging"
  shows "(\<exists>l. fa_write (answers k) l = Conflicted) \<and> next_from el answers (Suc k) n = Inl KeptChanging"
proof -
  obtain changes where c: "transitions el (fa_election (answers k)) = Inr changes"
    using assms by (auto simp: transitions_def split: sum.splits api_read.splits option.splits if_splits)
  show ?thesis
    using assms c by (auto simp: floor_plan_def floorOf_def Let_def
        split: sum.splits api_read.splits api_write.splits option.splits if_splits)
qed

lemma next_from_exhausted:
  "next_from el answers k n = Inl KeptChanging \<Longrightarrow> j < n \<Longrightarrow> \<exists>l. fa_write (answers (k + j)) l = Conflicted"
proof (induction n arbitrary: k j)
  case (Suc n)
  show ?case
    using conflict_step [OF Suc.prems(1)] Suc.IH [of "Suc k" "j - 1"] Suc.prems(2) by (cases j) auto
qed simp

subsection \<open>Properties of leadership\<close>

text \<open>
  Claim C9. Leader terms rise: whatever the interleaving of the processes that draw a term, and
  whatever count the election Lease reports (also after it was deleted and starts again at 0), the
  terms issued are strictly increasing in the order in which they were recorded, so no two
  leaderships have the same term.
\<close>

theorem leader_terms_rise:
  assumes "cas_reach floor_step count_range obj s" "\<forall>l. obj = Some l \<longrightarrow> floor_readable l"
  shows "sorted_wrt (>) (cs_issued s) \<and> distinct (cs_issued s)"
  using terms.issued_rise [OF assms] terms.issued_distinct [OF assms] by blast

theorem leader_terms_rise_witness:
  "\<exists>s :: (lease, nat, leader_term) cas_state. cs_issued s = [8, 6] \<and> sorted_wrt (>) (cs_issued s)"
proof -
  define f where "f = with_floor 6 empty_lease"
  define s0 where "s0 = (cas_init None :: (lease, nat, leader_term) cas_state)"
  define s1 where "s1 = s0\<lparr>cs_read := (cs_read s0)(1 := Some (cs_object s0))\<rparr>"
  define s2 where "s2 = cas_write 1 f (Some 6) s1"
  define s3 where "s3 = s2\<lparr>cs_read := (cs_read s2)(2 := Some (cs_object s2))\<rparr>"
  define s4 where "s4 = cas_write 2 (with_floor 8 f) (Some 8) s3"
  have "cas_reach floor_step count_range None s1"
    unfolding s1_def s0_def by (intro cas_reach.read cas_reach.start)
  then have "cas_reach floor_step count_range None s2"
    unfolding s2_def by (rule cas_reach.stored [where seen = None and i = 5])
      (simp_all add: s1_def s0_def cas_init_def floor_step_None count_range_def f_def)
  then have "cas_reach floor_step count_range None s3"
    unfolding s3_def by (rule cas_reach.read)
  then have "cas_reach floor_step count_range None s4"
    unfolding s4_def by (rule cas_reach.stored [where seen = "Some (f, 1)" and i = 7])
      (simp_all add: s3_def s2_def s1_def s0_def cas_init_def cas_write_def count_range_def f_def floor_of_def
        floor_step_def floor_plan_def max_def)
  from leader_terms_rise [OF this] show ?thesis
    by (intro exI [of _ s4]) (simp add: s4_def s3_def s2_def s1_def s0_def cas_write_def cas_init_def)
qed

text \<open>
  A term is issued only once it is recorded: \<^verbatim>\<open>Next\<close> returns a term only after a write of
  one of its eight attempts stored that term as the new floor, and gives up with the floor changing
  under it only when every one of the attempts lost a race.
\<close>

theorem issued_term_is_recorded:
  "(Floor_Next el answers = Inr t \<longrightarrow>
      (\<exists>j < maxFloorAttempts. \<exists>l. fa_write (answers j) l = Written \<and> floorOf l = Inr t))
   \<and> (Floor_Next el answers = Inl KeptChanging \<longrightarrow>
      (\<forall>j < maxFloorAttempts. \<exists>l. fa_write (answers j) l = Conflicted))"
proof (intro conjI impI)
  assume "Floor_Next el answers = Inr t"
  then have "next_from el answers 0 maxFloorAttempts = Inr t" by (simp add: Floor_Next_def)
  then obtain j found changes l where "j < maxFloorAttempts" "floor_plan found changes = Inr (l, t)"
    "fa_write (answers j) l = Written"
    using next_from_written [of el answers 0 maxFloorAttempts t] by (metis add_0)
  moreover from this(2) have "floorOf l = Inr t"
    by (auto simp: floor_plan_def Let_def split: sum.splits)
  ultimately show "\<exists>j < maxFloorAttempts. \<exists>l. fa_write (answers j) l = Written \<and> floorOf l = Inr t"
    by blast
next
  assume "Floor_Next el answers = Inl KeptChanging"
  then show "\<forall>j < maxFloorAttempts. \<exists>l. fa_write (answers j) l = Conflicted"
    using next_from_exhausted [of el answers 0 maxFloorAttempts] by (simp add: Floor_Next_def)
qed

theorem issued_term_is_recorded_witness:
  "\<exists>j < maxFloorAttempts. \<exists>l. fa_write ((\<lambda>k. \<lparr>fa_election = NotFound, fa_floor = NotFound,
      fa_write = (\<lambda>_. if k = 3 then Written else Conflicted)\<rparr>) j) l = Written \<and> floorOf l = Inr 1"
  using issued_term_is_recorded [of "''e''" "\<lambda>k. \<lparr>fa_election = NotFound, fa_floor = NotFound,
      fa_write = (\<lambda>_. if k = 3 then Written else Conflicted)\<rparr>" 1]
  by (simp add: Floor_Next_def maxFloorAttempts_def numeral_eq_Suc transitions_def floor_plan_def floorOf_def
      empty_lease_def)

text \<open>
  A process never leads twice under one term: the terms it acquires leadership under rise
  strictly and are never 0, the value that stands for no term on the wire.
\<close>

theorem acquired_terms_rise:
  assumes "leads s ts"
  shows "sorted_wrt (>) ts \<and> 0 \<notin> set ts \<and> (\<forall>t \<in> set ts. t \<le> l_term s)
    \<and> (l_leading s \<longrightarrow> ts \<noteq> [] \<and> Term s = (hd ts, True))"
  using assms
proof (induction rule: leads.induct)
  case (leads_acquire s ts t s')
  then show ?case by (force simp: Acquire_def Term_def split: if_splits)
next
  case (leads_refused s ts t s')
  then show ?case by (auto simp: Acquire_def split: if_splits)
qed (auto simp: Leadership_zero_def Release_def)

theorem acquired_terms_rise_witness:
  "sorted_wrt (>) [4, 2 :: leader_term]"
proof -
  have "leads Leadership_zero []" by (rule leads_start)
  then have "leads \<lparr>l_leading = True, l_term = 2, l_lost = 0\<rparr> [2]"
    by (rule leads_acquire) (simp add: Acquire_def Leadership_zero_def)
  then have "leads (Release \<lparr>l_leading = True, l_term = 2, l_lost = 0\<rparr>) [2]"
    by (rule leads_release)
  then have "leads \<lparr>l_leading = True, l_term = 4, l_lost = 1\<rparr> [4, 2]"
    by (rule leads_acquire) (simp add: Acquire_def Release_def)
  from acquired_terms_rise [OF this] show ?thesis by blast
qed

text \<open>What a run of the runnable leaves: it no longer leads, and its term has not fallen.\<close>

lemma take_leadership_term: "l_term s \<le> l_term (take_leadership issued s)"
proof (induction issued arbitrary: s)
  case (Cons a issued)
  then show ?case by (cases a) (auto simp: Acquire_def)
qed simp

lemma start_gives_up: "\<not> l_leading s \<Longrightarrow> \<not> l_leading (Start issued s) \<and> l_term s \<le> l_term (Start issued s)"
  using take_leadership_term [of s issued] by (simp add: Start_def Let_def Release_def)

lemma send_stamps_term:
  "send_command (Some s) transport cmd = Inr out \<Longrightarrow> l_leading s \<and> cmd_term out = l_term s \<and> cmd_id out = cmd_id cmd"
  by (auto simp: send_command_def Let_def split: if_splits)

text \<open>
  A floor at the largest \<^verbatim>\<open>uint64\<close> wraps: the term issued is 0, which \<^verbatim>\<open>Acquire\<close> refuses, and the
  floor itself is written back as 0, so that the terms that follow start again from 1.
\<close>

lemma floor_at_maximum_wraps:
  "floor_plan (Some (with_floor (- 1) empty_lease)) 0 = Inr (with_floor 0 (with_floor (- 1) empty_lease), 0)"
  by (simp add: floor_plan_def)

end
