(* ===== verification/Fencing.thy ===== *)
theory Fencing
  imports Leadership Api
begin

text \<open>
  Assignment generations and the fencing tokens on the wire: the conversions of
  \<^verbatim>\<open>internal/command/fencing.go\<close>, the generation arithmetic of \<^verbatim>\<open>internal/executorguard\<close>, and the
  generation store of \<^verbatim>\<open>internal/controller/fencing_store.go\<close>, from which every generation of a
  namespace is drawn. Generations are \<^verbatim>\<open>int64\<close>: an integer with the wrap-around written out. Tokens
  and lease durations on the wire are words.
\<close>

subsection \<open>Conversions to and from the wire\<close>

definition FencingToken :: "int \<Rightarrow> 64 word" where
  "FencingToken generation = (if generation < 0 then 0 else word_of_int generation)"

definition GenerationFromToken :: "64 word \<Rightarrow> int \<times> bool" where
  "GenerationFromToken token = (if max_int64 < uint token then (0, False) else (uint token, True))"

text \<open>\<^verbatim>\<open>Duration.Milliseconds\<close> divides towards zero.\<close>

definition milliseconds :: "duration \<Rightarrow> int" where
  "milliseconds d = (if d < 0 then - ((- d) div 1000000) else d div 1000000)"

definition max_uint32 :: int where
  "max_uint32 = 2 ^ 32 - 1"

definition LeaseDurationMs :: "duration \<Rightarrow> 32 word" where
  "LeaseDurationMs d =
     (let ms = milliseconds d
      in if ms < 0 then 0 else if max_uint32 < ms then word_of_int max_uint32 else word_of_int ms)"

subsection \<open>Generations\<close>

definition GenerationCeiling :: int where
  "GenerationCeiling = 2 ^ 62"

definition NextGeneration :: "int \<Rightarrow> int \<Rightarrow> int" where
  "NextGeneration highWater previous = wrap64 (max highWater previous + 1)"

definition SeedGeneration :: "int \<Rightarrow> time \<Rightarrow> int" where
  "SeedGeneration highest now = max highest (wrap64 (now div 1000))"

subsection \<open>The generation store\<close>

definition annFencingHighWater :: string where
  "annFencingHighWater = ''swarmada.io/fencing-high-water''"

datatype mint_error =
    FloorUnlisted | StoreUnread | StoreUnwritten | StoreConflict
  | StoreBehind int int
  | AtCeiling int

definition storeKey :: "string \<Rightarrow> string \<Rightarrow> string \<times> string" where
  "storeKey storeNamespace ns =
     (if storeNamespace \<noteq> [] then (storeNamespace, ''fencing-tokens.'' @ ns) else (ns, ''swarmada-fencing-tokens''))"

text \<open>The highest generation this process issued in each namespace.\<close>

type_synonym generation_memory = "string \<Rightarrow> int"

definition memory_record :: "string \<Rightarrow> int \<Rightarrow> generation_memory \<Rightarrow> generation_memory" where
  "memory_record ns gen m = m(ns := max (m ns) gen)"

definition generationFloor :: "fleet_action list option \<Rightarrow> string \<Rightarrow> generation_memory \<Rightarrow> mint_error + int" where
  "generationFloor listed ns m = (case listed of
     None \<Rightarrow> Inl FloorUnlisted
   | Some as \<Rightarrow> Inr (fold (\<lambda>a highest. max highest (a_generation a)) as (m ns)))"

definition with_mark :: "int \<Rightarrow> lease \<Rightarrow> lease" where
  "with_mark gen l = l\<lparr>lease_annotations := (lease_annotations l)(annFencingHighWater \<mapsto> format_int gen)\<rparr>"

definition mark_of :: "lease \<Rightarrow> int option" where
  "mark_of l = atoi (case lease_annotations l annFencingHighWater of Some v \<Rightarrow> v | None \<Rightarrow> [])"

text \<open>
  What \<^verbatim>\<open>mintGeneration\<close> writes, from the store it read, if there was one: the object and the generation
  it issues when the write succeeds, or no generation when it only raises the store to the floor.
\<close>

definition mint_next :: "int \<Rightarrow> int \<Rightarrow> lease \<Rightarrow> mint_error + lease \<times> int option" where
  "mint_next mark previous l =
     (let next = NextGeneration mark previous
      in if GenerationCeiling < next then Inl (AtCeiling next) else Inr (with_mark next l, Some next))"

definition mint_plan :: "int \<Rightarrow> time \<Rightarrow> int \<Rightarrow> lease option \<Rightarrow> mint_error + lease \<times> int option" where
  "mint_plan flr now previous found = (case found of
     None \<Rightarrow> mint_next (SeedGeneration flr now) previous empty_lease
   | Some l \<Rightarrow> (case mark_of l of
       None \<Rightarrow> mint_next (SeedGeneration flr now) previous l
     | Some mark \<Rightarrow>
         if mark < 0 then mint_next (SeedGeneration flr now) previous l
         else if GenerationCeiling < mark then Inl (AtCeiling mark)
         else if mark < flr then Inr (with_mark flr l, None)
         else mint_next mark previous l))"

record mint_answers =
  ma_listed :: "fleet_action list option"
  ma_now :: time
  ma_store :: "lease api_read"
  ma_write :: "lease \<Rightarrow> api_write"

definition mintGeneration :: "mint_answers \<Rightarrow> fleet_action \<Rightarrow> generation_memory
    \<Rightarrow> (mint_error + int) \<times> generation_memory" where
  "mintGeneration ans a m = (case generationFloor (ma_listed ans) (a_namespace a) m of
     Inl err \<Rightarrow> (Inl err, m)
   | Inr flr \<Rightarrow> (case ma_store ans of
       ReadFailed \<Rightarrow> (Inl StoreUnread, m)
     | store \<Rightarrow>
         let found = (case store of Found l \<Rightarrow> Some l | _ \<Rightarrow> None)
         in case mint_plan flr (ma_now ans) (a_generation a) found of
             Inl err \<Rightarrow> (Inl err, m)
           | Inr (l, issued) \<Rightarrow> (case ma_write ans l of
               Conflicted \<Rightarrow> (Inl StoreConflict, m)
             | WriteFailed \<Rightarrow> (Inl StoreUnwritten, m)
             | Written \<Rightarrow> (case issued of
                 None \<Rightarrow> (Inl (StoreBehind (the (mark_of (the found))) flr), m)
               | Some gen \<Rightarrow> (Inr gen, memory_record (a_namespace a) gen m)))))"

subsection \<open>Vocabulary of the specification\<close>

text \<open>The store as a client of the counter protocol; the inputs are the floor, the clock and the action's generation.\<close>

definition mint_step :: "lease option \<Rightarrow> int \<times> time \<times> int \<Rightarrow> (lease \<times> int option) option" where
  "mint_step found i = (case i of (flr, now, previous) \<Rightarrow>
     (case mint_plan flr now previous found of Inl _ \<Rightarrow> None | Inr w \<Rightarrow> Some w))"

definition stored_mark :: "lease \<Rightarrow> int" where
  "stored_mark l = (case mark_of l of Some k \<Rightarrow> k | None \<Rightarrow> 0)"

definition mark_readable :: "lease \<Rightarrow> bool" where
  "mark_readable l \<longleftrightarrow> (\<exists>k. mark_of l = Some k \<and> 0 \<le> k \<and> k \<le> GenerationCeiling)"

text \<open>Generations and clocks within what the control plane issues: none past the ceiling, no negative one.\<close>

definition sane_inputs :: "lease option \<Rightarrow> int \<times> time \<times> int \<Rightarrow> bool" where
  "sane_inputs found i \<longleftrightarrow> (case i of (flr, now, previous) \<Rightarrow>
     0 \<le> flr \<and> flr \<le> GenerationCeiling \<and> 0 \<le> previous \<and> previous \<le> GenerationCeiling
     \<and> 0 \<le> now \<and> now div 1000 \<le> GenerationCeiling)"

subsection \<open>Lemmas\<close>

lemma mark_of_with_mark [simp]: "- (2 ^ 63) \<le> gen \<Longrightarrow> gen \<le> max_int64 \<Longrightarrow> mark_of (with_mark gen l) = Some gen"
  by (simp add: mark_of_def with_mark_def atoi_format_int)

lemma ceiling_range: "GenerationCeiling < max_int64"
  by (simp add: GenerationCeiling_def max_int64_def)

lemma next_generation:
  "- (2 ^ 63) \<le> h \<Longrightarrow> h \<le> GenerationCeiling \<Longrightarrow> - (2 ^ 63) \<le> p \<Longrightarrow> p \<le> GenerationCeiling \<Longrightarrow>
     NextGeneration h p = max h p + 1"
  unfolding NextGeneration_def using ceiling_range by (intro wrap64_id) auto

lemma seed_generation:
  "0 \<le> now \<Longrightarrow> now div 1000 \<le> GenerationCeiling \<Longrightarrow> SeedGeneration h now = max h (now div 1000)"
  unfolding SeedGeneration_def using ceiling_range by (subst wrap64_id) auto

text \<open>A generation that is issued is the mark of the object written, above both the mark it started from and the action's own.\<close>

lemma mint_next_issues:
  assumes "mint_next h p l = Inr (l', issued)" "0 \<le> h" "h \<le> GenerationCeiling" "0 \<le> p" "p \<le> GenerationCeiling"
  shows "\<exists>gen. issued = Some gen \<and> mark_of l' = Some gen \<and> h < gen \<and> p < gen \<and> gen \<le> GenerationCeiling"
  using assms ceiling_range by (auto simp: mint_next_def Let_def next_generation split: if_splits)

interpretation generations: cas_counter mint_step sane_inputs stored_mark mark_readable
proof
  fix i x v
  assume "sane_inputs None i" "mint_step None i = Some (x, v)"
  then show "mark_readable x \<and> v = Some (stored_mark x)"
    by (auto simp: sane_inputs_def mint_step_def mint_plan_def seed_generation mark_readable_def stored_mark_def
        split: prod.splits sum.splits dest!: mint_next_issues)
next
  fix y i x v
  assume a: "sane_inputs (Some y) i" "mark_readable y" "mint_step (Some y) i = Some (x, v)"
  obtain flr now previous where i: "i = (flr, now, previous)" by (rule prod_cases3)
  obtain k where k: "mark_of y = Some k" "0 \<le> k" "k \<le> GenerationCeiling" using a(2) by (auto simp: mark_readable_def)
  have plan: "mint_plan flr now previous (Some y) = Inr (x, v)"
    using a(3) i by (auto simp: mint_step_def split: sum.splits)
  show "mark_readable x \<and> (case v of None \<Rightarrow> stored_mark y \<le> stored_mark x | Some u \<Rightarrow> stored_mark y < u \<and> u = stored_mark x)"
  proof (cases "k < flr")
    case True
    then have "x = with_mark flr y" "v = None"
      using plan k by (simp_all add: mint_plan_def)
    then show ?thesis
      using a(1) i k True ceiling_range by (simp add: sane_inputs_def mark_readable_def stored_mark_def)
  next
    case False
    then have "mint_next k previous y = Inr (x, v)"
      using plan k by (simp add: mint_plan_def)
    then show ?thesis
      using mint_next_issues [of k previous y x v] a(1) i k by (auto simp: sane_inputs_def mark_readable_def stored_mark_def)
  qed
qed

lemma uint_token: "0 \<le> g \<Longrightarrow> g \<le> max_int64 \<Longrightarrow> uint (FencingToken g) = g"
  by (simp add: FencingToken_def uint_word_of_int max_int64_def)

lemma token_less: "0 \<le> g \<Longrightarrow> g < h \<Longrightarrow> h \<le> max_int64 \<Longrightarrow> FencingToken g < FencingToken h"
  by (simp add: word_less_def uint_token)

lemma lease_duration_clamped: "uint (LeaseDurationMs d) = max 0 (min max_uint32 (milliseconds d))"
  by (auto simp: LeaseDurationMs_def Let_def uint_word_of_int max_uint32_def)

lemma milliseconds_mono: "d \<le> d' \<Longrightarrow> milliseconds d \<le> milliseconds d'"
  by (auto simp: milliseconds_def zdiv_mono1 pos_imp_zdiv_nonneg_iff intro: order_trans [of _ 0])

lemma generation_floor_bounds:
  "generationFloor (Some as) ns m = Inr flr \<Longrightarrow> m ns \<le> flr \<and> (\<forall>a \<in> set as. a_generation a \<le> flr)"
proof -
  have "h \<le> fold (\<lambda>a highest. max highest (a_generation a)) as h
      \<and> (\<forall>a \<in> set as. a_generation a \<le> fold (\<lambda>a highest. max highest (a_generation a)) as h)" for h
  proof (induction as arbitrary: h)
    case (Cons b as)
    show ?case using Cons.IH [of "max h (a_generation b)"] by auto
  qed simp
  then show "generationFloor (Some as) ns m = Inr flr \<Longrightarrow> m ns \<le> flr \<and> (\<forall>a \<in> set as. a_generation a \<le> flr)"
    by (auto simp: generationFloor_def)
qed

text \<open>
  A generation that is minted is above the one the action held and every one the floor knows, and
  becomes part of the floor of this process.
\<close>

lemma minted_generation_above:
  assumes "mintGeneration ans a m = (Inr gen, m')" "generationFloor (ma_listed ans) (a_namespace a) m = Inr flr"
    and "sane_inputs None (flr, ma_now ans, a_generation a)"
  shows "a_generation a < gen \<and> flr < gen \<and> gen \<le> GenerationCeiling \<and> gen \<le> m' (a_namespace a)"
proof -
  obtain found l where plan: "mint_plan flr (ma_now ans) (a_generation a) found = Inr (l, Some gen)"
    and m': "m' = memory_record (a_namespace a) gen m"
    using assms(1,2)
    by (auto simp: mintGeneration_def Let_def split: api_read.splits sum.splits api_write.splits option.splits)
  have bounds: "0 \<le> flr" "flr \<le> GenerationCeiling" "0 \<le> a_generation a" "a_generation a \<le> GenerationCeiling"
    "0 \<le> SeedGeneration flr (ma_now ans)" "SeedGeneration flr (ma_now ans) \<le> GenerationCeiling"
    "flr \<le> SeedGeneration flr (ma_now ans)"
    using assms(3) by (auto simp: sane_inputs_def seed_generation)
  obtain h x where "mint_next h (a_generation a) x = Inr (l, Some gen)" "0 \<le> h" "h \<le> GenerationCeiling" "flr \<le> h"
    using plan bounds by (auto simp: mint_plan_def split: option.splits if_splits)
  from mint_next_issues [OF this(1-3) bounds(3,4)] this(4) show ?thesis
    by (auto simp: m' memory_record_def)
qed

subsection \<open>Properties of fencing\<close>

lemma minted: "mint_step None (5, 3000, 2) = Some (with_mark 6 empty_lease, Some 6)"
proof -
  have "wrap64 3 = 3" "wrap64 6 = 6" by (simp_all add: wrap64_def)
  then show ?thesis
    by (simp add: mint_step_def mint_plan_def mint_next_def NextGeneration_def SeedGeneration_def GenerationCeiling_def)
qed

text \<open>
  Claim C10. The fencing tokens of a namespace rise: whatever the interleaving of the processes that
  mint generations, each token issued is strictly above every one issued before it, no generation
  passes the ceiling, and the token names its generation on the way back.
\<close>

theorem fencing_tokens_rise:
  assumes "cas_reach mint_step sane_inputs obj s" "\<forall>l. obj = Some l \<longrightarrow> mark_readable l"
  shows "sorted_wrt (>) (map FencingToken (cs_issued s))
    \<and> (\<forall>g \<in> set (cs_issued s). g \<le> GenerationCeiling \<and> GenerationFromToken (FencingToken g) = (g, True))"
proof -
  have range: "\<forall>g \<in> set (cs_issued s). 0 \<le> g \<and> g \<le> GenerationCeiling"
    by (rule generations.issued_marks [OF assms]) (auto simp: mark_readable_def stored_mark_def)
  have "sorted_wrt (\<lambda>g h. FencingToken g > FencingToken h) (cs_issued s)"
  proof (rule sorted_wrt_mono_rel)
    show "sorted_wrt (>) (cs_issued s)" using generations.issued_rise [OF assms] by blast
    show "FencingToken h < FencingToken g" if "g \<in> set (cs_issued s)" "h \<in> set (cs_issued s)" "h < g" for g h
      using that range ceiling_range by (intro token_less) auto
  qed
  then show ?thesis
    using range ceiling_range by (auto simp: sorted_wrt_map GenerationFromToken_def uint_token)
qed

theorem fencing_tokens_rise_witness:
  "sorted_wrt (>) (map FencingToken (cs_issued (cas_write (0::nat) (with_mark 6 empty_lease) (Some 6)
     ((cas_init None)\<lparr>cs_read := (\<lambda>_. None)(0 := Some None)\<rparr>))))"
proof -
  have "cas_reach mint_step sane_inputs None ((cas_init None)\<lparr>cs_read := (\<lambda>_. None)(0::nat := Some None)\<rparr>)"
    using cas_reach.read [OF cas_reach.start, of mint_step sane_inputs None "0::nat"] by (simp add: cas_init_def)
  then have "cas_reach mint_step sane_inputs None (cas_write 0 (with_mark 6 empty_lease) (Some 6)
      ((cas_init None)\<lparr>cs_read := (\<lambda>_. None)(0::nat := Some None)\<rparr>))"
    by (rule cas_reach.stored [where seen = None and i = "(5, 3000, 2)"])
      (simp_all add: cas_init_def minted sane_inputs_def GenerationCeiling_def)
  from fencing_tokens_rise [OF this] show ?thesis by simp
qed



text \<open>
  An action that carries the largest generation wraps the counter: with no store yet, the generation
  minted is the smallest \<^verbatim>\<open>int64\<close>, which passes the check against the ceiling.
\<close>

lemma seeded_generation_wraps:
  "mint_plan max_int64 0 0 None = Inr (with_mark (- (2 ^ 63)) empty_lease, Some (- (2 ^ 63)))"
  by (simp add: mint_plan_def mint_next_def NextGeneration_def SeedGeneration_def wrap64_def max_int64_def
      GenerationCeiling_def)

end
