(* ===== verification/ExecutorGate.thy ===== *)
theory ExecutorGate
  imports Guard EstopScope Fencing
begin

text \<open>
  The executor gate of the FleetAction controller (\<^verbatim>\<open>internal/controller/executor_gate.go\<close>): before
  an action is given to a robot, every other robot that records it is asked to cancel it, and the
  records of those that are provably off it are released. The robots the API server holds are the
  state; the answers of its reads and writes, and those of the adapters to a cancel, are the fields
  of \<open>gate_env\<close>. Log lines and status messages are left out.
\<close>

subsection \<open>The environment of the gate\<close>

datatype cancel_disposition = CancelStoppedSafely | CancelCompleted | CancelRecovered | CancelStopUnconfirmed

type_synonym robot_store = "(string \<times> robot) list"

text \<open>
  What the environment answers: whether a read of a robot succeeds, the zones and configs of the
  namespace as they are listed, the adapter's answer to a cancel (\<open>None\<close> where it is not reached), and
  the answer to the patch of a robot's status.
\<close>

record gate_env =
  ge_readable :: "string \<Rightarrow> bool"
  ge_zones :: "fleet_zone list option"
  ge_configs :: "swarmada_config list option"
  ge_commander :: bool
  ge_cancel :: "string \<Rightarrow> 64 word \<Rightarrow> (bool \<times> cancel_disposition) option"
  ge_patch :: "string \<Rightarrow> api_write"

datatype gate_error =
    RobotUnread string
  | CoverageUnknown string scope_error
  | RecordChanged string
  | RecordUnwritten string
  | RobotsUnlisted
  | ActionUnread

subsection \<open>The recorders of an action\<close>

fun join :: "string \<Rightarrow> string list \<Rightarrow> string" where
  "join sep [] = []"
| "join sep [s] = s"
| "join sep (s # t # ss) = s @ sep @ join sep (t # ss)"

definition estop_state_string :: "robot_estop_state \<Rightarrow> string" where
  "estop_state_string s = (case s of
     EstopNormal \<Rightarrow> ''Normal'' | EstopStopping \<Rightarrow> ''Stopping'' | EstopStopped \<Rightarrow> ''Stopped''
   | EstopResuming \<Rightarrow> ''Resuming'' | EstopFailed \<Rightarrow> ''Failed'' | EstopStateOther t \<Rightarrow> t)"

definition robotUnderEstop :: "robot \<Rightarrow> bool" where
  "robotUnderEstop r =
     (if r_estop_state r \<in> {EstopStopping, EstopStopped, EstopFailed} then True else HeldOnRecord r \<noteq> None)"

definition stopCovering :: "gate_env \<Rightarrow> robot \<Rightarrow> gate_error + string" where
  "stopCovering env r = (case Covering True (ge_zones env) (ge_configs env) r of
     Inl err \<Rightarrow> Inl (CoverageUnknown (r_name r) err)
   | Inr cov \<Rightarrow>
       if Covered cov then Inr (join '', '' (Coverage_Names cov))
       else if robotUnderEstop r
       then Inr (''robot/'' @ r_name r @ '' (estopState '' @ estop_state_string (r_estop_state r) @ '')'')
       else Inr [])"

definition pushCancel :: "gate_env \<Rightarrow> fleet_action \<Rightarrow> string \<Rightarrow> bool \<times> cancel_disposition" where
  "pushCancel env a rob = (case ge_cancel env rob (FencingToken (a_generation a)) of
     None \<Rightarrow> (False, CancelStoppedSafely)
   | Some out \<Rightarrow> out)"

definition cancel_confirmed :: "gate_env \<Rightarrow> fleet_action \<Rightarrow> string \<Rightarrow> bool" where
  "cancel_confirmed env a rob = (case pushCancel env a rob of (ok, disp) \<Rightarrow> ok \<and> disp \<noteq> CancelStopUnconfirmed)"

definition recorder_of :: "gate_env \<Rightarrow> fleet_action \<Rightarrow> bool \<Rightarrow> robot \<Rightarrow> gate_error + recorder" where
  "recorder_of env a moveAuthorized rb = (case stopCovering env rb of
     Inl err \<Rightarrow> Inl err
   | Inr covered \<Rightarrow> Inr
       \<lparr>rc_robot = r_name rb,
        rc_cancel_confirmed = (ge_commander env \<and> \<not> KeepsRecord covered moveAuthorized \<and> cancel_confirmed env a (r_name rb)),
        rc_ended = False, rc_covered = covered\<rparr>)"

text \<open>The loop over the robots as they were listed; each is read again.\<close>

fun gate_recorders :: "gate_env \<Rightarrow> fleet_action \<Rightarrow> bool \<Rightarrow> robot_store \<Rightarrow> robot list \<Rightarrow> gate_error + recorder list" where
  "gate_recorders env a moveAuthorized store [] = Inr []"
| "gate_recorders env a moveAuthorized store (rb # rbs) =
     (if r_assigned_action rb \<noteq> a_name a \<or> r_name rb = a_assigned_robot a
      then gate_recorders env a moveAuthorized store rbs
      else if \<not> ge_readable env (r_name rb) then Inl (RobotUnread (r_name rb))
      else case map_of store (r_name rb) of
          None \<Rightarrow> gate_recorders env a moveAuthorized store rbs
        | Some live \<Rightarrow>
            if r_assigned_action live \<noteq> a_name a then gate_recorders env a moveAuthorized store rbs
            else case recorder_of env a moveAuthorized live of
                Inl err \<Rightarrow> Inl err
              | Inr rec \<Rightarrow> (case gate_recorders env a moveAuthorized store rbs of
                  Inl err \<Rightarrow> Inl err
                | Inr recs \<Rightarrow> Inr (rec # recs)))"

subsection \<open>Releasing records\<close>

definition released :: "robot \<Rightarrow> robot" where
  "released r = r\<lparr>r_assigned_action := [],
     r_phase := (if r_phase r = RobotInProgress \<or> r_phase r = RobotAssigned then RobotIdle else r_phase r)\<rparr>"

definition releaseRecord :: "gate_env \<Rightarrow> fleet_action \<Rightarrow> string \<Rightarrow> robot_store \<Rightarrow> gate_error option \<times> robot_store" where
  "releaseRecord env a rob store =
     (if \<not> ge_readable env rob then (Some (RobotUnread rob), store)
      else case map_of store rob of
          None \<Rightarrow> (None, store)
        | Some r \<Rightarrow>
            if r_assigned_action r \<noteq> a_name a then (None, store)
            else case ge_patch env rob of
                Written \<Rightarrow> (None, put rob (released r) store)
              | Conflicted \<Rightarrow> (Some (RecordChanged rob), store)
              | WriteFailed \<Rightarrow> (Some (RecordUnwritten rob), store))"

fun release_records :: "gate_env \<Rightarrow> fleet_action \<Rightarrow> string list \<Rightarrow> robot_store \<Rightarrow> gate_error option \<times> robot_store" where
  "release_records env a [] store = (None, store)"
| "release_records env a (rob # robs) store = (case releaseRecord env a rob store of
     (Some err, store') \<Rightarrow> (Some err, store')
   | (None, store') \<Rightarrow> release_records env a robs store')"

definition gate_input :: "fleet_action \<Rightarrow> recorder list \<Rightarrow> time \<Rightarrow> duration \<Rightarrow> bool \<Rightarrow> guard_input" where
  "gate_input a recs now skew moveAuthorized =
     \<lparr>in_horizon = a_lease_expires a, in_reference = ReferenceOf a, in_recorders = recs, in_now = now, in_skew = skew,
      in_move_authorized = moveAuthorized, in_action_gone = False\<rparr>"

definition executorGate :: "gate_env \<Rightarrow> fleet_action \<Rightarrow> robot list \<Rightarrow> time \<Rightarrow> duration \<Rightarrow> bool \<Rightarrow> robot_store
    \<Rightarrow> (gate_error + decision) \<times> robot_store" where
  "executorGate env a robots now skew moveAuthorized store =
     (case gate_recorders env a moveAuthorized store robots of
        Inl err \<Rightarrow> (Inl err, store)
      | Inr recs \<Rightarrow>
          if recs = [] then (Inr no_decision, store)
          else let d = Decide (gate_input a recs now skew moveAuthorized)
               in case release_records env a (d_release d) store of
                   (Some err, store') \<Rightarrow> (Inl err, store')
                 | (None, store') \<Rightarrow> (Inr d, store'))"

text \<open>The gate over every robot of the namespace; \<open>listed\<close> tells whether the list succeeded.\<close>

definition recordersDecision :: "gate_env \<Rightarrow> bool \<Rightarrow> fleet_action \<Rightarrow> time \<Rightarrow> duration \<Rightarrow> bool \<Rightarrow> robot_store
    \<Rightarrow> (gate_error + decision) \<times> robot_store" where
  "recordersDecision env listed a now skew moveAuthorized store =
     (if \<not> listed then (Inl RobotsUnlisted, store)
      else executorGate env a (map snd store) now skew moveAuthorized store)"

definition releaseRecorders :: "gate_env \<Rightarrow> bool \<Rightarrow> fleet_action \<Rightarrow> time \<Rightarrow> duration \<Rightarrow> robot_store
    \<Rightarrow> (gate_error + duration \<times> string \<times> guard_reason) \<times> robot_store" where
  "releaseRecorders env listed a now skew store =
     (case recordersDecision env listed a now skew False store of
        (Inl err, store') \<Rightarrow> (Inl err, store')
      | (Inr d, store') \<Rightarrow> (Inr (d_wait d, d_blocked d, d_why d), store'))"

subsection \<open>Records of deleted actions\<close>

text \<open>\<^verbatim>\<open>orphanClock\<close>: when this process first saw each action gone while a robot still recorded it.\<close>

type_synonym orphan_clock = "(string \<times> string) \<rightharpoonup> time"

definition clock_since :: "string \<times> string \<Rightarrow> time \<Rightarrow> orphan_clock \<Rightarrow> time \<times> orphan_clock" where
  "clock_since key now c = (case c key of Some t \<Rightarrow> (t, c) | None \<Rightarrow> (now, c(key \<mapsto> now)))"

definition clock_forget :: "string \<times> string \<Rightarrow> orphan_clock \<Rightarrow> orphan_clock" where
  "clock_forget key c = c(key := None)"

definition gone_action :: "string \<Rightarrow> string \<Rightarrow> time \<Rightarrow> fleet_action" where
  "gone_action ns name created = \<lparr>a_namespace = ns, a_name = name, a_owners = [], a_executor = None, a_required = [],
     a_constraints = [], a_accept_degraded = None, a_zone = [], a_min_battery = None, a_robot_selector = [],
     a_preferred_robot = [], a_preferred_manufacturer = [], a_on_failure = [], a_max_retries = None, a_created = created, a_phase = PhaseOther [],
     a_assigned_robot = [], a_generation = 0, a_scheduled_at = None, a_retry_count = 0,
     a_lease_expires = None, a_pending_since = None, a_completion = None,
     a_failed_at = None, a_conditions = []\<rparr>"

datatype orphan_result = RequeueNow | OrphansSettled | RequeueAfter duration

definition releaseOrphanedRecords :: "gate_env \<Rightarrow> fleet_action api_read \<Rightarrow> bool \<Rightarrow> string \<Rightarrow> string \<Rightarrow> time \<Rightarrow> duration
    \<Rightarrow> orphan_clock \<Rightarrow> robot_store \<Rightarrow> (gate_error + orphan_result) \<times> orphan_clock \<times> robot_store" where
  "releaseOrphanedRecords env action listed ns name now skew clock store = (case action of
     Found _ \<Rightarrow> (Inr RequeueNow, clock, store)
   | ReadFailed \<Rightarrow> (Inl ActionUnread, clock, store)
   | NotFound \<Rightarrow>
       if \<not> listed then (Inl RobotsUnlisted, clock, store)
       else if \<not> list_ex (\<lambda>(n, r). r_assigned_action r = name) store
       then (Inr OrphansSettled, clock_forget (ns, name) clock, store)
       else case clock_since (ns, name) now clock of (since, clock') \<Rightarrow>
         (case executorGate env (gone_action ns name since) (map snd store) now skew False store of
            (Inl err, store') \<Rightarrow> (Inl err, clock', store')
          | (Inr d, store') \<Rightarrow>
              if 0 < d_wait d then (Inr (RequeueAfter (d_wait d)), clock', store')
              else (Inr OrphansSettled, clock_forget (ns, name) clock', store')))"

text \<open>
  What the API server keeps of its objects: an object is stored under its own, non-empty name.
\<close>

definition store_wf :: "robot_store \<Rightarrow> bool" where
  "store_wf store \<longleftrightarrow> distinct (keys store) \<and> (\<forall>n r. map_of store n = Some r \<longrightarrow> n \<noteq> [] \<and> r_name r = n)"

text \<open>
  The proof the gate needs before it takes the record of the action off a robot: no stop covers the
  robot, unless the move is authorized, and its adapter confirmed the cancel or the lease is dead.
\<close>

definition release_proof :: "gate_env \<Rightarrow> fleet_action \<Rightarrow> time \<Rightarrow> duration \<Rightarrow> bool \<Rightarrow> robot \<Rightarrow> bool" where
  "release_proof env a now skew moveAuthorized r \<longleftrightarrow>
     (stopCovering env r = Inr [] \<or> moveAuthorized)
     \<and> (ge_commander env \<and> cancel_confirmed env a (r_name r) \<or> Dead (gate_input a [] now skew moveAuthorized) \<le> now)"

definition calm_env :: gate_env where
  "calm_env = \<lparr>ge_readable = (\<lambda>_. True), ge_zones = Some [], ge_configs = Some [], ge_commander = True,
     ge_cancel = (\<lambda>_ _. Some (True, CancelStoppedSafely)), ge_patch = (\<lambda>_. Written)\<rparr>"

subsection \<open>Lemmas\<close>

subsection \<open>Lemmas\<close>

lemma gate_input_Dead: "Dead (gate_input a recs now skew mv) = Dead (gate_input a [] now skew mv)"
  by (simp add: gate_input_def Dead_def split: option.split)

lemma recorder_of_name: "recorder_of env a mv r = Inr rec \<Longrightarrow> rc_robot rec = r_name r"
  by (auto simp: recorder_of_def split: sum.splits)

lemma recorder_of_proof:
  assumes "recorder_of env a mv r = Inr rec" "provably_off (gate_input a recs now skew mv) rec"
  shows "release_proof env a now skew mv r"
  using assms gate_input_Dead [of a recs now skew mv]
  by (auto simp: recorder_of_def release_proof_def provably_off_def gate_input_def split: sum.splits)

lemma gate_recorders_sound:
  assumes "gate_recorders env a mv store robots = Inr recs" "store_wf store" "rec \<in> set recs"
  shows "\<exists>live. map_of store (rc_robot rec) = Some live \<and> r_assigned_action live = a_name a
    \<and> recorder_of env a mv live = Inr rec \<and> rc_robot rec \<noteq> a_assigned_robot a \<and> rc_robot rec \<noteq> []"
  using assms
proof (induction robots arbitrary: recs)
  case (Cons rb rbs)
  show ?case
  proof (cases "r_assigned_action rb \<noteq> a_name a \<or> r_name rb = a_assigned_robot a")
    case False
    then show ?thesis
      using Cons recorder_of_name
      by (auto simp: store_wf_def split: if_splits option.splits sum.splits)
  qed (use Cons in simp)
qed simp

lemma gate_recorders_complete:
  assumes "gate_recorders env a mv store robots = Inr recs" "store_wf store" "rb \<in> set robots"
    and "r_assigned_action rb = a_name a" "r_name rb \<noteq> a_assigned_robot a"
    and "map_of store (r_name rb) = Some live" "r_assigned_action live = a_name a"
  shows "\<exists>rec \<in> set recs. rc_robot rec = r_name rb"
  using assms
proof (induction robots arbitrary: recs)
  case (Cons rb' rbs)
  show ?case
  proof (cases "rb = rb'")
    case True
    moreover have "r_name live = r_name rb" using Cons.prems(2,6) by (simp add: store_wf_def)
    ultimately show ?thesis
      using Cons.prems(1,4-7) recorder_of_name by (auto split: if_splits sum.splits)
  next
    case False
    then have "rb \<in> set rbs" using Cons.prems(3) by simp
    then show ?thesis
      using Cons.IH Cons.prems(1,2,4-7) by (auto split: if_splits option.splits sum.splits)
  qed
qed simp

lemma releaseRecord_result:
  assumes "releaseRecord env a rob store = (err, store')"
  shows "store' = store \<and> (err = None \<longrightarrow> (\<forall>r. map_of store rob = Some r \<longrightarrow> r_assigned_action r \<noteq> a_name a))
    \<or> (\<exists>r. map_of store rob = Some r \<and> r_assigned_action r = a_name a \<and> err = None \<and> store' = put rob (released r) store)"
  using assms by (auto simp: releaseRecord_def split: if_splits option.splits api_write.splits)

lemma released_assigned [simp]: "r_assigned_action (released r) = []" "r_name (released r) = r_name r"
  by (simp_all add: released_def)

lemma release_records_changes:
  assumes "release_records env a robs store = (err, store')" "a_name a \<noteq> []"
  shows "map_of store' n = map_of store n
    \<or> n \<in> set robs \<and> (\<exists>r. map_of store n = Some r \<and> r_assigned_action r = a_name a \<and> map_of store' n = Some (released r))"
  using assms(1)
proof (induction robs arbitrary: store)
  case (Cons rob robs)
  obtain e mid where m: "releaseRecord env a rob store = (e, mid)" by fastforce
  show ?case
  proof (cases e)
    case (Some x)
    then show ?thesis using Cons.prems m releaseRecord_result [OF m] by auto
  next
    case None
    then have rest: "release_records env a robs mid = (err, store')" using Cons.prems m by simp
    show ?thesis
      using releaseRecord_result [OF m] Cons.IH [OF rest] assms(2) by (auto split: if_splits)
  qed
qed simp

lemma release_records_done:
  assumes "release_records env a robs store = (None, store')" "a_name a \<noteq> []" "n \<in> set robs" "map_of store' n = Some r"
  shows "r_assigned_action r \<noteq> a_name a"
  using assms(1,3)
proof (induction robs arbitrary: store)
  case (Cons rob robs)
  obtain e mid where m: "releaseRecord env a rob store = (e, mid)" by fastforce
  have e: "e = None" and rest: "release_records env a robs mid = (None, store')"
    using Cons.prems(1) m by (auto split: option.splits)
  show ?case
  proof (cases "n \<in> set robs")
    case True
    then show ?thesis using Cons.IH [OF rest] by simp
  next
    case False
    then have "map_of store' n = map_of mid n" using release_records_changes [OF rest assms(2)] by blast
    moreover have "n = rob" using False Cons.prems(2) by simp
    ultimately show ?thesis using releaseRecord_result [OF m] e assms(2,4) by auto
  qed
qed simp

text \<open>The decision of the guard over the recorders the gate collected.\<close>

lemma gate_decision:
  assumes "gate_recorders env a mv store robots = Inr recs" "store_wf store"
    and inp: "inp = gate_input a recs now skew mv"
  shows "d_release (Decide inp) = map rc_robot (filter (provably_off inp) recs)"
    "Dispatchable (Decide inp) \<longleftrightarrow> (\<forall>rec \<in> set recs. provably_off inp rec)"
proof -
  have named: "\<forall>r \<in> set recs. rc_robot r \<noteq> []"
    using gate_recorders_sound [OF assms(1,2)] by blast
  have "in_recorders inp = recs" by (simp add: inp gate_input_def)
  moreover have "(case filter (\<lambda>r. \<not> provably_off inp r) recs of [] \<Rightarrow> [] | r # _ \<Rightarrow> rc_robot r) = []
      \<longleftrightarrow> (\<forall>rec \<in> set recs. provably_off inp rec)"
    using named by (auto simp: filter_empty_conv filter_eq_Cons_iff split: list.splits)
  ultimately show "d_release (Decide inp) = map rc_robot (filter (provably_off inp) recs)"
    "Dispatchable (Decide inp) \<longleftrightarrow> (\<forall>rec \<in> set recs. provably_off inp rec)"
    using decide_fold [OF named, of inp no_decision]
    by (simp_all add: Decide_def no_decision_def Dispatchable_def)
qed

lemma executorGate_cases:
  assumes "executorGate env a robots now skew mv store = (res, store')"
  shows "(\<exists>err. gate_recorders env a mv store robots = Inl err \<and> res = Inl err \<and> store' = store)
    \<or> gate_recorders env a mv store robots = Inr [] \<and> res = Inr no_decision \<and> store' = store
    \<or> (\<exists>recs e. gate_recorders env a mv store robots = Inr recs \<and> recs \<noteq> []
        \<and> release_records env a (d_release (Decide (gate_input a recs now skew mv))) store = (e, store')
        \<and> res = (case e of None \<Rightarrow> Inr (Decide (gate_input a recs now skew mv)) | Some err \<Rightarrow> Inl err))"
  using assms by (auto simp: executorGate_def Let_def split: sum.splits if_splits prod.splits option.splits)

lemma executorGate_changes:
  assumes "executorGate env a robots now skew mv store = (res, store')" "store_wf store" "a_name a \<noteq> []"
  shows "map_of store' n = map_of store n
    \<or> n \<noteq> a_assigned_robot a \<and> (\<exists>r. map_of store n = Some r \<and> r_assigned_action r = a_name a
        \<and> release_proof env a now skew mv r \<and> map_of store' n = Some (released r))"
  using executorGate_cases [OF assms(1)]
proof (elim disjE exE conjE)
  fix recs e
  assume recs: "gate_recorders env a mv store robots = Inr recs"
    and rel: "release_records env a (d_release (Decide (gate_input a recs now skew mv))) store = (e, store')"
  show ?thesis
  proof (cases "map_of store' n = map_of store n")
    case False
    then obtain r where n: "n \<in> set (d_release (Decide (gate_input a recs now skew mv)))" "map_of store n = Some r"
      "r_assigned_action r = a_name a" "map_of store' n = Some (released r)"
      using release_records_changes [OF rel assms(3)] by blast
    then obtain rec where rec: "rec \<in> set recs" "provably_off (gate_input a recs now skew mv) rec" "rc_robot rec = n"
      using gate_decision(1) [OF recs assms(2) refl] by auto
    have "recorder_of env a mv r = Inr rec" "n \<noteq> a_assigned_robot a"
      using gate_recorders_sound [OF recs assms(2) rec(1)] rec(3) n(2) by auto
    then show ?thesis using recorder_of_proof rec(2) n by blast
  qed simp
qed simp_all

lemma executorGate_dispatchable:
  assumes "executorGate env a (map snd store) now skew mv store = (Inr d, store')" "store_wf store" "a_name a \<noteq> []"
    and "Dispatchable d" "map_of store' n = Some r" "r_assigned_action r = a_name a"
  shows "n = a_assigned_robot a"
proof (rule ccontr)
  assume other: "n \<noteq> a_assigned_robot a"
  have live: "map_of store n = Some r"
    using executorGate_changes [OF assms(1-3), of n] assms(3,5,6) by auto
  then have rb: "r \<in> set (map snd store)" "r_name r = n"
    using assms(2) by (auto simp: store_wf_def dest: map_of_SomeD intro: rev_image_eqI)
  have "\<exists>recs. gate_recorders env a mv store (map snd store) = Inr recs"
    using executorGate_cases [OF assms(1)] by auto
  then obtain recs where recs: "gate_recorders env a mv store (map snd store) = Inr recs" ..
  obtain rec where rec: "rec \<in> set recs" "rc_robot rec = n"
    using gate_recorders_complete [OF recs assms(2) rb(1)] assms(6) other live rb(2) by auto
  have d: "d = Decide (gate_input a recs now skew mv)"
    and rel: "release_records env a (d_release d) store = (None, store')"
    using executorGate_cases [OF assms(1)] recs rec(1) by (auto split: option.splits)
  have "n \<in> set (d_release d)"
    using gate_decision [OF recs assms(2) refl] assms(4) rec d by auto
  then show False using release_records_done [OF rel assms(3) _ assms(5)] assms(6) by simp
qed

text \<open>
  The clock of a deleted action does not move while the action's record is not settled, whatever the
  API server and the adapters answer.
\<close>

lemma orphan_clock_keeps:
  assumes "releaseOrphanedRecords env action listed ns name now skew clock store = (res, clock', store')"
    and "clock (ns, name) = Some since" "res \<noteq> Inr OrphansSettled"
  shows "clock' (ns, name) = Some since"
  using assms
  by (auto simp: releaseOrphanedRecords_def clock_since_def split: api_read.splits if_splits sum.splits prod.splits)

lemma stopCovering_recorder:
  "stopCovering env r = Inr [] \<Longrightarrow> \<exists>rec. recorder_of env a mv r = Inr rec \<and> rc_covered rec = []"
  by (simp add: recorder_of_def)

lemma gate_recorders_answers:
  assumes "\<forall>n. ge_readable env n"
    and "\<forall>n r. map_of store n = Some r \<and> r_assigned_action r = a_name a \<longrightarrow> stopCovering env r = Inr []"
  shows "\<exists>recs. gate_recorders env a mv store robots = Inr recs \<and> (\<forall>rec \<in> set recs. rc_covered rec = [])"
proof (induction robots)
  case (Cons rb rbs)
  then obtain recs where recs: "gate_recorders env a mv store rbs = Inr recs" "\<forall>rec \<in> set recs. rc_covered rec = []"
    by blast
  show ?case
  proof (cases "map_of store (r_name rb)")
    case None
    then show ?thesis using recs assms(1) by simp
  next
    case (Some live)
    show ?thesis
    proof (cases "r_assigned_action live = a_name a")
      case True
      then obtain rec where "recorder_of env a mv live = Inr rec" "rc_covered rec = []"
        using stopCovering_recorder assms(2) Some by blast
      then show ?thesis using recs assms(1) Some by simp
    qed (use recs assms(1) Some in simp)
  qed
qed simp

lemma release_records_answers:
  assumes "\<forall>n. ge_readable env n" "\<forall>n. ge_patch env n = Written"
  shows "\<exists>store'. release_records env a robs store = (None, store')"
proof (induction robs arbitrary: store)
  case (Cons rob robs)
  have "\<exists>mid. releaseRecord env a rob store = (None, mid)"
    using assms by (simp add: releaseRecord_def split: option.split)
  then show ?case using Cons by auto
qed simp

lemma gone_action_dead:
  assumes "zero_time < since" "0 \<le> skew" "skew \<le> MaxSkew"
  shows "Dead (gate_input (gone_action ns name since) recs now skew False) = since + MaxLease + skew"
  using assms skew_sum [of skew]
  by (simp add: gate_input_def gone_action_def Dead_def ReferenceOf_def Latest_def)

lemma calm_stopCovering:
  "stopCovering calm_env ((sample_robot n b)\<lparr>r_assigned_action := act\<rparr>) = Inr []"
  by (simp add: stopCovering_def calm_env_def Covering_def ReadWorld_def CoverageOf_def CoveringAt_def Reaching_def Zone_def
      TreeOf_def own_trigger_def Covered_def robotUnderEstop_def HeldOnRecord_def sample_robot_def Let_def)

lemma decide_wait_zero:
  "\<forall>r \<in> set rs. provably_off inp r \<Longrightarrow> d_wait (fold (decide_one inp) rs d) = d_wait d"
proof (induction rs arbitrary: d)
  case (Cons r rs)
  have "d_wait (decide_one inp r d) = d_wait d"
    using Cons.prems by (auto simp: decide_one_def provably_off_def KeepsRecord_def Let_def)
  then show ?case using Cons by simp
qed simp

subsection \<open>Properties of the gate\<close>





end
