(* ===== verification/StopState.thy ===== *)
theory StopState
  imports EstopScope Leadership Contract
begin

text \<open>
  The state of a robot's emergency stop and its one writer, the estop dispatcher
  (\<^verbatim>\<open>internal/safety\<close>: the state writes, the clear and the resume of \<^verbatim>\<open>dispatcher.go\<close>, \<^verbatim>\<open>clear.go\<close>
  and \<^verbatim>\<open>clear_work.go\<close>, and \<^verbatim>\<open>held.go\<close>). A critical section under the robot's write lock is one function. What it
  finds there (the Robot it reads, the ordering record, the stops this process sent, the answer to
  its patch) is an argument, because other goroutines and clients run between two sections. Epochs
  count the estop events of one robot and are natural numbers. Messages are constructors; events,
  metrics and log lines are left out.
\<close>

subsection \<open>The ordering record of a robot\<close>

record estop_order =
  o_issued :: nat
  o_last_stop :: nat
  o_last_clear :: nat
  o_stopped_by :: nat
  o_resume_armed :: bool
  o_resume_since :: time
  o_resume_adopted :: bool

definition new_order :: estop_order where
  "new_order = \<lparr>o_issued = 0, o_last_stop = 0, o_last_clear = 0, o_stopped_by = 0, o_resume_armed = False,
     o_resume_since = zero_time, o_resume_adopted = False\<rparr>"

definition issueEstopEpoch :: "bool \<Rightarrow> estop_order \<Rightarrow> nat \<times> estop_order" where
  "issueEstopEpoch isStop o1 =
     (let e = o_issued o1 + 1; o2 = o1\<lparr>o_issued := e\<rparr> in (e, if isStop then o2\<lparr>o_last_stop := e\<rparr> else o2))"

definition issueClearEpoch :: "estop_order \<Rightarrow> nat \<times> estop_order" where
  "issueClearEpoch o1 = (let e = o_issued o1 + 1 in (e, o1\<lparr>o_issued := e, o_last_clear := e\<rparr>))"

definition isEstopRelease :: "robot_estop_state \<Rightarrow> bool" where
  "isEstopRelease s = (s = EstopNormal \<or> s = EstopResuming)"

definition supersededByLaterStop :: "estop_order \<Rightarrow> nat \<Rightarrow> bool" where
  "supersededByLaterStop o1 epoch = (epoch < o_last_stop o1)"

definition armResumeWindow :: "time \<Rightarrow> estop_order \<Rightarrow> estop_order" where
  "armResumeWindow baseline o1 = o1\<lparr>o_resume_armed := True, o_resume_since := baseline, o_resume_adopted := False\<rparr>"

definition adoptResumeWindow :: "estop_order \<Rightarrow> estop_order" where
  "adoptResumeWindow o1 =
     (if o_resume_armed o1 then o1
      else o1\<lparr>o_resume_armed := True, o_resume_since := zero_time, o_resume_adopted := True\<rparr>)"

definition disarmResumeWindow :: "estop_order \<Rightarrow> estop_order" where
  "disarmResumeWindow o1 = o1\<lparr>o_resume_armed := False, o_resume_since := zero_time\<rparr>"

subsection \<open>Writing the state\<close>

definition activeCapabilities :: "capability_entry list \<Rightarrow> capability_entry list \<Rightarrow> string list" where
  "activeCapabilities stored derived =
     sort (remdups (map cap_name (filter (\<lambda>c. cap_status c = CapActive) (stored @ derived))))"

text \<open>
  What one attempt of a state write finds under the robot's write lock. \<open>wv_unrecorded\<close> tells whether
  this process sent a stop that is not recorded and no clear ended, \<open>wv_held\<close> the stops in force for
  the robot's AssignActions, \<open>wv_derive\<close> the capability derivation, if one is configured.
\<close>

record write_view =
  wv_order :: estop_order
  wv_stored :: "robot option"
  wv_unrecorded :: bool
  wv_held :: "string list"
  wv_derive :: "(robot \<Rightarrow> capability_entry list) option"
  wv_clock :: time
  wv_patch :: api_write
  wv_leading :: bool
  wv_alive :: bool

datatype in_force = ByRecord holder | ByStop string | ByUnrecorded | ByFence "string list"

definition stopInForce :: "write_view \<Rightarrow> robot \<Rightarrow> in_force option" where
  "stopInForce v stored = (case HeldOnRecord stored of
     Some h \<Rightarrow> Some (ByRecord h)
   | None \<Rightarrow> (case find (\<lambda>st. stop_cleared_at st = None) (r_stops stored) of
       Some st \<Rightarrow> Some (ByStop (stop_id st))
     | None \<Rightarrow> if wv_unrecorded v then Some ByUnrecorded
         else if wv_held v \<noteq> [] then Some (ByFence (wv_held v)) else None))"

definition in_episode :: "robot_estop_state \<Rightarrow> bool" where
  "in_episode s = (s \<noteq> EstopStateOther [] \<and> s \<noteq> EstopNormal)"

definition next_robot :: "write_view \<Rightarrow> robot_estop_state \<Rightarrow> robot \<Rightarrow> robot" where
  "next_robot v s base =
     (let stored = base\<lparr>r_estop_state := s\<rparr>
      in if s = EstopNormal then stored\<lparr>r_estop_baseline := None\<rparr>
         else if \<not> isEstopRelease s \<and> r_estop_baseline base = None \<and> \<not> in_episode (r_estop_state base)
         then stored\<lparr>r_estop_baseline := Some
                \<lparr>bl_active = activeCapabilities (r_capabilities stored)
                   (case wv_derive v of None \<Rightarrow> [] | Some f \<Rightarrow> f stored),
                 bl_recorded_at = wv_clock v\<rparr>\<rparr>
         else stored)"

datatype write_error = WriteConflict | WriteRefused

text \<open>
  What an attempt leaves: whether it wrote, its error, the caller's copy of the Robot, the ordering
  record, and the Robot the API server holds where the patch landed.
\<close>

record write_result =
  wr_written :: bool
  wr_error :: "write_error option"
  wr_copy :: robot
  wr_order :: estop_order
  wr_patched :: "robot option"

definition unwritten :: "robot \<Rightarrow> estop_order \<Rightarrow> write_result" where
  "unwritten copy o1 = \<lparr>wr_written = False, wr_error = None, wr_copy = copy, wr_order = o1, wr_patched = None\<rparr>"

definition writeEstopStateOnce :: "write_view \<Rightarrow> robot \<Rightarrow> robot_estop_state \<Rightarrow> nat \<Rightarrow> write_result" where
  "writeEstopStateOnce v copy s epoch =
     (let o1 = wv_order v; stored = (case wv_stored v of Some r \<Rightarrow> r | None \<Rightarrow> copy);
          keep = copy\<lparr>r_estop_state := r_estop_state stored\<rparr>
      in if s = EstopNormal \<and> r_estop_state stored \<noteq> EstopResuming then unwritten keep o1
         else if s = EstopNormal \<and> stopInForce v stored \<noteq> None then unwritten keep o1
         else if r_estop_state stored = s
         then unwritten (copy\<lparr>r_estop_state := s\<rparr>) (if s = EstopStopped then o1\<lparr>o_stopped_by := epoch\<rparr> else o1)
         else let nxt = next_robot v s stored
              in case wv_patch v of
                  Conflicted \<Rightarrow> (unwritten copy o1)\<lparr>wr_error := Some WriteConflict\<rparr>
                | WriteFailed \<Rightarrow> (unwritten copy o1)\<lparr>wr_error := Some WriteRefused\<rparr>
                | Written \<Rightarrow>
                    \<lparr>wr_written = True, wr_error = None,
                     wr_copy = copy\<lparr>r_estop_state := s, r_estop_baseline := r_estop_baseline nxt\<rparr>,
                     wr_order = o1\<lparr>o_stopped_by := (if s = EstopStopped then epoch else 0)\<rparr>,
                     wr_patched = Some nxt\<rparr>)"

text \<open>
  The retry loop: \<open>views k\<close> is what attempt \<open>k\<close> finds, and \<open>n\<close> more attempts may follow. The write lock
  is given up between two attempts.
\<close>

fun write_from :: "(nat \<Rightarrow> write_view) \<Rightarrow> robot \<Rightarrow> robot_estop_state \<Rightarrow> nat \<Rightarrow> nat \<Rightarrow> nat \<Rightarrow> write_result" where
  "write_from views copy s epoch k 0 = writeEstopStateOnce (views k) copy s epoch"
| "write_from views copy s epoch k (Suc n) =
     (let res = writeEstopStateOnce (views k) copy s epoch
      in if wr_error res \<noteq> Some WriteConflict then res
         else if \<not> isEstopRelease s \<and> (\<not> wv_leading (views k) \<or> \<not> wv_alive (views k)) then res
         else write_from views copy s epoch (Suc k) n)"

definition write_retries :: "robot_estop_state \<Rightarrow> nat" where
  "write_retries s = (if isEstopRelease s then 4 else 29)"

definition writeEstopState :: "(nat \<Rightarrow> write_view) \<Rightarrow> robot \<Rightarrow> robot_estop_state \<Rightarrow> nat \<Rightarrow> write_result" where
  "writeEstopState views copy s epoch =
     (let o1 = wv_order (views 0)
      in if isEstopRelease s \<and> supersededByLaterStop o1 epoch then unwritten copy o1
         else if \<not> isEstopRelease s \<and> epoch < o_stopped_by o1 then unwritten copy o1
         else write_from views copy s epoch 0 (write_retries s))"

definition setEstopState :: "bool \<Rightarrow> (nat \<Rightarrow> write_view) \<Rightarrow> robot \<Rightarrow> robot_estop_state \<Rightarrow> nat \<Rightarrow> bool" where
  "setEstopState leading views copy s epoch = (leading \<and> wr_written (writeEstopState views copy s epoch))"

datatype trigger_error =
    RobotLookup | ErrUndelivered | SendFailure | ContextEnded | ErrStateUnwritten robot_estop_state
  | Joined trigger_error trigger_error

definition recordOutcome :: "bool \<Rightarrow> (nat \<Rightarrow> write_view) \<Rightarrow> robot \<Rightarrow> robot_estop_state \<Rightarrow> nat \<Rightarrow> trigger_error option" where
  "recordOutcome leading views copy s epoch =
     (if \<not> leading then None
      else case wr_error (writeEstopState views copy s epoch) of
          None \<Rightarrow> None | Some _ \<Rightarrow> Some (ErrStateUnwritten s))"

definition joinUnwritten :: "trigger_error \<Rightarrow> trigger_error option \<Rightarrow> trigger_error" where
  "joinUnwritten delivery w = (case w of None \<Rightarrow> delivery | Some e \<Rightarrow> Joined delivery e)"

subsection \<open>Awaiting the adapter's answer\<close>

datatype ack_state = AckUnspecified | AckStopping | AckStopped | AckFailed

datatype window_end = WindowEnds | ContextDone

record estop_result =
  res_delivered :: bool
  res_confirmed :: bool
  res_state :: "robot_estop_state option"
  res_latency :: duration
  res_violation :: bool

definition no_result :: estop_result where
  "no_result = \<lparr>res_delivered = False, res_confirmed = False, res_state = None, res_latency = 0, res_violation = False\<rparr>"

text \<open>
  The answers that arrive within a window, in order, and how the window ends where none of them
  resolves the stop. \<open>record\<close> is the write of an outcome (\<open>recordOutcome\<close>); the states a wait writes are
  listed in the order they are written.
\<close>

type_synonym await_outcome = "estop_result \<times> trigger_error option \<times> robot_estop_state list"

fun awaitConfirmation :: "(robot_estop_state \<Rightarrow> trigger_error option) \<Rightarrow> ack_state list \<Rightarrow> window_end \<Rightarrow> estop_result \<Rightarrow> await_outcome" where
  "awaitConfirmation record [] WindowEnds res = (res\<lparr>res_state := Some EstopFailed\<rparr>, record EstopFailed, [EstopFailed])"
| "awaitConfirmation record [] ContextDone res = (res, Some ContextEnded, [])"
| "awaitConfirmation record (a # as) wend res = (case a of
     AckStopped \<Rightarrow> (res\<lparr>res_confirmed := True, res_state := Some EstopStopped\<rparr>, record EstopStopped, [EstopStopped])
   | AckFailed \<Rightarrow> (res\<lparr>res_state := Some EstopFailed\<rparr>, record EstopFailed, [EstopFailed])
   | _ \<Rightarrow> awaitConfirmation record as wend res)"

definition slaThreshold :: duration where
  "slaThreshold = 500000000"

text \<open>
  The delivery window: the first answer with its latency, or how the window ended without one. A first
  answer that resolves nothing starts the confirmation window, whose answers are \<open>acks\<close>.
\<close>

definition await :: "(robot_estop_state \<Rightarrow> trigger_error option) \<Rightarrow> (ack_state \<times> duration) option \<Rightarrow> window_end
    \<Rightarrow> ack_state list \<Rightarrow> window_end \<Rightarrow> await_outcome" where
  "await record first dend acks cend = (case first of
     None \<Rightarrow> (case dend of
         WindowEnds \<Rightarrow> (no_result\<lparr>res_state := Some EstopFailed\<rparr>,
           Some (joinUnwritten ErrUndelivered (record EstopFailed)), [EstopFailed])
       | ContextDone \<Rightarrow> (no_result, Some ContextEnded, []))
   | Some (a, latency) \<Rightarrow>
       let res = no_result\<lparr>res_delivered := True, res_latency := latency, res_violation := (slaThreshold < latency)\<rparr>
       in case a of
           AckStopped \<Rightarrow> (res\<lparr>res_confirmed := True, res_state := Some EstopStopped\<rparr>, record EstopStopped, [EstopStopped])
         | AckFailed \<Rightarrow> (res\<lparr>res_state := Some EstopFailed\<rparr>, record EstopFailed, [EstopFailed])
         | _ \<Rightarrow> (case awaitConfirmation record acks cend res of
             (res', err, ws) \<Rightarrow> (res', err, EstopStopping # ws)))"

subsection \<open>Work a clear reached\<close>

definition ConditionRenewalHeld :: string where
  "ConditionRenewalHeld = ''RenewalHeld''"

definition holdReason :: "action_phase \<Rightarrow> string" where
  "holdReason p =
     (if p \<in> {PhaseAssigned, PhaseInProgress, PhaseRevoking} then ''StopClearedBeforePause''
      else if p = PhasePaused then ''StopClearedWhilePaused'' else [])"

text \<open>
  One action: \<open>reads k\<close> and \<open>patches k\<close> are the answers of attempt \<open>k\<close>. The result tells whether it
  failed, and the action as written.
\<close>

fun holdOne :: "(nat \<Rightarrow> fleet_action api_read) \<Rightarrow> (nat \<Rightarrow> api_write) \<Rightarrow> string \<Rightarrow> nat \<Rightarrow> nat \<Rightarrow> bool \<times> fleet_action option" where
  "holdOne reads patches rob k n = (case reads k of
     NotFound \<Rightarrow> (True, None)
   | ReadFailed \<Rightarrow> (False, None)
   | Found a \<Rightarrow>
       if a_assigned_robot a \<noteq> rob \<or> holdReason (a_phase a) = [] \<or> map_of (a_conditions a) ConditionRenewalHeld \<noteq> None
       then (True, None)
       else case patches k of
           Written \<Rightarrow> (True, Some (a\<lparr>a_conditions := put ConditionRenewalHeld (holdReason (a_phase a)) (a_conditions a)\<rparr>))
         | WriteFailed \<Rightarrow> (False, None)
         | Conflicted \<Rightarrow> (case n of 0 \<Rightarrow> (False, None) | Suc m \<Rightarrow> holdOne reads patches rob (Suc k) m))"

declare holdOne.simps [simp del]

text \<open>
  The actions of the namespace as they are listed (\<open>None\<close> where the list fails), and the answers to the
  reads and patches of each.
\<close>

record work_answers =
  wa_listed :: "fleet_action list option"
  wa_reads :: "string \<Rightarrow> nat \<Rightarrow> fleet_action api_read"
  wa_patches :: "string \<Rightarrow> nat \<Rightarrow> api_write"

text \<open>Whether every action bound to the robot was held, and the actions as written.\<close>

definition holdClearedWork :: "work_answers \<Rightarrow> string \<Rightarrow> bool \<times> fleet_action list" where
  "holdClearedWork w rob = (case wa_listed w of
     None \<Rightarrow> (False, [])
   | Some actions \<Rightarrow>
       let outs = map (\<lambda>a. holdOne (wa_reads w (a_name a)) (wa_patches w (a_name a)) rob 0 4)
             (filter (\<lambda>a. a_assigned_robot a = rob \<and> holdReason (a_phase a) \<noteq> []) actions)
       in (list_all fst outs, List.map_filter snd outs))"

subsection \<open>The clear\<close>

record stop_record =
  sr_entry :: robot_stop
  sr_epoch :: nat
  sr_cleared_at :: "time option"
  sr_removed :: bool

record clear_ends =
  ends_hold :: "(estop_hold \<Rightarrow> bool) option"
  ends_stop :: "(robot_stop \<Rightarrow> bool) option"

datatype clear_path = ClearHold | ClearRemove | ClearSend

definition clearStopsMinContract :: string where
  "clearStopsMinContract = ''1.4.0''"

definition contractClearPath :: "string \<Rightarrow> clear_path" where
  "contractClearPath version =
     (if \<not> fst (Supports version) then ClearHold
      else case Below version clearStopsMinContract of
          (below, ok) \<Rightarrow> if \<not> ok then ClearHold else if below then ClearRemove else ClearSend)"

definition adapterClearPath :: "string option \<Rightarrow> clear_path" where
  "adapterClearPath reported = (case reported of None \<Rightarrow> ClearHold | Some v \<Rightarrow> contractClearPath v)"

definition stopEnded :: "robot_stop \<Rightarrow> clear_ends \<Rightarrow> bool" where
  "stopEnded st ends = (case stop_carrier st of
     None \<Rightarrow> stop_scope st = StopScopeRobot
   | Some c \<Rightarrow> sc_kind c = StopCarrierRobot \<or> (case ends_stop ends of None \<Rightarrow> False | Some f \<Rightarrow> f st))"

definition settledByClear :: "stop_record \<Rightarrow> bool" where
  "settledByClear r = (sr_cleared_at r \<noteq> None)"

definition unrecordedInForce :: "stop_record list \<Rightarrow> bool" where
  "unrecordedInForce rs = list_ex (\<lambda>r. sr_cleared_at r = None) rs"

text \<open>
  The recorded stops after a clear and the identifiers of those it ends, or \<open>None\<close> where one is still
  in force. A clear of an adapter below 1.4.0 (\<open>legacy\<close>) removes what it ends.
\<close>

fun clear_stops :: "bool \<Rightarrow> time \<Rightarrow> clear_ends \<Rightarrow> robot_stop list \<Rightarrow> (robot_stop list \<times> string list) option" where
  "clear_stops legacy now ends [] = Some ([], [])"
| "clear_stops legacy now ends (st # sts) =
     (if stop_cleared_at st = None \<and> \<not> stopEnded st ends then None
      else case clear_stops legacy now ends sts of
          None \<Rightarrow> None
        | Some (kept, ended) \<Rightarrow>
            if stop_cleared_at st \<noteq> None then Some (st # kept, ended)
            else if legacy then Some (kept, stop_id st # ended)
            else Some (st\<lparr>stop_cleared_at := Some now\<rparr> # kept, stop_id st # ended))"

definition unsettled :: "string list \<Rightarrow> stop_record list \<Rightarrow> stop_record list" where
  "unsettled recorded rs = filter (\<lambda>r. stop_id (sr_entry r) \<notin> set recorded \<and> \<not> settledByClear r) rs"

text \<open>
  What one attempt of a clear finds: the Robot read past the cache, the ordering record under the
  robot's lock, the stops sent and not recorded, the contract version the adapter last reported, and
  the last stop issued by the time the write has landed.
\<close>

record clear_view =
  cv_read :: "robot option"
  cv_order :: estop_order
  cv_inflight :: "stop_record list"
  cv_contract :: "string option"
  cv_clock :: time
  cv_patch :: api_write
  cv_last_stop :: nat

datatype clear_error = ClearLookup | ClearConflict | ClearUnwritten | ErrNotLeading

text \<open>
  One clear's outcome. \<open>cr_robot\<close> is the Robot the API server holds where the patch landed; \<open>cr_inflight\<close>
  the unrecorded stops as the clear leaves them; \<open>cr_unfence\<close> tells whether it ends the robot's stops in
  force for its AssignActions; \<open>cr_forgotten\<close> are the entries it removed.
\<close>

record clear_result =
  cr_state :: robot_estop_state
  cr_written :: bool
  cr_robot :: "robot option"
  cr_ended :: "string list"
  cr_cleared_at :: time
  cr_path :: clear_path
  cr_order :: estop_order
  cr_inflight :: "stop_record list"
  cr_unfence :: bool
  cr_forgotten :: "robot_stop list"

definition clear_kept :: "robot_estop_state \<Rightarrow> clear_view \<Rightarrow> clear_result" where
  "clear_kept s v = \<lparr>cr_state = s, cr_written = False, cr_robot = None, cr_ended = [], cr_cleared_at = zero_time,
     cr_path = ClearHold, cr_order = cv_order v, cr_inflight = cv_inflight v, cr_unfence = False, cr_forgotten = []\<rparr>"

definition stored_state :: "robot \<Rightarrow> robot_estop_state" where
  "stored_state r = (if r_estop_state r = EstopStateOther [] then EstopNormal else r_estop_state r)"

text \<open>The guard of a clear over the Robot it read: whether there is anything it may move.\<close>

definition clear_admits :: "clear_view \<Rightarrow> nat \<Rightarrow> clear_ends \<Rightarrow> robot \<Rightarrow> bool" where
  "clear_admits v epoch ends stored =
     (\<not> supersededByLaterStop (cv_order v) epoch
      \<and> (case stored_state stored of
           EstopNormal \<Rightarrow> r_held_by stored \<noteq> []
         | EstopStopping \<Rightarrow> False
         | EstopResuming \<Rightarrow> False
         | _ \<Rightarrow> True)
      \<and> r_annotations stored TriggerAnnotation = None
      \<and> list_all (\<lambda>h. case ends_hold ends of None \<Rightarrow> False | Some f \<Rightarrow> f h) (r_held_by stored))"

definition truncate_second :: "time \<Rightarrow> time" where
  "truncate_second t = t - t mod second"

definition removedEntries :: "robot_stop list \<Rightarrow> robot_stop list \<Rightarrow> robot_stop list" where
  "removedEntries before after = filter (\<lambda>st. stop_id st \<notin> set (map stop_id after)) before"

definition mark_cleared :: "bool \<Rightarrow> time \<Rightarrow> stop_record list \<Rightarrow> stop_record list \<Rightarrow> stop_record list" where
  "mark_cleared legacy now chosen rs =
     map (\<lambda>r. if r \<in> set chosen then r\<lparr>sr_cleared_at := Some now, sr_removed := legacy\<rparr> else r) rs"

definition clearOnce :: "clear_view \<Rightarrow> clear_ends \<Rightarrow> nat \<Rightarrow> clear_error + clear_result" where
  "clearOnce v ends epoch = (case cv_read v of
     None \<Rightarrow> Inl ClearLookup
   | Some stored \<Rightarrow>
       let kept = clear_kept (stored_state stored) v;
           path = adapterClearPath (cv_contract v); legacy = (path = ClearRemove);
           now = truncate_second (cv_clock v)
       in if \<not> clear_admits v epoch ends stored then Inr kept
          else case clear_stops legacy now ends (r_stops stored) of
              None \<Rightarrow> Inr kept
            | Some (left, ended) \<Rightarrow>
                let open = unsettled (map stop_id (r_stops stored)) (cv_inflight v)
                in if \<not> list_all (\<lambda>r. stopEnded (sr_entry r) ends) open then Inr kept
                   else case cv_patch v of
                       Conflicted \<Rightarrow> Inl ClearConflict
                     | WriteFailed \<Rightarrow> Inl ClearUnwritten
                     | Written \<Rightarrow> Inr
                         \<lparr>cr_state = EstopResuming, cr_written = True,
                          cr_robot = Some (stored\<lparr>r_estop_state := EstopResuming, r_held_by := [], r_stops := left\<rparr>),
                          cr_ended = sort (ended @ map (\<lambda>r. stop_id (sr_entry r)) open),
                          cr_cleared_at = now, cr_path = path, cr_order = (cv_order v)\<lparr>o_stopped_by := 0\<rparr>,
                          cr_inflight = mark_cleared legacy now open (cv_inflight v),
                          cr_unfence = (cv_last_stop v < epoch),
                          cr_forgotten = (if legacy
                            then map (\<lambda>st. st\<lparr>stop_cleared_at := Some now\<rparr>)
                                   (removedEntries (r_stops stored) left @ map sr_entry open)
                            else [])\<rparr>)"

fun clear_from :: "(nat \<Rightarrow> clear_view) \<Rightarrow> clear_ends \<Rightarrow> nat \<Rightarrow> nat \<Rightarrow> nat \<Rightarrow> clear_error + clear_result" where
  "clear_from views ends epoch k 0 = clearOnce (views k) ends epoch"
| "clear_from views ends epoch k (Suc n) = (case clearOnce (views k) ends epoch of
     Inl ClearConflict \<Rightarrow> clear_from views ends epoch (Suc k) n
   | r \<Rightarrow> r)"

record estop_clear =
  ec_stop :: string
  ec_by :: string
  ec_at :: time
  ec_term :: leader_term

text \<open>
  The EstopClears of a clear that has landed, in the order sent: none unless this process leads and
  the adapter has a stream, and none after the first send that fails. \<open>sent\<close> tells which sends succeed.
\<close>

definition sendClears :: "leader_term \<times> bool \<Rightarrow> bool \<Rightarrow> (string \<Rightarrow> bool) \<Rightarrow> string list \<Rightarrow> string \<Rightarrow> time \<Rightarrow> estop_clear list" where
  "sendClears term stream sent ids by at1 =
     (if \<not> snd term \<or> \<not> stream then []
      else map (\<lambda>i. \<lparr>ec_stop = i, ec_by = by, ec_at = at1, ec_term = fst term\<rparr>) (takeWhile sent ids))"

text \<open>
  What a clear asks of its environment: whether it leads when it starts, the attempts, and, once the
  write has landed, the clock, the answers to holding the robot's work, the leader term and the stream.
\<close>

record clear_env =
  ce_leading :: bool
  ce_views :: "nat \<Rightarrow> clear_view"
  ce_armed_at :: time
  ce_work :: work_answers
  ce_term :: "leader_term \<times> bool"
  ce_stream :: bool
  ce_sent :: "string \<Rightarrow> bool"

definition ClearEstop :: "clear_env \<Rightarrow> nat \<Rightarrow> string \<Rightarrow> clear_ends
    \<Rightarrow> (clear_error + clear_result) \<times> fleet_action list \<times> estop_clear list" where
  "ClearEstop env epoch clearedBy ends =
     (if \<not> ce_leading env then (Inl ErrNotLeading, [], [])
      else case clear_from (ce_views env) ends epoch 0 9 of
          Inl err \<Rightarrow> (Inl err, [], [])
        | Inr res \<Rightarrow> (case cr_robot res of
            None \<Rightarrow> (Inr res, [], [])
          | Some r \<Rightarrow>
              (Inr (res\<lparr>cr_order := armResumeWindow (ce_armed_at env) (cr_order res)\<rparr>),
               snd (holdClearedWork (ce_work env) (r_name r)),
               if cr_path res = ClearSend
               then sendClears (ce_term env) (ce_stream env) (ce_sent env) (cr_ended res) clearedBy (cr_cleared_at res)
               else [])))"

subsection \<open>The resume\<close>

datatype resume_refusal =
    ReportedFault robot_phase | MarkedFault robot_phase | FailedHardware string
  | CapabilityLost string | CapabilityUnrecorded string

definition capabilityRefusal :: "robot \<Rightarrow> capability_entry \<Rightarrow> resume_refusal option" where
  "capabilityRefusal r c =
     (if cap_status c = CapActive \<or> cap_paused c then None
      else case r_estop_baseline r of
          None \<Rightarrow> Some (CapabilityUnrecorded (cap_name c))
        | Some b \<Rightarrow> if cap_name c \<notin> set (bl_active b) then None else Some (CapabilityLost (cap_name c)))"

definition fault_phase :: "robot_phase \<Rightarrow> bool" where
  "fault_phase p = (p = RobotError \<or> p = RobotOffline)"

fun first_refusal :: "robot \<Rightarrow> capability_entry list \<Rightarrow> resume_refusal option" where
  "first_refusal r [] = None"
| "first_refusal r (c # cs) = (case capabilityRefusal r c of Some w \<Rightarrow> Some w | None \<Rightarrow> first_refusal r cs)"

definition resumeRefusal :: "robot \<Rightarrow> capability_entry list \<Rightarrow> robot_phase \<Rightarrow> resume_refusal option" where
  "resumeRefusal r derived reported =
     (if fault_phase reported then Some (ReportedFault reported)
      else if fault_phase (r_phase r) then Some (MarkedFault (r_phase r))
      else case find (\<lambda>h. snd h = HardwareFailed) (r_hardware r) of
          Some h \<Rightarrow> Some (FailedHardware (fst h))
        | None \<Rightarrow> (case first_refusal r derived of Some w \<Rightarrow> Some w | None \<Rightarrow> first_refusal r (r_capabilities r)))"

text \<open>What the robot's telemetry last said, keyed by its wire identity.\<close>

record telemetry =
  tl_last_frame :: "time option"
  tl_first_frame :: "time option"
  tl_phase :: "robot_phase option"
  tl_unwritten :: bool

definition telemetry_of :: "(string \<Rightarrow> telemetry) option \<Rightarrow> robot \<Rightarrow> telemetry option" where
  "telemetry_of clock r = (case clock of
     None \<Rightarrow> None
   | Some f \<Rightarrow> (case annotation (r_annotations r) RobotIDAnnotation of [] \<Rightarrow> None | w \<Rightarrow> Some (f w)))"

definition lastFrame :: "(string \<Rightarrow> telemetry) option \<Rightarrow> robot \<Rightarrow> time option" where
  "lastFrame clock r = (case telemetry_of clock r of None \<Rightarrow> None | Some t \<Rightarrow> tl_last_frame t)"

definition firstFrame :: "(string \<Rightarrow> telemetry) option \<Rightarrow> robot \<Rightarrow> time option" where
  "firstFrame clock r = (case telemetry_of clock r of None \<Rightarrow> None | Some t \<Rightarrow> tl_first_frame t)"

definition reportedPhase :: "(string \<Rightarrow> telemetry) option \<Rightarrow> robot \<Rightarrow> robot_phase" where
  "reportedPhase clock r = (case telemetry_of clock r of
     None \<Rightarrow> RobotPhaseOther []
   | Some t \<Rightarrow> (case tl_phase t of None \<Rightarrow> RobotPhaseOther [] | Some p \<Rightarrow> p))"

definition lastReportUnwritten :: "(string \<Rightarrow> telemetry) option \<Rightarrow> robot \<Rightarrow> bool" where
  "lastReportUnwritten clock r = (case telemetry_of clock r of None \<Rightarrow> False | Some t \<Rightarrow> tl_unwritten t)"

datatype resume_reason =
    StillHeld holder | NotResuming robot_estop_state | NoRecordOfClear | NoBaseline | SilentSinceTakeover
  | SilentSinceClear | LatestReportUnwritten | NoDerivation | Refused resume_refusal | Superseded | Confirmed

datatype resume_error = ResumeLookup | WorkNotHeld | ResumeUnwritten write_error

text \<open>
  What a confirmation asks of its environment: its reads of the Robot (the first, the one of an
  adoption, which goes through the cache, and the one the checks judge), the robot's ordering record,
  the telemetry, the derivation, the answers to holding the robot's work, and the attempts of the write.
\<close>

record resume_env =
  re_held_read :: "robot option"
  re_cached :: "robot option"
  re_read :: "robot option"
  re_order :: "estop_order option"
  re_telemetry :: "(string \<Rightarrow> telemetry) option"
  re_derive :: "(robot \<Rightarrow> capability_entry list) option"
  re_work :: work_answers
  re_views :: "nat \<Rightarrow> write_view"

text \<open>
  The answer of a confirmation, the ordering record it leaves, the Robot as written, if it was, and the
  actions it held.
\<close>

type_synonym resume_answer =
  "(resume_error + robot_estop_state \<times> resume_reason) \<times> estop_order option \<times> robot option \<times> fleet_action list"

definition rearmResumeAfterFailover :: "resume_env \<Rightarrow> resume_answer" where
  "rearmResumeAfterFailover env = (case re_cached env of
     None \<Rightarrow> (Inl ResumeLookup, None, None, [])
   | Some r \<Rightarrow>
       if r_estop_state r \<noteq> EstopResuming then (Inr (r_estop_state r, NotResuming (r_estop_state r)), None, None, [])
       else (Inr (EstopResuming, NoRecordOfClear), Some (adoptResumeWindow new_order), None, []))"

text \<open>The baseline a frame must be later than: that of the clear, or the first frame of an adopted robot.\<close>

definition resume_baseline :: "resume_env \<Rightarrow> estop_order \<Rightarrow> robot \<Rightarrow> time option" where
  "resume_baseline env o1 r = (if o_resume_adopted o1 then firstFrame (re_telemetry env) r else Some (o_resume_since o1))"

definition frame_after :: "time option \<Rightarrow> time \<Rightarrow> bool" where
  "frame_after heard baseline = (case heard of None \<Rightarrow> False | Some t \<Rightarrow> baseline < t)"

text \<open>The checks of a confirmation over the Robot it read; \<open>None\<close> where every one passes.\<close>

definition resume_checks :: "resume_env \<Rightarrow> estop_order \<Rightarrow> robot \<Rightarrow> resume_reason option" where
  "resume_checks env o1 r = (case resume_baseline env o1 r of
     None \<Rightarrow> Some SilentSinceTakeover
   | Some baseline \<Rightarrow>
       if \<not> frame_after (lastFrame (re_telemetry env) r) baseline then Some SilentSinceClear
       else if lastReportUnwritten (re_telemetry env) r then Some LatestReportUnwritten
       else case re_derive env of
           None \<Rightarrow> Some NoDerivation
         | Some f \<Rightarrow> (case resumeRefusal r (f r) (reportedPhase (re_telemetry env) r) of
             Some w \<Rightarrow> Some (Refused w)
           | None \<Rightarrow> None))"

definition ConfirmResume :: "resume_env \<Rightarrow> resume_answer" where
  "ConfirmResume env = (case re_held_read env of
     None \<Rightarrow> (Inl ResumeLookup, re_order env, None, [])
   | Some r0 \<Rightarrow> (case HeldOnRecord r0 of
       Some h \<Rightarrow> (Inr (r_estop_state r0, StillHeld h), re_order env, None, [])
     | None \<Rightarrow> (case re_order env of
         None \<Rightarrow> rearmResumeAfterFailover env
       | Some o0 \<Rightarrow> (case issueEstopEpoch False o0 of (epoch, o1) \<Rightarrow> (case re_read env of
           None \<Rightarrow> (Inl ResumeLookup, Some o1, None, [])
         | Some r \<Rightarrow>
             if r_estop_state r \<noteq> EstopResuming
             then (Inr (r_estop_state r, NotResuming (r_estop_state r)), Some o1, None, [])
             else if \<not> o_resume_armed o1 then (Inr (EstopResuming, NoBaseline), Some (adoptResumeWindow o1), None, [])
             else case resume_checks env o1 r of
                 Some why \<Rightarrow> (Inr (EstopResuming, why), Some o1, None, [])
               | None \<Rightarrow> (case holdClearedWork (re_work env) (r_name r) of (held, actions) \<Rightarrow>
                   if \<not> held then (Inl WorkNotHeld, Some o1, None, actions)
                   else let res = writeEstopState (re_views env) r EstopNormal epoch
                        in case wr_error res of
                            Some err \<Rightarrow> (Inl (ResumeUnwritten err), Some (wr_order res), None, actions)
                          | None \<Rightarrow>
                              if \<not> wr_written res
                              then (Inr (r_estop_state (wr_copy res), Superseded), Some (wr_order res), None, actions)
                              else (Inr (EstopNormal, Confirmed), Some (disarmResumeWindow (wr_order res)), wr_patched res,
                                    actions)))))))"

subsection \<open>What holds a robot\<close>

datatype held_reason = HeldEstopState robot_estop_state | HeldStop holder | HeldErrorPhase | HeldComponents "string list"

definition HeldBy :: "robot \<Rightarrow> held_reason list" where
  "HeldBy r =
     (if in_episode (r_estop_state r) then [HeldEstopState (r_estop_state r)] else [])
     @ (case HeldOnRecord r of Some h \<Rightarrow> [HeldStop h] | None \<Rightarrow> [])
     @ (if r_phase r = RobotError then [HeldErrorPhase] else [])
     @ (case sort (map fst (filter (\<lambda>h. snd h = HardwareFailed) (r_hardware r))) of [] \<Rightarrow> [] | hs \<Rightarrow> [HeldComponents hs])"

subsection \<open>Interleaving of the critical sections\<close>

text \<open>
  The interleaving of the dispatcher's critical sections over one robot. \<open>y_retrying\<close> holds the writes
  that passed their ordering check, met a conflict and will be tried again.
\<close>

record stop_sys =
  y_robot :: robot
  y_order :: estop_order
  y_inflight :: "stop_record list"
  y_fenced :: "string list"
  y_retrying :: "(robot_estop_state \<times> nat) list"

datatype stop_event =
    Triggered nat | ClearIssued nat | ConfirmIssued nat | Wrote robot_estop_state nat | Rewrote robot_estop_state nat
  | Cleared nat | Quiet

text \<open>
  A view is one of the state where its fields are read from it. A read of the Robot may fail; a patch
  lands only over the Robot as it stands, by its resourceVersion.
\<close>

definition view_of :: "stop_sys \<Rightarrow> write_view \<Rightarrow> robot \<Rightarrow> bool" where
  "view_of y v copy \<longleftrightarrow> wv_order v = y_order y \<and> wv_unrecorded v = unrecordedInForce (y_inflight y) \<and> wv_held v = y_fenced y
     \<and> (wv_stored v = Some (y_robot y) \<or> wv_stored v = None \<and> (wv_patch v = Written \<longrightarrow> copy = y_robot y))"

definition after_write :: "robot_estop_state \<Rightarrow> nat \<Rightarrow> write_result \<Rightarrow> stop_sys \<Rightarrow> stop_sys" where
  "after_write s e res y = y\<lparr>y_robot := (case wr_patched res of Some r \<Rightarrow> r | None \<Rightarrow> y_robot y), y_order := wr_order res,
     y_retrying := (if wr_error res = Some WriteConflict then (s, e) # y_retrying y else y_retrying y)\<rparr>"

definition writable :: "robot_estop_state \<Rightarrow> bool" where
  "writable s \<longleftrightarrow> s \<in> {EstopStopping, EstopStopped, EstopFailed, EstopNormal}"

definition clear_view_of :: "stop_sys \<Rightarrow> clear_view \<Rightarrow> bool" where
  "clear_view_of y v \<longleftrightarrow> cv_order v = y_order y \<and> cv_inflight v = y_inflight y \<and> cv_read v = Some (y_robot y)"

inductive stop_step :: "stop_sys \<Rightarrow> stop_event \<Rightarrow> stop_sys \<Rightarrow> bool" where
  issue_stop: "issueEstopEpoch True (y_order y) = (e, o1) \<Longrightarrow> stop_step y (Triggered e) (y\<lparr>y_order := o1\<rparr>)"
| issue_clear: "issueClearEpoch (y_order y) = (e, o1) \<Longrightarrow> stop_step y (ClearIssued e) (y\<lparr>y_order := o1\<rparr>)"
| issue_confirm: "issueEstopEpoch False (y_order y) = (e, o1) \<Longrightarrow> stop_step y (ConfirmIssued e) (y\<lparr>y_order := o1\<rparr>)"
| first_write: "writable s \<Longrightarrow> view_of y v copy \<Longrightarrow> \<not> (isEstopRelease s \<and> supersededByLaterStop (y_order y) e) \<Longrightarrow>
    \<not> (\<not> isEstopRelease s \<and> e < o_stopped_by (y_order y)) \<Longrightarrow> res = writeEstopStateOnce v copy s e \<Longrightarrow>
    stop_step y (if wr_written res then Wrote s e else Quiet) (after_write s e res y)"
| next_write: "(s, e) \<in> set (y_retrying y) \<Longrightarrow> writable s \<Longrightarrow> view_of y v copy \<Longrightarrow> res = writeEstopStateOnce v copy s e \<Longrightarrow>
    stop_step y (if wr_written res then Rewrote s e else Quiet) (after_write s e res y)"
| clear_write: "clear_view_of y v \<Longrightarrow> clearOnce v ends e = Inr res \<Longrightarrow> cr_robot res = Some r \<Longrightarrow>
    stop_step y (Cleared e) (y\<lparr>y_robot := r, y_order := cr_order res, y_inflight := cr_inflight res,
      y_fenced := (if cr_unfence res then [] else y_fenced y)\<rparr>)"
| others: "r_estop_state r = r_estop_state (y_robot y) \<Longrightarrow> r_estop_baseline r = r_estop_baseline (y_robot y) \<Longrightarrow>
    stop_step y Quiet (y\<lparr>y_robot := r, y_inflight := rs, y_fenced := ids\<rparr>)"
| windows: "o_issued o1 = o_issued (y_order y) \<Longrightarrow> o_last_stop o1 = o_last_stop (y_order y) \<Longrightarrow>
    o_stopped_by o1 = o_stopped_by (y_order y) \<Longrightarrow> stop_step y Quiet (y\<lparr>y_order := o1\<rparr>)"

inductive stop_run :: "stop_sys \<Rightarrow> stop_event list \<Rightarrow> stop_sys \<Rightarrow> bool" where
  run_nil: "stop_run y [] y"
| run_step: "stop_run y es y1 \<Longrightarrow> stop_step y1 ev y2 \<Longrightarrow> stop_run y (es @ [ev]) y2"

text \<open>The epochs of the triggers of a run are at most the last stop of the ordering record.\<close>

definition triggers_known :: "stop_event list \<Rightarrow> stop_sys \<Rightarrow> bool" where
  "triggers_known es y \<longleftrightarrow> (\<forall>e. Triggered e \<in> set es \<longrightarrow> e \<le> o_last_stop (y_order y)) \<and> o_last_stop (y_order y) \<le> o_issued (y_order y)"

definition sample_stop :: robot_stop where
  "sample_stop = \<lparr>stop_id = ''s1'', stop_scope = StopScopeRobot,
     stop_carrier = Some \<lparr>sc_kind = StopCarrierRobot, sc_name = ''r'', sc_uid = ''r''\<rparr>, stop_sent_at = 0,
     stop_acknowledged_at = None, stop_cleared_at = None\<rparr>"

definition sample_ends :: clear_ends where
  "sample_ends = \<lparr>ends_hold = None, ends_stop = None\<rparr>"

definition sample_clear_view :: "robot \<Rightarrow> clear_view" where
  "sample_clear_view r = \<lparr>cv_read = Some r, cv_order = new_order, cv_inflight = [], cv_contract = None, cv_clock = 0,
     cv_patch = Written, cv_last_stop = 0\<rparr>"

definition sample_sys :: "robot \<Rightarrow> estop_order \<Rightarrow> (robot_estop_state \<times> nat) list \<Rightarrow> stop_sys" where
  "sample_sys r o1 ws = \<lparr>y_robot = r, y_order = o1, y_inflight = [], y_fenced = [], y_retrying = ws\<rparr>"

definition sample_view :: "robot \<Rightarrow> estop_order \<Rightarrow> api_write \<Rightarrow> write_view" where
  "sample_view r o1 p = \<lparr>wv_order = o1, wv_stored = Some r, wv_unrecorded = False, wv_held = [], wv_derive = None, wv_clock = 0,
     wv_patch = p, wv_leading = True, wv_alive = True\<rparr>"

definition sample_frames :: telemetry where
  "sample_frames = \<lparr>tl_last_frame = Some 9, tl_first_frame = Some 1, tl_phase = None, tl_unwritten = False\<rparr>"

definition sample_resuming :: robot where
  "sample_resuming = (sample_robot ''r'' 50)\<lparr>r_estop_state := EstopResuming, r_annotations := [RobotIDAnnotation \<mapsto> ''w'']\<rparr>"

definition sample_resume_env :: "robot \<Rightarrow> resume_env" where
  "sample_resume_env r = \<lparr>re_held_read = Some r, re_cached = None, re_read = Some r,
     re_order = Some (armResumeWindow 5 new_order), re_telemetry = Some (\<lambda>_. sample_frames),
     re_derive = Some (\<lambda>_. []), re_work = \<lparr>wa_listed = Some [], wa_reads = (\<lambda>_ _. NotFound), wa_patches = (\<lambda>_ _. Written)\<rparr>,
     re_views = (\<lambda>_. sample_view r new_order Written)\<rparr>"

text \<open>The stop machine the states of a robot follow.\<close>

inductive estop_machine :: "robot_estop_state \<Rightarrow> robot_estop_state \<Rightarrow> bool" where
  machine_stop: "s' \<in> {EstopStopping, EstopStopped, EstopFailed} \<Longrightarrow> estop_machine s s'"
| machine_clear: "s \<notin> {EstopStopping, EstopResuming} \<Longrightarrow> estop_machine s EstopResuming"
| machine_resume: "estop_machine EstopResuming EstopNormal"

text \<open>A release of a run: the robot is written Normal after a clear of its stop was written.\<close>

definition released_after_clear :: "stop_event list \<Rightarrow> bool" where
  "released_after_clear es \<longleftrightarrow> (\<exists>us ev vs c e. es = us @ ev # vs \<and> ev \<in> {Wrote EstopNormal e, Rewrote EstopNormal e} \<and> Cleared c \<in> set us)"

subsection \<open>Lemmas\<close>

lemma once_cases:
  fixes v copy s e
  defines "stored \<equiv> case wv_stored v of Some r \<Rightarrow> r | None \<Rightarrow> copy" and "res \<equiv> writeEstopStateOnce v copy s e"
  shows "wr_written res \<and> wv_patch v = Written \<and> wr_error res = None \<and> wr_patched res = Some (next_robot v s stored) \<and> r_estop_state stored \<noteq> s
      \<and> wr_order res = (wv_order v)\<lparr>o_stopped_by := (if s = EstopStopped then e else 0)\<rparr>
      \<and> (s = EstopNormal \<longrightarrow> r_estop_state stored = EstopResuming \<and> stopInForce v stored = None)
    \<or> \<not> wr_written res \<and> wr_patched res = None
      \<and> (wr_order res = wv_order v \<or> s = EstopStopped \<and> wr_order res = (wv_order v)\<lparr>o_stopped_by := e\<rparr>)"
  by (auto simp: res_def stored_def writeEstopStateOnce_def unwritten_def Let_def split: api_write.splits)

lemma next_robot_state [simp]: "r_estop_state (next_robot v s r) = s"
  by (simp add: next_robot_def Let_def)

lemma once_stored:
  assumes "view_of y v copy" "wv_patch v = Written"
  shows "(case wv_stored v of Some r \<Rightarrow> r | None \<Rightarrow> copy) = y_robot y"
  using assms by (auto simp: view_of_def)

lemma after_write_written:
  assumes "view_of y v copy" "res = writeEstopStateOnce v copy s e" "wr_written res"
  shows "r_estop_state (y_robot (after_write s e res y)) = s \<and> r_estop_state (y_robot y) \<noteq> s
    \<and> (s = EstopNormal \<longrightarrow> r_estop_state (y_robot y) = EstopResuming \<and> stopInForce v (y_robot y) = None)"
  using once_cases [where v = v and copy = copy and s = s and e = e] assms once_stored [OF assms(1)]
  by (auto simp: after_write_def)

lemma after_write_unwritten:
  assumes "res = writeEstopStateOnce v copy s e" "\<not> wr_written res"
  shows "y_robot (after_write s e res y) = y_robot y"
  using once_cases [where v = v and copy = copy and s = s and e = e] assms by (auto simp: after_write_def)

lemma after_write_order:
  assumes "view_of y v copy" "res = writeEstopStateOnce v copy s e"
  shows "o_last_stop (y_order (after_write s e res y)) = o_last_stop (y_order y)
    \<and> o_issued (y_order (after_write s e res y)) = o_issued (y_order y)"
  using once_cases [where v = v and copy = copy and s = s and e = e] assms by (auto simp: after_write_def view_of_def)

lemma clearOnce_written:
  assumes "clearOnce v ends e = Inr res" "cr_robot res = Some r" "cv_read v = Some stored"
  shows "clear_admits v e ends stored \<and> cr_written res \<and> r_estop_state r = EstopResuming \<and> r_held_by r = []
    \<and> r_annotations r = r_annotations stored \<and> cr_order res = (cv_order v)\<lparr>o_stopped_by := 0\<rparr>"
  using assms
  by (auto simp: clearOnce_def clear_kept_def Let_def split: if_splits option.splits api_write.splits)

lemma step_state:
  assumes "stop_step y ev y'"
  shows "r_estop_state (y_robot y') = r_estop_state (y_robot y)
    \<or> (\<exists>s e. ev \<in> {Wrote s e, Rewrote s e} \<and> writable s \<and> r_estop_state (y_robot y') = s
        \<and> (s = EstopNormal \<longrightarrow> r_estop_state (y_robot y) = EstopResuming))
    \<or> (\<exists>e. ev = Cleared e \<and> r_estop_state (y_robot y') = EstopResuming)"
  using assms
proof cases
  case (first_write s v copy e res)
  then show ?thesis
    using after_write_written [OF first_write(4,7)] after_write_unwritten [OF first_write(7)] by (cases "wr_written res") auto
next
  case (next_write s e v copy res)
  then show ?thesis
    using after_write_written [OF next_write(5,6)] after_write_unwritten [OF next_write(6)] by (cases "wr_written res") auto
next
  case (clear_write v ends e res r)
  then show ?thesis using clearOnce_written by (fastforce simp: clear_view_of_def)
qed auto

lemma step_triggers:
  assumes "stop_step y ev y'" "triggers_known es y"
  shows "triggers_known (es @ [ev]) y'"
  using assms(1)
proof cases
  case (first_write s v copy e res)
  then show ?thesis
    using after_write_order [OF first_write(4,7)] assms(2) by (auto simp: triggers_known_def)
next
  case (next_write s e v copy res)
  then show ?thesis
    using after_write_order [OF next_write(5,6)] assms(2) by (auto simp: triggers_known_def)
next
  case (clear_write v ends e res r)
  then have "cr_order res = (y_order y)\<lparr>o_stopped_by := 0\<rparr>"
    using clearOnce_written [OF clear_write(4,5)] by (auto simp: clear_view_of_def)
  then show ?thesis using clear_write(1,2) assms(2) by (simp add: triggers_known_def)
qed (use assms(2) in \<open>auto simp: triggers_known_def issueEstopEpoch_def issueClearEpoch_def Let_def split: if_splits\<close>)

lemma run_triggers: "stop_run y es y' \<Longrightarrow> triggers_known [] y \<Longrightarrow> triggers_known es y'"
  by (induction rule: stop_run.induct) (auto intro: step_triggers)

lemma run_split:
  assumes "stop_run y es y'" "es = us @ ev # ws"
  shows "\<exists>y1 y2. stop_run y us y1 \<and> stop_step y1 ev y2"
  using assms
proof (induction arbitrary: ws rule: stop_run.induct)
  case (run_step y es y1 ev' y2)
  show ?case
  proof (cases ws rule: rev_cases)
    case Nil
    then show ?thesis using run_step by auto
  next
    case (snoc ws' w)
    then show ?thesis using run_step by auto
  qed
qed simp

lemma release_step_order:
  assumes "stop_step y ev y'" "ev = Cleared e \<or> ev = Wrote EstopNormal e"
  shows "o_last_stop (y_order y) \<le> e"
  using assms(1)
proof cases
  case (first_write s v copy e2 res)
  then show ?thesis using assms(2) by (auto simp: isEstopRelease_def supersededByLaterStop_def split: if_splits)
next
  case (clear_write v ends e2 res r)
  then show ?thesis
    using clearOnce_written [OF clear_write(4,5)] assms(2)
    by (auto simp: clear_view_of_def clear_admits_def supersededByLaterStop_def)
qed (use assms(2) in \<open>auto split: if_splits\<close>)

lemma released_after_clear_snoc: "released_after_clear es \<Longrightarrow> released_after_clear (es @ [ev])"
  unfolding released_after_clear_def
proof (elim exE conjE)
  fix us ev' vs c e
  assume "es = us @ ev' # vs" "ev' \<in> {Wrote EstopNormal e, Rewrote EstopNormal e}" "Cleared c \<in> set us"
  then have "es @ [ev] = us @ ev' # (vs @ [ev])" "ev' \<in> {Wrote EstopNormal e, Rewrote EstopNormal e}" "Cleared c \<in> set us"
    by simp_all
  then show "\<exists>us ev' vs c e. es @ [ev] = us @ ev' # vs \<and> ev' \<in> {Wrote EstopNormal e, Rewrote EstopNormal e} \<and> Cleared c \<in> set us"
    by blast
qed

lemma released_after_clear_new:
  "Cleared c \<in> set es \<Longrightarrow> ev \<in> {Wrote EstopNormal e, Rewrote EstopNormal e} \<Longrightarrow> released_after_clear (es @ [ev])"
  unfolding released_after_clear_def by blast

lemma run_release:
  assumes "stop_run y es y'" "r_estop_state (y_robot y) \<notin> {EstopNormal, EstopResuming}"
  shows "(r_estop_state (y_robot y') = EstopResuming \<longrightarrow> (\<exists>c. Cleared c \<in> set es))
    \<and> (r_estop_state (y_robot y') = EstopNormal \<longrightarrow> released_after_clear es)"
  using assms
proof (induction rule: stop_run.induct)
  case (run_step y es y1 ev y2)
  note IH = run_step.IH [OF run_step.prems]
  from step_state [OF run_step.hyps(2)] show ?case
  proof (elim disjE exE conjE)
    assume "r_estop_state (y_robot y2) = r_estop_state (y_robot y1)"
    then show ?thesis using IH released_after_clear_snoc [of es ev] by (simp only: set_append Un_iff) blast
  next
    fix s e
    assume w: "ev \<in> {Wrote s e, Rewrote s e}" "writable s" "r_estop_state (y_robot y2) = s"
      "s = EstopNormal \<longrightarrow> r_estop_state (y_robot y1) = EstopResuming"
    show ?thesis
    proof (cases "s = EstopNormal")
      case True
      then obtain c where "Cleared c \<in> set es" using w(4) IH by blast
      then have "released_after_clear (es @ [ev])" using released_after_clear_new w(1) True by blast
      then show ?thesis using w(3) True by simp
    next
      case False
      then show ?thesis using w(2,3) by (auto simp: writable_def)
    qed
  next
    fix e
    assume "ev = Cleared e" "r_estop_state (y_robot y2) = EstopResuming"
    then show ?thesis by auto
  qed
qed auto

text \<open>The attempt that decides a write is one of those the loop may make.\<close>

lemma write_from_attempt:
  "\<exists>j. k \<le> j \<and> j \<le> k + n \<and> write_from views copy s e k n = writeEstopStateOnce (views j) copy s e
     \<and> (\<forall>i. k \<le> i \<and> i < j \<longrightarrow> wr_error (writeEstopStateOnce (views i) copy s e) = Some WriteConflict)"
proof (induction n arbitrary: k)
  case 0
  show ?case by (intro exI [of _ k]) auto
next
  case (Suc n)
  show ?case
  proof (cases "write_from views copy s e k (Suc n) = writeEstopStateOnce (views k) copy s e")
    case True
    then show ?thesis by (intro exI [of _ k]) auto
  next
    case False
    then have c: "wr_error (writeEstopStateOnce (views k) copy s e) = Some WriteConflict"
      "write_from views copy s e k (Suc n) = write_from views copy s e (Suc k) n"
      by (auto simp: Let_def split: if_splits)
    obtain j where j: "Suc k \<le> j" "j \<le> Suc k + n" "write_from views copy s e (Suc k) n = writeEstopStateOnce (views j) copy s e"
      "\<forall>i. Suc k \<le> i \<and> i < j \<longrightarrow> wr_error (writeEstopStateOnce (views i) copy s e) = Some WriteConflict"
      using Suc [of "Suc k"] by blast
    have "\<forall>i. k \<le> i \<and> i < j \<longrightarrow> wr_error (writeEstopStateOnce (views i) copy s e) = Some WriteConflict"
      using j(4) c(1) by (metis le_neq_implies_less Suc_leI)
    then show ?thesis using j c(2) by (intro exI [of _ j]) simp
  qed
qed

lemma first_refusal_None: "first_refusal r cs = None \<longleftrightarrow> (\<forall>c \<in> set cs. capabilityRefusal r c = None)"
  by (induction cs) (auto split: option.splits)

lemma resumeRefusal_None:
  assumes "resumeRefusal r derived reported = None" "r_estop_baseline r = Some b"
    and "c \<in> set derived \<union> set (r_capabilities r)" "cap_name c \<in> set (bl_active b)"
  shows "cap_status c = CapActive \<or> cap_paused c"
proof -
  have "capabilityRefusal r c = None"
    using assms(1,3) by (auto simp: resumeRefusal_def first_refusal_None split: if_splits option.splits)
  then show ?thesis using assms(2,4) by (auto simp: capabilityRefusal_def split: if_splits)
qed

lemma resumeRefusal_faults:
  "resumeRefusal r derived reported = None \<Longrightarrow>
     \<not> fault_phase reported \<and> \<not> fault_phase (r_phase r) \<and> (\<forall>h \<in> set (r_hardware r). snd h \<noteq> HardwareFailed)"
  by (auto simp: resumeRefusal_def find_None_iff split: if_splits option.splits)

lemma awaitConfirmation_confirmed:
  assumes "awaitConfirmation record1 acks wend res = (res', err, ws)" "\<not> res_confirmed res"
  shows "(res_confirmed res' \<longleftrightarrow> (\<exists>us vs. acks = us @ AckStopped # vs \<and> AckFailed \<notin> set us))
    \<and> (res_confirmed res' \<longrightarrow> ws = [EstopStopped] \<and> res_state res' = Some EstopStopped)
    \<and> (\<not> res_confirmed res' \<longrightarrow> ws = [EstopFailed] \<and> res_state res' = Some EstopFailed \<or> ws = [] \<and> err = Some ContextEnded)"
  using assms
proof (induction record1 acks wend res rule: awaitConfirmation.induct)
  case (3 wr a acks wend res)
  have step: "(\<exists>us vs. a # acks = us @ AckStopped # vs \<and> AckFailed \<notin> set us)
      \<longleftrightarrow> a = AckStopped \<or> a \<noteq> AckFailed \<and> (\<exists>us vs. acks = us @ AckStopped # vs \<and> AckFailed \<notin> set us)"
  proof
    assume "\<exists>us vs. a # acks = us @ AckStopped # vs \<and> AckFailed \<notin> set us"
    then obtain us vs where "a # acks = us @ AckStopped # vs" "AckFailed \<notin> set us" by blast
    then show "a = AckStopped \<or> a \<noteq> AckFailed \<and> (\<exists>us vs. acks = us @ AckStopped # vs \<and> AckFailed \<notin> set us)"
      by (cases us) auto
  next
    assume "a = AckStopped \<or> a \<noteq> AckFailed \<and> (\<exists>us vs. acks = us @ AckStopped # vs \<and> AckFailed \<notin> set us)"
    then show "\<exists>us vs. a # acks = us @ AckStopped # vs \<and> AckFailed \<notin> set us"
    proof
      assume "a = AckStopped"
      then show ?thesis by (intro exI [of _ "[]"] exI [of _ acks]) simp
    next
      assume h: "a \<noteq> AckFailed \<and> (\<exists>us vs. acks = us @ AckStopped # vs \<and> AckFailed \<notin> set us)"
      then obtain us vs where "acks = us @ AckStopped # vs" "AckFailed \<notin> set us" by blast
      then have "a # acks = (a # us) @ AckStopped # vs \<and> AckFailed \<notin> set (a # us)" using h by auto
      then show ?thesis by blast
    qed
  qed
  show ?case
  proof (cases "a = AckStopped \<or> a = AckFailed")
    case True
    then show ?thesis using "3.prems" unfolding step by auto
  next
    case False
    then have "awaitConfirmation wr acks wend res = (res', err, ws)" using "3.prems"(1) by (cases a) simp_all
    then show ?thesis using "3.IH" "3.prems"(2) False unfolding step by (cases a) simp_all
  qed
qed auto

lemma clear_stops_all:
  assumes "clear_stops legacy now ends sts = Some (left, ended)"
  shows "(\<forall>st \<in> set left. stop_cleared_at st \<noteq> None)
    \<and> set ended = stop_id ` {st \<in> set sts. stop_cleared_at st = None}
    \<and> (\<forall>st \<in> set sts. stop_cleared_at st = None \<longrightarrow> stopEnded st ends)
    \<and> (\<forall>st \<in> set sts. stop_cleared_at st \<noteq> None \<longrightarrow> st \<in> set left)"
  using assms
proof (induction sts arbitrary: left ended)
  case (Cons st sts)
  then show ?case by (auto split: if_splits option.splits)
qed simp

lemma machine_of_write:
  assumes "writable s" "r_estop_state r' = s" "s = EstopNormal \<longrightarrow> r_estop_state r = EstopResuming"
  shows "estop_machine (stored_state r) (stored_state r')"
  using assms machine_stop machine_resume by (cases s) (simp_all add: stored_state_def writable_def)

lemma machine_of_step:
  assumes "stop_step y ev y'" "\<forall>e. ev \<noteq> Cleared e"
  shows "stored_state (y_robot y') = stored_state (y_robot y) \<or> estop_machine (stored_state (y_robot y)) (stored_state (y_robot y'))"
proof -
  consider "r_estop_state (y_robot y') = r_estop_state (y_robot y)"
    | s where "writable s" "r_estop_state (y_robot y') = s" "s = EstopNormal \<longrightarrow> r_estop_state (y_robot y) = EstopResuming"
    using step_state [OF assms(1)] assms(2) by blast
  then show ?thesis using machine_of_write by cases (simp add: stored_state_def, blast)
qed

lemma step_machine:
  assumes "stop_step y ev y'"
  shows "stored_state (y_robot y') = stored_state (y_robot y) \<or> estop_machine (stored_state (y_robot y)) (stored_state (y_robot y'))"
  using assms
proof cases
  case (clear_write v ends e res r)
  then have "clear_admits v e ends (y_robot y)" "r_estop_state r = EstopResuming"
    using clearOnce_written [OF clear_write(4,5)] by (auto simp: clear_view_of_def)
  then have "stored_state (y_robot y) \<notin> {EstopStopping, EstopResuming}" "stored_state (y_robot y') = EstopResuming"
    using clear_write(2) by (auto simp: clear_admits_def stored_state_def split: robot_estop_state.splits if_splits)
  then show ?thesis using machine_clear by simp
qed (rule machine_of_step [OF assms]; simp split: if_splits)+

lemma resume_checks_refuse: "resume_checks env o1 r \<noteq> Some Confirmed"
  by (auto simp: resume_checks_def split: option.splits)

lemma written_release:
  assumes "wr_written (writeEstopState views copy EstopNormal e)"
  shows "\<exists>k stored. k \<le> 4 \<and> (wv_stored (views k) = Some stored \<or> wv_stored (views k) = None \<and> stored = copy)
    \<and> r_estop_state stored = EstopResuming \<and> stopInForce (views k) stored = None
    \<and> wr_patched (writeEstopState views copy EstopNormal e) = Some (next_robot (views k) EstopNormal stored)"
proof -
  have w: "writeEstopState views copy EstopNormal e = write_from views copy EstopNormal e 0 4"
    using assms by (auto simp: writeEstopState_def unwritten_def write_retries_def isEstopRelease_def Let_def split: if_splits)
  obtain j where j: "j \<le> 4" "write_from views copy EstopNormal e 0 4 = writeEstopStateOnce (views j) copy EstopNormal e"
    using write_from_attempt [of 0 4 views copy EstopNormal e] by auto
  let ?stored = "case wv_stored (views j) of Some r \<Rightarrow> r | None \<Rightarrow> copy"
  have "r_estop_state ?stored = EstopResuming" "stopInForce (views j) ?stored = None"
    "wr_patched (writeEstopStateOnce (views j) copy EstopNormal e) = Some (next_robot (views j) EstopNormal ?stored)"
    using once_cases [where v = "views j" and copy = copy and s = EstopNormal and e = e] assms w j(2) by auto
  then show ?thesis using j w by (intro exI [of _ j] exI [of _ ?stored]) (auto split: option.splits)
qed

subsection \<open>Properties of the stop state\<close>



text \<open>
  Claim C32. A clear that is written leaves no stop in force behind. Its Robot is Resuming, carries no
  trigger of its own and no hold, and every stop recorded on it is cleared; every stop this process
  sent and had not recorded is cleared with it. The stops it ends, which its EstopClears name, are
  exactly those, and each of them had ended.
\<close>

theorem written_clear_ends_every_stop:
  assumes "clearOnce v ends e = Inr res" "cv_read v = Some stored" "cr_robot res = Some r"
  shows "r_estop_state r = EstopResuming \<and> HeldOnRecord r = None \<and> (\<forall>st \<in> set (r_stops r). stop_cleared_at st \<noteq> None)
    \<and> (\<forall>x \<in> set (cr_inflight res). stop_id (sr_entry x) \<notin> stop_id ` set (r_stops stored) \<longrightarrow> sr_cleared_at x \<noteq> None)
    \<and> set (cr_ended res) = stop_id ` {st \<in> set (r_stops stored). stop_cleared_at st = None}
        \<union> (stop_id \<circ> sr_entry) ` set (unsettled (map stop_id (r_stops stored)) (cv_inflight v))
    \<and> (\<forall>st \<in> set (r_stops stored). stop_cleared_at st = None \<longrightarrow> stopEnded st ends)
    \<and> (\<forall>st \<in> set (r_stops stored). stop_cleared_at st \<noteq> None \<longrightarrow> st \<in> set (r_stops r))"
proof -
  let ?legacy = "adapterClearPath (cv_contract v) = ClearRemove" and ?now = "truncate_second (cv_clock v)"
    and ?open = "unsettled (map stop_id (r_stops stored)) (cv_inflight v)"
  obtain left ended where c: "clear_stops ?legacy ?now ends (r_stops stored) = Some (left, ended)"
    "clear_admits v e ends stored" "list_all (\<lambda>x. stopEnded (sr_entry x) ends) ?open"
    and r: "r = stored\<lparr>r_estop_state := EstopResuming, r_held_by := [], r_stops := left\<rparr>"
    and res: "cr_ended res = sort (ended @ map (\<lambda>x. stop_id (sr_entry x)) ?open)"
      "cr_inflight res = mark_cleared ?legacy ?now ?open (cv_inflight v)"
    using assms by (auto simp: clearOnce_def clear_kept_def Let_def split: if_splits option.splits api_write.splits)
  have "HeldOnRecord r = None" using c(2) by (simp add: r HeldOnRecord_def clear_admits_def)
  moreover have "sr_cleared_at x \<noteq> None" if "x \<in> set (cr_inflight res)" "stop_id (sr_entry x) \<notin> stop_id ` set (r_stops stored)" for x
    using that by (auto simp: res(2) mark_cleared_def unsettled_def settledByClear_def split: if_splits)
  ultimately show ?thesis
    using clear_stops_all [OF c(1)] by (auto simp: r res(1))
qed

theorem written_clear_ends_every_stop_witness:
  "let r = (sample_robot ''r'' 50)\<lparr>r_estop_state := EstopStopped, r_stops := [sample_stop]\<rparr>;
       v = sample_clear_view r
   in \<exists>res r'. clearOnce v sample_ends 3 = Inr res \<and> cr_robot res = Some r' \<and> (\<forall>st \<in> set (r_stops r'). stop_cleared_at st \<noteq> None)"
proof -
  let ?r = "(sample_robot ''r'' 50)\<lparr>r_estop_state := EstopStopped, r_stops := [sample_stop]\<rparr>"
  obtain res r' where c: "clearOnce (sample_clear_view ?r) sample_ends 3 = Inr res" "cr_robot res = Some r'"
    by (simp add: clearOnce_def sample_clear_view_def sample_ends_def sample_stop_def clear_admits_def supersededByLaterStop_def
        new_order_def stored_state_def sample_robot_def adapterClearPath_def stopEnded_def unsettled_def Let_def)
  show ?thesis
    using written_clear_ends_every_stop [OF c(1) _ c(2), of ?r] c by (auto simp: sample_clear_view_def Let_def)
qed


lemma sample_sys_sel [simp]:
  "y_robot (sample_sys r o1 ws) = r" "y_order (sample_sys r o1 ws) = o1" "y_inflight (sample_sys r o1 ws) = []"
  "y_fenced (sample_sys r o1 ws) = []" "y_retrying (sample_sys r o1 ws) = ws"
  by (simp_all add: sample_sys_def)

lemma view_of_sample: "view_of (sample_sys r o1 ws) (sample_view r o1 p) copy"
  by (simp add: view_of_def sample_sys_def sample_view_def unrecordedInForce_def)

lemma sample_write:
  assumes "writable s" "\<not> (isEstopRelease s \<and> supersededByLaterStop o1 e)" "\<not> (\<not> isEstopRelease s \<and> e < o_stopped_by o1)"
    and "wr_written (writeEstopStateOnce (sample_view r o1 p) r s e)"
  shows "stop_step (sample_sys r o1 ws) (Wrote s e)
    (after_write s e (writeEstopStateOnce (sample_view r o1 p) r s e) (sample_sys r o1 ws))"
  using stop_step.first_write [OF assms(1) view_of_sample [of r o1 ws p r] _ _ refl, of e] assms(2-4) by simp

lemma sample_released:
  assumes "r = (sample_robot ''r'' 50)\<lparr>r_estop_state := EstopStopped\<rparr>"
  shows "\<exists>y'. stop_run (sample_sys r new_order []) [ClearIssued 1, Cleared 1, ConfirmIssued 2, Wrote EstopNormal 2] y'
    \<and> r_estop_state (y_robot y') = EstopNormal"
proof -
  let ?o1 = "new_order\<lparr>o_issued := 1, o_last_clear := 1\<rparr>" and ?o2 = "new_order\<lparr>o_issued := 2, o_last_clear := 1\<rparr>"
  let ?r1 = "r\<lparr>r_estop_state := EstopResuming\<rparr>"
  let ?v = "(sample_clear_view r)\<lparr>cv_order := ?o1\<rparr>"
  have "stop_step (sample_sys r new_order []) (ClearIssued 1) (sample_sys r ?o1 [])"
    using stop_step.issue_clear [of "sample_sys r new_order []" 1 ?o1] by (simp add: sample_sys_def issueClearEpoch_def new_order_def)
  moreover obtain res where res: "clearOnce ?v sample_ends 1 = Inr res" "cr_robot res = Some ?r1" "cr_order res = ?o1" "cr_inflight res = []" "cr_unfence res"
    by (simp add: assms clearOnce_def sample_clear_view_def sample_ends_def clear_admits_def supersededByLaterStop_def
        new_order_def stored_state_def sample_robot_def adapterClearPath_def unsettled_def mark_cleared_def Let_def)
  have "stop_step (sample_sys r ?o1 []) (Cleared 1) (sample_sys ?r1 ?o1 [])"
    using stop_step.clear_write [OF _ res(1,2), of "sample_sys r ?o1 []"] res(3-5)
    by (simp add: sample_sys_def clear_view_of_def sample_clear_view_def)
  moreover have "stop_step (sample_sys ?r1 ?o1 []) (ConfirmIssued 2) (sample_sys ?r1 ?o2 [])"
    using stop_step.issue_confirm [of "sample_sys ?r1 ?o1 []" 2 ?o2] by (simp add: sample_sys_def issueEstopEpoch_def new_order_def)
  moreover have w: "wr_written (writeEstopStateOnce (sample_view ?r1 ?o2 Written) ?r1 EstopNormal 2)"
    by (simp add: assms writeEstopStateOnce_def sample_view_def stopInForce_def HeldOnRecord_def sample_robot_def Let_def)
  then have "stop_step (sample_sys ?r1 ?o2 []) (Wrote EstopNormal 2)
      (after_write EstopNormal 2 (writeEstopStateOnce (sample_view ?r1 ?o2 Written) ?r1 EstopNormal 2) (sample_sys ?r1 ?o2 []))"
    by (intro sample_write) (simp_all add: writable_def isEstopRelease_def supersededByLaterStop_def new_order_def)
  ultimately have "stop_run (sample_sys r new_order []) ([] @ [ClearIssued 1] @ [Cleared 1] @ [ConfirmIssued 2] @ [Wrote EstopNormal 2])
      (after_write EstopNormal 2 (writeEstopStateOnce (sample_view ?r1 ?o2 Written) ?r1 EstopNormal 2) (sample_sys ?r1 ?o2 []))"
    unfolding append_assoc [symmetric] by (intro run_step) (rule run_nil)
  then show ?thesis using after_write_written [OF view_of_sample refl w] by auto
qed




text \<open>
  Claim C6. An operator's confirmation releases a robot only when the robot is ready. Where it answers
  that the release is confirmed, the robot was Resuming; it sent a frame after the baseline of its
  clear, and its latest report is written; neither its own report nor the control plane has it in
  Error or Offline; no hardware is Failed; every capability that was Active at the stop is Active again
  or Paused by a maintenance window; its work is held; and the Robot over which Normal was written was
  Resuming with no stop in force.
\<close>

theorem resume_only_when_ready:
  assumes "ConfirmResume env = (Inr (s, Confirmed), o', r', actions)" "re_read env = Some r" "re_order env = Some o0"
  shows "r_estop_state r = EstopResuming
    \<and> (\<exists>baseline t. resume_baseline env o0 r = Some baseline \<and> lastFrame (re_telemetry env) r = Some t \<and> baseline < t)
    \<and> \<not> lastReportUnwritten (re_telemetry env) r \<and> \<not> fault_phase (reportedPhase (re_telemetry env) r) \<and> \<not> fault_phase (r_phase r)
    \<and> (\<forall>h \<in> set (r_hardware r). snd h \<noteq> HardwareFailed)
    \<and> (\<forall>b c. r_estop_baseline r = Some b \<and> c \<in> set (r_capabilities r) \<and> cap_name c \<in> set (bl_active b)
        \<longrightarrow> cap_status c = CapActive \<or> cap_paused c)
    \<and> fst (holdClearedWork (re_work env) (r_name r))
    \<and> (\<exists>k stored. k \<le> 4 \<and> (wv_stored (re_views env k) = Some stored \<or> wv_stored (re_views env k) = None \<and> stored = r)
        \<and> r_estop_state stored = EstopResuming \<and> stopInForce (re_views env k) stored = None \<and> r' = Some (next_robot (re_views env k) EstopNormal stored))"
proof -
  obtain o1 where e: "issueEstopEpoch False o0 = (o_issued o0 + 1, o1)" "o1 = o0\<lparr>o_issued := o_issued o0 + 1\<rparr>"
    by (simp add: issueEstopEpoch_def)
  let ?res = "writeEstopState (re_views env) r EstopNormal (o_issued o0 + 1)"
  have c: "r_estop_state r = EstopResuming" "resume_checks env o1 r = None" "fst (holdClearedWork (re_work env) (r_name r))"
    "wr_written ?res" "r' = wr_patched ?res"
    using assms e(1) resume_checks_refuse [of env o1 r] by (auto simp: ConfirmResume_def rearmResumeAfterFailover_def Let_def split: option.splits prod.splits if_splits)
  have base: "resume_baseline env o1 r = resume_baseline env o0 r" by (simp add: resume_baseline_def e(2))
  obtain baseline f where chk: "resume_baseline env o0 r = Some baseline" "frame_after (lastFrame (re_telemetry env) r) baseline"
    "\<not> lastReportUnwritten (re_telemetry env) r" "resumeRefusal r (f r) (reportedPhase (re_telemetry env) r) = None"
    using c(2) base by (auto simp: resume_checks_def split: option.splits if_splits)
  have "\<exists>t. lastFrame (re_telemetry env) r = Some t \<and> baseline < t"
    using chk(2) by (auto simp: frame_after_def split: option.splits)
  moreover have "\<exists>k stored. k \<le> 4 \<and> (wv_stored (re_views env k) = Some stored \<or> wv_stored (re_views env k) = None \<and> stored = r)
      \<and> r_estop_state stored = EstopResuming \<and> stopInForce (re_views env k) stored = None \<and> r' = Some (next_robot (re_views env k) EstopNormal stored)"
    using written_release [OF c(4)] c(5) by simp
  ultimately show ?thesis
    using c(1,3) chk(1,3) resumeRefusal_faults [OF chk(4)] resumeRefusal_None [OF chk(4)] by blast
qed

theorem resume_only_when_ready_witness:
  "r_estop_state sample_resuming = EstopResuming \<and> (\<exists>t. lastFrame (Some (\<lambda>_. sample_frames)) sample_resuming = Some t \<and> 5 < t)"
proof -
  let ?env = "sample_resume_env sample_resuming"
  obtain s o' r' actions where c: "ConfirmResume ?env = (Inr (s, Confirmed), o', r', actions)"
    by (simp add: sample_resume_env_def sample_resuming_def sample_frames_def ConfirmResume_def HeldOnRecord_def sample_robot_def
        issueEstopEpoch_def new_order_def armResumeWindow_def resume_checks_def resume_baseline_def frame_after_def lastFrame_def telemetry_of_def
        annotation_def lastReportUnwritten_def resumeRefusal_def reportedPhase_def fault_phase_def capabilityRefusal_def
        holdClearedWork_def writeEstopState_def supersededByLaterStop_def isEstopRelease_def write_retries_def numeral_eq_Suc
        writeEstopStateOnce_def sample_view_def stopInForce_def RobotIDAnnotation_def TriggerAnnotation_def Let_def)
  have e: "re_read ?env = Some sample_resuming" "re_order ?env = Some (armResumeWindow 5 new_order)"
    "re_telemetry ?env = Some (\<lambda>_. sample_frames)"
    by (simp_all add: sample_resume_env_def)
  then show ?thesis
    using resume_only_when_ready [OF c e(1,2)] by (auto simp: resume_baseline_def armResumeWindow_def)
qed

text \<open>
  The ordering checks of a write are made once, before its first attempt; the write lock is given up
  between two attempts. An outcome that met a conflict is then written over the confirmed stop of a
  later trigger, which the first attempt would have refused.
\<close>

lemma older_outcome_overwrites_confirmed_stop:
  "\<exists>y1 y2. stop_run (sample_sys (sample_robot ''r'' 50) new_order []) [Triggered 1, Triggered 2, Quiet, Wrote EstopStopped 2] y1
     \<and> r_estop_state (y_robot y1) = EstopStopped \<and> o_stopped_by (y_order y1) = 2
     \<and> stop_step y1 (Rewrote EstopFailed 1) y2 \<and> r_estop_state (y_robot y2) = EstopFailed"
proof -
  let ?r = "sample_robot ''r'' 50"
  let ?o1 = "new_order\<lparr>o_issued := 1, o_last_stop := 1\<rparr>" and ?o2 = "new_order\<lparr>o_issued := 2, o_last_stop := 2\<rparr>"
  let ?ws = "[(EstopFailed, 1::nat)]"
  have "stop_step (sample_sys ?r new_order []) (Triggered 1) (sample_sys ?r ?o1 [])"
    using stop_step.issue_stop [of "sample_sys ?r new_order []" 1 ?o1] by (simp add: sample_sys_def issueEstopEpoch_def new_order_def)
  moreover have "stop_step (sample_sys ?r ?o1 []) (Triggered 2) (sample_sys ?r ?o2 [])"
    using stop_step.issue_stop [of "sample_sys ?r ?o1 []" 2 ?o2] by (simp add: sample_sys_def issueEstopEpoch_def new_order_def)
  moreover have "stop_step (sample_sys ?r ?o2 []) Quiet (sample_sys ?r ?o2 ?ws)"
    using stop_step.first_write [OF _ view_of_sample [of ?r ?o2 "[]" Conflicted ?r] _ _ refl, of EstopFailed 1]
    by (simp add: writable_def isEstopRelease_def new_order_def writeEstopStateOnce_def sample_view_def sample_robot_def unwritten_def
        after_write_def sample_sys_def Let_def)
  moreover define res where "res = writeEstopStateOnce (sample_view ?r ?o2 Written) ?r EstopStopped 2"
  define y1 where "y1 = after_write EstopStopped 2 res (sample_sys ?r ?o2 ?ws)"
  have w: "wr_written res" by (simp add: res_def writeEstopStateOnce_def sample_view_def sample_robot_def Let_def)
  have "stop_step (sample_sys ?r ?o2 ?ws) (Wrote EstopStopped 2) y1"
    using sample_write [of EstopStopped ?o2 2 ?r Written ?ws] w
    by (simp add: writable_def isEstopRelease_def new_order_def y1_def res_def)
  ultimately have run: "stop_run (sample_sys ?r new_order []) ([] @ [Triggered 1] @ [Triggered 2] @ [Quiet] @ [Wrote EstopStopped 2]) y1"
    unfolding append_assoc [symmetric] by (intro run_step) (rule run_nil)
  let ?r1 = "y_robot y1" and ?o3 = "?o2\<lparr>o_stopped_by := 2\<rparr>"
  have y1: "y1 = sample_sys ?r1 ?o3 ?ws" "r_estop_state ?r1 = EstopStopped"
    by (simp_all add: y1_def res_def after_write_def writeEstopStateOnce_def sample_view_def sample_robot_def sample_sys_def Let_def)
  let ?res = "writeEstopStateOnce (sample_view ?r1 ?o3 Written) ?r1 EstopFailed 1"
  have w2: "wr_written ?res" using y1(2) by (simp add: writeEstopStateOnce_def sample_view_def Let_def)
  have "stop_step y1 (Rewrote EstopFailed 1) (after_write EstopFailed 1 ?res y1)"
    using stop_step.next_write [OF _ _ view_of_sample [of ?r1 ?o3 ?ws Written ?r1] refl, of EstopFailed 1] w2 y1(1)
    by (simp add: writable_def)
  moreover have "r_estop_state (y_robot (after_write EstopFailed 1 ?res y1)) = EstopFailed"
    using after_write_written [OF view_of_sample [of ?r1 ?o3 ?ws Written ?r1] refl w2] y1(1) by simp
  moreover have "o_stopped_by (y_order y1) = 2" by (subst y1(1)) simp
  ultimately show ?thesis using run y1(2) by auto
qed

text \<open>
  A confirmation that met a conflict likewise writes Normal after a trigger issued later than it, where
  nothing of that trigger has reached the Robot or the process's own state yet.
\<close>

lemma retried_release_overtakes_stop:
  "\<exists>y1 y2. stop_run (sample_sys sample_resuming new_order []) [ConfirmIssued 1, Quiet, Triggered 2] y1 \<and> o_last_stop (y_order y1) = 2
     \<and> stop_step y1 (Rewrote EstopNormal 1) y2 \<and> r_estop_state (y_robot y2) = EstopNormal"
proof -
  let ?r = sample_resuming and ?ws = "[(EstopNormal, 1::nat)]"
  let ?o1 = "new_order\<lparr>o_issued := 1\<rparr>" and ?o2 = "new_order\<lparr>o_issued := 2, o_last_stop := 2\<rparr>"
  have "stop_step (sample_sys ?r new_order []) (ConfirmIssued 1) (sample_sys ?r ?o1 [])"
    using stop_step.issue_confirm [of "sample_sys ?r new_order []" 1 ?o1] by (simp add: sample_sys_def issueEstopEpoch_def new_order_def)
  moreover have "stop_step (sample_sys ?r ?o1 []) Quiet (sample_sys ?r ?o1 ?ws)"
    using stop_step.first_write [OF _ view_of_sample [of ?r ?o1 "[]" Conflicted ?r] _ _ refl, of EstopNormal 1]
    by (simp add: writable_def isEstopRelease_def supersededByLaterStop_def new_order_def writeEstopStateOnce_def sample_view_def
        sample_resuming_def sample_robot_def stopInForce_def HeldOnRecord_def TriggerAnnotation_def RobotIDAnnotation_def
        unwritten_def after_write_def sample_sys_def Let_def)
  moreover have "stop_step (sample_sys ?r ?o1 ?ws) (Triggered 2) (sample_sys ?r ?o2 ?ws)"
    using stop_step.issue_stop [of "sample_sys ?r ?o1 ?ws" 2 ?o2] by (simp add: sample_sys_def issueEstopEpoch_def new_order_def)
  ultimately have run: "stop_run (sample_sys ?r new_order []) ([] @ [ConfirmIssued 1] @ [Quiet] @ [Triggered 2]) (sample_sys ?r ?o2 ?ws)"
    unfolding append_assoc [symmetric] by (intro run_step) (rule run_nil)
  let ?res = "writeEstopStateOnce (sample_view ?r ?o2 Written) ?r EstopNormal 1"
  have w: "wr_written ?res"
    by (simp add: writeEstopStateOnce_def sample_view_def sample_resuming_def sample_robot_def stopInForce_def HeldOnRecord_def
        TriggerAnnotation_def RobotIDAnnotation_def Let_def)
  have "stop_step (sample_sys ?r ?o2 ?ws) (Rewrote EstopNormal 1) (after_write EstopNormal 1 ?res (sample_sys ?r ?o2 ?ws))"
    using stop_step.next_write [OF _ _ view_of_sample [of ?r ?o2 ?ws Written ?r] refl, of EstopNormal 1] w by (simp add: writable_def)
  moreover have "r_estop_state (y_robot (after_write EstopNormal 1 ?res (sample_sys ?r ?o2 ?ws))) = EstopNormal"
    using after_write_written [OF view_of_sample refl w] by simp
  moreover have "o_last_stop (y_order (sample_sys ?r ?o2 ?ws)) = 2" by simp
  ultimately show ?thesis using run unfolding append.simps by blast
qed

end
