(* ===== verification/SafetyStreams.thy ===== *)
theory SafetyStreams
  imports StopState
begin

text \<open>
  Sending a stop and taking its answer (\<^verbatim>\<open>internal/safety\<close>: the streams, waiters and triggers of
  \<^verbatim>\<open>dispatcher.go\<close>, the records of \<^verbatim>\<open>status.stops\<close>, \<^verbatim>\<open>takeover.go\<close> and \<^verbatim>\<open>removed.go\<close>). A stream is
  named by a number, its pointer in the code; a waiter carries the number of its registration, so two
  waiters of one stop differ. The answers a waiter has not read are the buffer of its channel. The keys
  the code joins with a slash, which no name contains, are pairs.
\<close>

subsection \<open>The state of the dispatcher\<close>

type_synonym stream = nat

record tls_identity =
  id_verified :: bool
  id_namespace :: string
  id_adapter :: string

record pending_key =
  pk_namespace :: string
  pk_robot :: string
  pk_stop :: string

record pending_estop =
  pe_id :: nat
  pe_adapter :: string
  pe_sender :: stream
  pe_robot :: string
  pe_key :: pending_key
  pe_epoch :: nat
  pe_deadline :: "time option"
  pe_settled :: bool
  pe_takeable :: bool
  pe_acks :: "ack_state list"

text \<open>An Estop on the wire: the stream it goes down, the robot and the stop it names, its sequence number.\<close>

record estop_message =
  em_stream :: stream
  em_robot :: string
  em_stop :: string
  em_seq :: nat

record removed_stop =
  rs_id :: string
  rs_uid :: string
  rs_cleared_at :: time

record kept_report =
  kr_wire :: string
  kr_stop :: removed_stop

record safety_state =
  ss_streams :: "string \<times> string \<rightharpoonup> stream"
  ss_pending :: "(pending_key \<times> pending_estop) list"
  ss_orders :: "string \<times> string \<rightharpoonup> estop_order"
  ss_counter :: nat
  ss_inflight :: "string \<times> string \<Rightarrow> stop_record list"
  ss_contracts :: "string \<times> string \<rightharpoonup> string"
  ss_removed :: "string \<times> string \<Rightarrow> removed_stop list"
  ss_issued :: "string list"
  ss_kept :: "string \<times> string \<Rightarrow> kept_report list"

definition safety_init :: safety_state where
  "safety_init = \<lparr>ss_streams = Map.empty, ss_pending = [], ss_orders = Map.empty, ss_counter = 0, ss_inflight = (\<lambda>_. []),
     ss_contracts = Map.empty, ss_removed = (\<lambda>_. []), ss_issued = [], ss_kept = (\<lambda>_. [])\<rparr>"

definition adapter_key :: "tls_identity \<Rightarrow> string \<times> string" where
  "adapter_key i = (id_namespace i, id_adapter i)"

definition orderFor :: "string \<times> string \<Rightarrow> safety_state \<Rightarrow> estop_order" where
  "orderFor k st = (case ss_orders st k of Some o1 \<Rightarrow> o1 | None \<Rightarrow> new_order)"

definition issue_stop_epoch :: "string \<times> string \<Rightarrow> safety_state \<Rightarrow> nat \<times> safety_state" where
  "issue_stop_epoch k st = (case issueEstopEpoch True (orderFor k st) of (e, o1) \<Rightarrow> (e, st\<lparr>ss_orders := (ss_orders st)(k \<mapsto> o1)\<rparr>))"

subsection \<open>Waiters and streams\<close>

text \<open>
  The waiter of a stop on the adapter's stream, if it has one. A waiter of a stream-open re-send of the
  same stop is handed over: its number is the second component.
\<close>

definition register_estop :: "string \<Rightarrow> string \<Rightarrow> string \<Rightarrow> string \<Rightarrow> string \<Rightarrow> nat \<Rightarrow> safety_state
    \<Rightarrow> (stream \<times> pending_estop) option \<times> nat option \<times> safety_state" where
  "register_estop ns rob wid adapter stopID epoch st = (case ss_streams st (ns, adapter) of
     None \<Rightarrow> (None, None, st)
   | Some sender \<Rightarrow>
       let n = ss_counter st + 1; key = \<lparr>pk_namespace = ns, pk_robot = wid, pk_stop = stopID\<rparr>;
           p = \<lparr>pe_id = n, pe_adapter = adapter, pe_sender = sender, pe_robot = rob, pe_key = key, pe_epoch = epoch,
                pe_deadline = None, pe_settled = False, pe_takeable = False, pe_acks = []\<rparr>
       in (Some (sender, p),
           (case map_of (ss_pending st) key of Some old \<Rightarrow> if pe_takeable old then Some (pe_id old) else None | None \<Rightarrow> None),
           st\<lparr>ss_counter := n, ss_pending := put key p (ss_pending st)\<rparr>))"

definition deregister_estop :: "pending_estop \<Rightarrow> safety_state \<Rightarrow> safety_state" where
  "deregister_estop p st =
     st\<lparr>ss_pending := filter (\<lambda>(k, q). \<not> (k = pe_key p \<and> pe_id q = pe_id p)) (ss_pending st)\<rparr>"

text \<open>A change to a waiter that is still registered.\<close>

definition on_waiter :: "pending_estop \<Rightarrow> (pending_estop \<Rightarrow> pending_estop) \<Rightarrow> safety_state \<Rightarrow> safety_state" where
  "on_waiter p f st = st\<lparr>ss_pending := map (\<lambda>(k, q). (k, if k = pe_key p \<and> pe_id q = pe_id p then f q else q)) (ss_pending st)\<rparr>"

definition startWindowAt :: "pending_estop \<Rightarrow> time \<Rightarrow> safety_state \<Rightarrow> safety_state" where
  "startWindowAt p wend st = on_waiter p (\<lambda>q. q\<lparr>pe_deadline := Some wend\<rparr>) st"

definition settle :: "pending_estop \<Rightarrow> safety_state \<Rightarrow> safety_state" where
  "settle p st = on_waiter p (\<lambda>q. q\<lparr>pe_settled := True\<rparr>) st"

definition settleUnlessResent :: "pending_estop \<Rightarrow> stream \<Rightarrow> safety_state \<Rightarrow> bool \<times> safety_state" where
  "settleUnlessResent p from1 st =
     (case find (\<lambda>(k, q). k = pe_key p \<and> pe_id q = pe_id p) (ss_pending st) of
        Some (k, q) \<Rightarrow> if pe_sender q \<noteq> from1 then (False, st) else (True, settle p st)
      | None \<Rightarrow> if pe_sender p \<noteq> from1 then (False, st) else (True, st))"

text \<open>
  Whether a waiter of the replaced stream is still wanted: not resolved, its window not over, and
  neither a newer trigger nor a clear issued for the robot since its own.
\<close>

definition still_wanted :: "tls_identity \<Rightarrow> stream \<Rightarrow> time \<Rightarrow> safety_state \<Rightarrow> pending_estop \<Rightarrow> bool" where
  "still_wanted i replaced now st p =
     (pe_sender p = replaced \<and> pk_namespace (pe_key p) = id_namespace i \<and> pe_adapter p = id_adapter i
      \<and> \<not> pe_settled p \<and> (case pe_deadline p of None \<Rightarrow> True | Some d \<Rightarrow> now < d)
      \<and> (case ss_orders st (pk_namespace (pe_key p), pe_robot p) of
           None \<Rightarrow> False
         | Some o1 \<Rightarrow> o_last_stop o1 = pe_epoch p \<and> o_last_clear o1 \<le> pe_epoch p))"

definition rebindLocked :: "tls_identity \<Rightarrow> stream option \<Rightarrow> stream \<Rightarrow> time \<Rightarrow> safety_state
    \<Rightarrow> (string \<times> estop_message) list \<times> safety_state" where
  "rebindLocked i replaced sender now st = (case replaced of
     None \<Rightarrow> ([], st)
   | Some old \<Rightarrow>
       if old = sender then ([], st)
       else let moved = sort_key (\<lambda>p. pk_stop (pe_key p)) (filter (still_wanted i old now st) (map snd (ss_pending st)));
                msgs = map (\<lambda>(n, p). (pe_robot p, \<lparr>em_stream = sender, em_robot = pk_robot (pe_key p), em_stop = pk_stop (pe_key p),
                          em_seq = ss_counter st + n\<rparr>)) (zip [1..<length moved + 1] moved)
            in (msgs, st\<lparr>ss_counter := ss_counter st + length moved,
                  ss_pending := map (\<lambda>(k, p). (k, if still_wanted i old now st p then p\<lparr>pe_sender := sender\<rparr> else p)) (ss_pending st)\<rparr>))"

text \<open>
  The registration of a SafetyStream: the messages to push down it, and the state. The code then also
  sends each robot of the adapter the stops it holds (\<open>resend_held\<close> below).
\<close>

definition RegisterStream :: "tls_identity \<Rightarrow> stream \<Rightarrow> time \<Rightarrow> safety_state \<Rightarrow> (string \<times> estop_message) list \<times> safety_state" where
  "RegisterStream i sender now st =
     (if \<not> id_verified i then ([], st)
      else rebindLocked i (ss_streams st (adapter_key i)) sender now
             (st\<lparr>ss_streams := (ss_streams st)(adapter_key i \<mapsto> sender)\<rparr>))"

definition DeregisterStream :: "tls_identity \<Rightarrow> stream \<Rightarrow> safety_state \<Rightarrow> safety_state" where
  "DeregisterStream i sender st =
     (if id_verified i \<and> ss_streams st (adapter_key i) = Some sender
      then st\<lparr>ss_streams := (ss_streams st)(adapter_key i := None)\<rparr> else st)"

subsection \<open>Routing an answer\<close>

definition rememberedLocked :: "string \<Rightarrow> string \<Rightarrow> string \<Rightarrow> safety_state \<Rightarrow> removed_stop option" where
  "rememberedLocked ns wid stopID st = find (\<lambda>r. rs_id r = stopID) (ss_removed st (ns, wid))"

datatype routed = Dropped | AnswerRemoved removed_stop | Misrouted | Delivered

definition ack_buffer :: nat where "ack_buffer = 4"

definition take_ack :: "ack_state \<Rightarrow> pending_estop \<Rightarrow> pending_estop" where
  "take_ack a q = q\<lparr>pe_settled := (pe_settled q \<or> a = AckStopped \<or> a = AckFailed),
     pe_acks := (if length (pe_acks q) < ack_buffer then pe_acks q @ [a] else pe_acks q)\<rparr>"

text \<open>An ack is its stop identifier and state; \<open>None\<close> is a message without one.\<close>

definition RouteAck :: "tls_identity \<Rightarrow> stream \<Rightarrow> string \<Rightarrow> (string \<times> ack_state) option \<Rightarrow> safety_state \<Rightarrow> routed \<times> safety_state" where
  "RouteAck i from1 rid ack st = (case ack of
     None \<Rightarrow> (Dropped, st)
   | Some (stopID, a) \<Rightarrow>
       if \<not> id_verified i \<or> rid = [] then (Dropped, st)
       else case map_of (ss_pending st) \<lparr>pk_namespace = id_namespace i, pk_robot = rid, pk_stop = stopID\<rparr> of
           None \<Rightarrow> (case rememberedLocked (id_namespace i) rid stopID st of
               Some rm \<Rightarrow> (AnswerRemoved rm, st)
             | None \<Rightarrow> (Dropped, st))
         | Some p \<Rightarrow>
             if pe_adapter p \<noteq> id_adapter i \<or> pe_sender p \<noteq> from1 then (Misrouted, st)
             else (Delivered, on_waiter p (take_ack a) st))"

subsection \<open>Recording a stop\<close>

datatype estop_scope = ScopeRobot | ScopeZone | ScopeNamespace | ScopeOther string

definition newStopRecord :: "robot \<Rightarrow> string \<Rightarrow> estop_scope \<Rightarrow> stop_carrier_ref option \<Rightarrow> time \<Rightarrow> stop_record" where
  "newStopRecord r stopID scope carrier sentAt =
     (let own = \<lparr>sc_kind = StopCarrierRobot, sc_name = r_name r, sc_uid = r_uid r\<rparr>;
          entry = \<lparr>stop_id = stopID,
            stop_scope = (case scope of ScopeZone \<Rightarrow> StopScopeZone | ScopeNamespace \<Rightarrow> StopScopeNamespace | _ \<Rightarrow> StopScopeRobot),
            stop_carrier = (if scope \<in> {ScopeZone, ScopeNamespace} \<or> carrier \<noteq> None then carrier else Some own),
            stop_sent_at = sentAt, stop_acknowledged_at = None, stop_cleared_at = None\<rparr>
      in \<lparr>sr_entry = entry, sr_epoch = 0, sr_cleared_at = None, sr_removed = False\<rparr>)"

definition maxRecordedStops :: nat where "maxRecordedStops = 256"

text \<open>
  A change to the recorded stops of a Robot: whether it changed anything, whether the record is full,
  and the Robot.
\<close>

type_synonym record_change = "robot \<Rightarrow> bool \<times> bool \<times> robot"

definition append_stop :: "robot_stop \<Rightarrow> time option \<Rightarrow> time option \<Rightarrow> bool \<Rightarrow> record_change" where
  "append_stop entry acked clearedAt removed r =
     (if list_ex (\<lambda>s. stop_id s = stop_id entry) (r_stops r) then (False, False, r)
      else if maxRecordedStops \<le> length (r_stops r) then (False, True, r)
      else if removed then (False, False, r)
      else (True, False, r\<lparr>r_stops := r_stops r @
             [entry\<lparr>stop_acknowledged_at := acked, stop_cleared_at := (case clearedAt of None \<Rightarrow> stop_cleared_at entry | c \<Rightarrow> c)\<rparr>]\<rparr>))"

fun ack_first :: "string \<Rightarrow> time \<Rightarrow> robot_stop list \<Rightarrow> robot_stop list" where
  "ack_first stopID t [] = []"
| "ack_first stopID t (s # ss) = (if stop_id s = stopID then s\<lparr>stop_acknowledged_at := Some t\<rparr> # ss else s # ack_first stopID t ss)"

definition acknowledge_stop :: "string \<Rightarrow> time \<Rightarrow> record_change" where
  "acknowledge_stop stopID t r = (case find (\<lambda>s. stop_id s = stopID) (r_stops r) of
     None \<Rightarrow> (False, False, r)
   | Some s \<Rightarrow>
       if stop_acknowledged_at s \<noteq> None then (False, False, r)
       else (True, False, r\<lparr>r_stops := ack_first stopID t (r_stops r)\<rparr>))"

definition remove_cleared :: "(robot_stop \<Rightarrow> bool) \<Rightarrow> record_change" where
  "remove_cleared match r =
     (let keep = filter (\<lambda>s. stop_cleared_at s = None \<or> \<not> match s) (r_stops r)
      in if length keep = length (r_stops r) then (False, False, r) else (True, False, r\<lparr>r_stops := keep\<rparr>))"

text \<open>The entry an EstopClearAck removes: the first of its identifier, and only if it is cleared.\<close>

definition lift_stop :: "string \<Rightarrow> record_change" where
  "lift_stop stopID r = (case find (\<lambda>s. stop_id s = stopID) (r_stops r) of
     None \<Rightarrow> (False, False, r)
   | Some s \<Rightarrow> if stop_cleared_at s = None then (False, False, r)
       else (True, False, r\<lparr>r_stops := remove1 s (r_stops r)\<rparr>))"

datatype call_error = CallNotFound | CallRefused | CallConflict | CallTransient

record record_view =
  rv_leading :: bool
  rv_read :: "call_error + robot"
  rv_patch :: "call_error option"

definition writeStopRecordAttempt :: "record_view \<Rightarrow> record_change \<Rightarrow> call_error + bool \<times> (robot \<times> robot) option" where
  "writeStopRecordAttempt v change = (case rv_read v of
     Inl e \<Rightarrow> Inl e
   | Inr r \<Rightarrow> (case change r of (changed, full, r') \<Rightarrow>
       if full then Inr (False, None)
       else if \<not> changed then Inr (True, None)
       else case rv_patch v of Some e \<Rightarrow> Inl e | None \<Rightarrow> Inr (True, Some (r, r'))))"

text \<open>
  The retries of a record write: \<open>views k\<close> is what attempt \<open>k\<close> finds, \<open>change k\<close> its change. The code
  tries until the write is settled; \<open>None\<close> is a write not settled within the attempts given. A write that
  landed gives the Robot it read and the Robot it wrote.
\<close>

fun writeStopRecord :: "(nat \<Rightarrow> record_view) \<Rightarrow> (nat \<Rightarrow> record_change) \<Rightarrow> nat \<Rightarrow> nat \<Rightarrow> (bool \<times> (robot \<times> robot) option) option" where
  "writeStopRecord views change k 0 = None"
| "writeStopRecord views change k (Suc n) =
     (if \<not> rv_leading (views k) then Some (False, None)
      else case writeStopRecordAttempt (views k) (change k) of
          Inr res \<Rightarrow> Some res
        | Inl CallNotFound \<Rightarrow> Some (False, None)
        | Inl CallRefused \<Rightarrow> Some (False, None)
        | Inl _ \<Rightarrow> writeStopRecord views change (Suc k) n)"

definition recordable :: "robot_stop \<Rightarrow> bool" where
  "recordable entry = (stop_carrier entry \<noteq> None \<or> stop_scope entry \<in> {StopScopeReported, StopScopeEndState})"

text \<open>
  The record of a stop: its append, with the acknowledgement and the clear each attempt knows of, and
  then its acknowledgement, where one came later and the entry was appended. The Robots written are
  listed in order.
\<close>

definition recordStop :: "(nat \<Rightarrow> record_view) \<Rightarrow> (nat \<Rightarrow> time option \<times> time option \<times> bool) \<Rightarrow> nat \<Rightarrow> bool \<Rightarrow> time option
    \<Rightarrow> (nat \<Rightarrow> record_view) \<Rightarrow> nat \<Rightarrow> stop_record \<Rightarrow> robot list option" where
  "recordStop views known n removed later ackViews m rec =
     (if \<not> recordable (sr_entry rec) then Some []
      else case writeStopRecord views
             (\<lambda>k. case known k of (acked, clearedAt, gone) \<Rightarrow> append_stop (sr_entry rec) acked clearedAt gone) 0 n of
          None \<Rightarrow> None
        | Some (landed, written) \<Rightarrow>
            let first = (case written of None \<Rightarrow> [] | Some (_, r) \<Rightarrow> [r])
            in if \<not> landed \<or> removed then Some first
               else case later of
                   None \<Rightarrow> Some first
                 | Some t \<Rightarrow> (case writeStopRecord ackViews (\<lambda>_. acknowledge_stop (stop_id (sr_entry rec)) t) 0 m of
                     None \<Rightarrow> None
                   | Some (_, w2) \<Rightarrow> Some (first @ (case w2 of None \<Rightarrow> [] | Some (_, r) \<Rightarrow> [r]))))"

subsection \<open>Stops sent and not yet recorded\<close>

definition trackInflight :: "string \<times> string \<Rightarrow> stop_record \<Rightarrow> safety_state \<Rightarrow> safety_state" where
  "trackInflight k rec st = st\<lparr>ss_inflight := (ss_inflight st)(k :=
     rec # filter (\<lambda>r. stop_id (sr_entry r) \<noteq> stop_id (sr_entry rec)) (ss_inflight st k))\<rparr>"

definition untrackInflight :: "string \<times> string \<Rightarrow> string \<Rightarrow> safety_state \<Rightarrow> safety_state" where
  "untrackInflight k stopID st =
     st\<lparr>ss_inflight := (ss_inflight st)(k := filter (\<lambda>r. stop_id (sr_entry r) \<noteq> stopID) (ss_inflight st k))\<rparr>"

definition markUnrecordedAcked :: "string \<times> string \<Rightarrow> string \<Rightarrow> safety_state \<Rightarrow> bool \<times> safety_state" where
  "markUnrecordedAcked k stopID st =
     (case find (\<lambda>r. stop_id (sr_entry r) = stopID) (ss_inflight st k) of
        None \<Rightarrow> (False, st)
      | Some r \<Rightarrow>
          if sr_cleared_at r = None then (False, st)
          else (True, st\<lparr>ss_inflight := (ss_inflight st)(k := map (\<lambda>x. if stop_id (sr_entry x) = stopID
                  then x\<lparr>sr_removed := True\<rparr> else x) (ss_inflight st k))\<rparr>))"

definition carrier_matches :: "stop_carrier_ref \<Rightarrow> stop_carrier_ref \<Rightarrow> bool" where
  "carrier_matches have1 want = (sc_kind have1 = sc_kind want \<and> sc_name have1 = sc_name want
     \<and> \<not> (sc_uid want \<noteq> [] \<and> sc_uid have1 \<noteq> [] \<and> sc_uid have1 \<noteq> sc_uid want))"

text \<open>Whether this process sent robot \<open>name\<close> a stop of the carrier that is not recorded and not ended.\<close>

definition SentUnrecorded :: "string \<Rightarrow> stop_carrier_ref \<Rightarrow> safety_state \<Rightarrow> string \<Rightarrow> bool" where
  "SentUnrecorded ns carrier st name =
     list_ex (\<lambda>r. sr_cleared_at r = None \<and> (case stop_carrier (sr_entry r) of None \<Rightarrow> False | Some c \<Rightarrow> carrier_matches c carrier))
       (ss_inflight st (ns, name))"

subsection \<open>Issuing a stop\<close>

definition markIssued :: "string \<Rightarrow> safety_state \<Rightarrow> safety_state" where
  "markIssued stopID st = st\<lparr>ss_issued := List.insert stopID (ss_issued st)\<rparr>"

definition predecessorStop :: "safety_state \<Rightarrow> robot \<Rightarrow> estop_scope \<Rightarrow> stop_carrier_ref option \<Rightarrow> robot_stop option" where
  "predecessorStop st r scope carrier =
     (let want = sr_entry (newStopRecord r [] scope carrier zero_time)
      in case stop_carrier want of
          None \<Rightarrow> None
        | Some w \<Rightarrow> find (\<lambda>s. stop_cleared_at s = None \<and> stop_scope s = stop_scope want
              \<and> (case stop_carrier s of None \<Rightarrow> False | Some c \<Rightarrow> carrier_matches c w)
              \<and> stop_id s \<notin> set (ss_issued st)
              \<and> (case map_of (ss_pending st) \<lparr>pk_namespace = r_namespace r, pk_robot = Wire r, pk_stop = stop_id s\<rparr> of
                   Some p \<Rightarrow> pe_epoch p = 0 | None \<Rightarrow> True)) (r_stops r))"

definition confirmTimeout :: duration where "confirmTimeout = 10 * second"

text \<open>
  The answers of a stop arrive at times, and the context may be cancelled at one. A window holds the
  answers before its end.
\<close>

definition in_window :: "time \<Rightarrow> time option \<Rightarrow> (ack_state \<times> time) list \<Rightarrow> (ack_state \<times> time) list" where
  "in_window deadline cancelled arrivals =
     takeWhile (\<lambda>(a, t). t < deadline \<and> (case cancelled of None \<Rightarrow> True | Some d \<Rightarrow> t < d)) arrivals"

definition window_ends :: "time \<Rightarrow> time option \<Rightarrow> window_end" where
  "window_ends deadline cancelled = (case cancelled of None \<Rightarrow> WindowEnds | Some d \<Rightarrow> if d < deadline then ContextDone else WindowEnds)"

text \<open>
  The windows of a stop sent at \<open>sent\<close>: the delivery window runs from the send, the confirmation window
  from the acknowledgement its record holds (\<open>acked\<close>), or else from the first answer.
\<close>

definition confirm_by :: "time option \<Rightarrow> time \<Rightarrow> time" where
  "confirm_by acked answered = (case acked of Some u \<Rightarrow> u + confirmTimeout | None \<Rightarrow> answered + confirmTimeout)"

definition await_windows :: "(robot_estop_state \<Rightarrow> trigger_error option) \<Rightarrow> time \<Rightarrow> duration \<Rightarrow> time option \<Rightarrow> time option
    \<Rightarrow> (ack_state \<times> time) list \<Rightarrow> await_outcome" where
  "await_windows record sent delivery acked cancelled arrivals =
     (let deliverBy = sent + delivery
      in case in_window deliverBy cancelled arrivals of
          [] \<Rightarrow> await record None (window_ends deliverBy cancelled) [] WindowEnds
        | (a, t) # _ \<Rightarrow> await record (Some (a, t - sent)) WindowEnds
            (map fst (in_window (confirm_by acked t) cancelled (tl arrivals))) (window_ends (confirm_by acked t) cancelled))"

text \<open>
  What a trigger asks of its environment: the Robot as the cache holds it, the stop identifier it mints,
  the clock, whether the send succeeds and what other goroutines did to the dispatcher meanwhile, the
  answers, and the write of an outcome.
\<close>

record trigger_env =
  te_robot :: "robot option"
  te_stop_id :: string
  te_clock :: time
  te_send_ok :: bool
  te_meanwhile :: "safety_state \<Rightarrow> safety_state"
  te_delivery :: duration
  te_cancelled :: "time option"
  te_arrivals :: "(ack_state \<times> time) list"
  te_record :: "robot_estop_state \<Rightarrow> trigger_error option"

text \<open>
  What a trigger leaves: its outcome, the Estops it sent, the stop whose fence it handed over, and the
  record it handed to \<open>recordStop\<close>.
\<close>

record trigger_out =
  to_outcome :: await_outcome
  to_sent :: "estop_message list"
  to_fence :: "string option"
  to_record :: "stop_record option"

definition failed_outcome :: "(robot_estop_state \<Rightarrow> trigger_error option) \<Rightarrow> trigger_error \<Rightarrow> await_outcome" where
  "failed_outcome record err =
     (no_result\<lparr>res_state := Some EstopFailed\<rparr>, Some (joinUnwritten err (record EstopFailed)), [EstopFailed])"

text \<open>
  The send of a stop under \<open>stopID\<close> and the wait for its answer, shared by a first send and by the
  re-send of a recorded stop.
\<close>

definition send_and_wait :: "trigger_env \<Rightarrow> robot \<Rightarrow> string \<Rightarrow> nat \<Rightarrow> time option \<Rightarrow> safety_state
    \<Rightarrow> await_outcome \<times> estop_message list \<times> safety_state" where
  "send_and_wait env r stopID epoch acked st =
     (case register_estop (r_namespace r) (r_name r) (Wire r) (r_adapter r) stopID epoch st of
        (None, _, st1) \<Rightarrow> (failed_outcome (te_record env) ErrUndelivered, [], st1)
      | (Some (sender, p), _, st1) \<Rightarrow>
          let msg = \<lparr>em_stream = sender, em_robot = Wire r, em_stop = stopID, em_seq = pe_id p\<rparr>;
              st2 = te_meanwhile env st1;
              ok = (te_send_ok env \<or> \<not> fst (settleUnlessResent p sender st2))
          in if \<not> ok
             then (failed_outcome (te_record env) SendFailure, [msg], deregister_estop p (snd (settleUnlessResent p sender st2)))
             else (await_windows (te_record env) (te_clock env) (te_delivery env) acked (te_cancelled env) (te_arrivals env), [msg],
                   deregister_estop p st2))"

definition runOutRecorded :: "trigger_env \<Rightarrow> robot \<Rightarrow> robot_stop \<Rightarrow> nat \<Rightarrow> safety_state \<Rightarrow> trigger_out \<times> safety_state" where
  "runOutRecorded env r s epoch st =
     (let expired = (case stop_acknowledged_at s of
            None \<Rightarrow> False | Some u \<Rightarrow> r_estop_state r \<noteq> EstopStopped \<and> u + confirmTimeout \<le> te_clock env);
          early = (if expired then te_record env EstopFailed else None)
      in case early of
          Some err \<Rightarrow> (\<lparr>to_outcome = (no_result\<lparr>res_delivered := True, res_state := Some EstopFailed\<rparr>, Some err, [EstopFailed]),
              to_sent = [], to_fence = None, to_record = None\<rparr>, st)
        | None \<Rightarrow> (case send_and_wait env r (stop_id s) epoch (stop_acknowledged_at s) st of ((res, err, ws), sent, st') \<Rightarrow>
            (\<lparr>to_outcome = (res, err, (if expired then [EstopFailed] else []) @ ws), to_sent = sent,
              to_fence = Some (stop_id s), to_record = None\<rparr>, st')))"

definition TriggerEstop :: "trigger_env \<Rightarrow> string \<Rightarrow> string \<Rightarrow> estop_scope \<Rightarrow> stop_carrier_ref option \<Rightarrow> safety_state
    \<Rightarrow> trigger_out \<times> safety_state" where
  "TriggerEstop env ns name scope carrier st =
     (case issue_stop_epoch (ns, name) st of (epoch, st1) \<Rightarrow> (case te_robot env of
        None \<Rightarrow> (\<lparr>to_outcome = (no_result, Some RobotLookup, []), to_sent = [], to_fence = None, to_record = None\<rparr>, st1)
      | Some r \<Rightarrow> (case predecessorStop st1 r scope carrier of
          Some s \<Rightarrow> runOutRecorded env r s epoch st1
        | None \<Rightarrow>
            let stopID = te_stop_id env;
                rec = (newStopRecord r stopID scope carrier (te_clock env))\<lparr>sr_epoch := epoch\<rparr>
            in case send_and_wait env r stopID epoch None (trackInflight (ns, name) rec (markIssued stopID st1)) of
                (outcome, sent, st2) \<Rightarrow>
                  (\<lparr>to_outcome = outcome, to_sent = sent, to_fence = Some stopID, to_record = Some rec\<rparr>, st2))))"

subsection \<open>Stops held when a stream opens\<close>

definition in_stop_state :: "robot \<Rightarrow> bool" where
  "in_stop_state r = (r_estop_state r \<in> {EstopStopping, EstopStopped, EstopFailed})"

definition in_force_ids :: "robot \<Rightarrow> string list" where
  "in_force_ids r = map stop_id (filter (\<lambda>s. stop_cleared_at s = None) (r_stops r))"

text \<open>A stop of its own for a robot in a stop state that records none in force.\<close>

definition unrecordedStop :: "robot \<Rightarrow> string \<Rightarrow> time \<Rightarrow> safety_state \<Rightarrow> stop_record \<times> safety_state" where
  "unrecordedStop r stopID now st =
     (let rec = newStopRecord r stopID ScopeRobot None now
      in (rec, trackInflight (r_namespace r, r_name r) rec (markIssued stopID st)))"

text \<open>
  One held stop down the stream that opened: nothing where a waiter of that stream has it already; the
  waiter is bound to this stream where it has it on another; else a waiter of its own, which a trigger
  may take over.
\<close>

definition resendHeldTo :: "tls_identity \<Rightarrow> stream \<Rightarrow> robot \<Rightarrow> string \<Rightarrow> safety_state \<Rightarrow> estop_message option \<times> safety_state" where
  "resendHeldTo i sender r stopID st =
     (let key = \<lparr>pk_namespace = r_namespace r, pk_robot = Wire r, pk_stop = stopID\<rparr>; n = ss_counter st + 1;
          msg = \<lparr>em_stream = sender, em_robot = Wire r, em_stop = stopID, em_seq = n\<rparr>
      in case map_of (ss_pending st) key of
          Some w \<Rightarrow>
            if pe_sender w = sender then (None, st)
            else (Some msg, (on_waiter w (\<lambda>q. q\<lparr>pe_sender := sender\<rparr>) st)\<lparr>ss_counter := n\<rparr>)
        | None \<Rightarrow>
            (Some msg, st\<lparr>ss_counter := n, ss_pending := put key
               \<lparr>pe_id = n, pe_adapter = id_adapter i, pe_sender = sender, pe_robot = r_name r, pe_key = key, pe_epoch = 0,
                pe_deadline = None, pe_settled = False, pe_takeable = True, pe_acks = []\<rparr> (ss_pending st)\<rparr>))"

fun resend_ids :: "tls_identity \<Rightarrow> stream \<Rightarrow> robot \<Rightarrow> string list \<Rightarrow> safety_state \<Rightarrow> estop_message list \<times> safety_state" where
  "resend_ids i sender r [] st = ([], st)"
| "resend_ids i sender r (stopID # ids) st = (case resendHeldTo i sender r stopID st of (m, st1) \<Rightarrow>
     (case resend_ids i sender r ids st1 of (ms, st2) \<Rightarrow> ((case m of None \<Rightarrow> [] | Some x \<Rightarrow> [x]) @ ms, st2)))"

text \<open>
  The stops of the adapter's robots when its stream opens; \<open>fresh\<close> mints an identifier for a robot that
  records none in force. \<open>moved\<close> are the robots whose awaited stop was just moved onto the stream. The
  EstopClears that await their answer are \<open>resendClears\<close> below.
\<close>

fun resendHeld :: "tls_identity \<Rightarrow> stream \<Rightarrow> string list \<Rightarrow> (robot \<Rightarrow> string) \<Rightarrow> time \<Rightarrow> robot list \<Rightarrow> safety_state
    \<Rightarrow> estop_message list \<times> safety_state" where
  "resendHeld i sender moved fresh now [] st = ([], st)"
| "resendHeld i sender moved fresh now (r # rs) st =
     (if r_adapter r \<noteq> id_adapter i \<or> r_name r \<in> set moved \<or> \<not> in_stop_state r
      then resendHeld i sender moved fresh now rs st
      else let (ids, st1) = (case in_force_ids r of
                 [] \<Rightarrow> ([fresh r], snd (unrecordedStop r (fresh r) now st))
               | known \<Rightarrow> (known, st))
           in case resend_ids i sender r ids st1 of (ms, st2) \<Rightarrow>
                (case resendHeld i sender moved fresh now rs st2 of (ms', st3) \<Rightarrow> (ms @ ms', st3)))"

subsection \<open>EstopClears and removed stops\<close>

definition resendClears :: "clear_path \<Rightarrow> leader_term \<times> bool \<Rightarrow> (string \<Rightarrow> bool) \<Rightarrow> string \<Rightarrow> robot \<Rightarrow> estop_clear list" where
  "resendClears path term sent issuer r =
     (if path \<noteq> ClearSend \<or> \<not> snd term then []
      else map (\<lambda>s. \<lparr>ec_stop = stop_id s, ec_by = issuer, ec_at = (case stop_cleared_at s of Some t \<Rightarrow> t | None \<Rightarrow> zero_time),
                     ec_term = fst term\<rparr>)
             (takeWhile (\<lambda>s. sent (stop_id s)) (filter (\<lambda>s. stop_cleared_at s \<noteq> None) (r_stops r))))"

definition maxRemembered :: nat where "maxRemembered = maxRecordedStops"

definition newest :: "'a list \<Rightarrow> 'a list" where
  "newest xs = drop (length xs - maxRemembered) xs"

fun remember_all :: "string \<Rightarrow> time \<Rightarrow> robot_stop list \<Rightarrow> removed_stop list \<Rightarrow> removed_stop list" where
  "remember_all uid now [] rs = rs"
| "remember_all uid now (s # ss) rs = remember_all uid now ss
     (filter (\<lambda>r. rs_id r \<noteq> stop_id s) rs @
      [\<lparr>rs_id = stop_id s, rs_uid = uid, rs_cleared_at = (case stop_cleared_at s of Some t \<Rightarrow> t | None \<Rightarrow> now)\<rparr>])"

definition rememberRemoved :: "robot \<Rightarrow> time \<Rightarrow> robot_stop list \<Rightarrow> safety_state \<Rightarrow> safety_state" where
  "rememberRemoved r now ss st =
     (if ss = [] then st
      else let k = (r_namespace r, Wire r)
           in st\<lparr>ss_issued := filter (\<lambda>x. x \<notin> set (map stop_id ss)) (ss_issued st),
                ss_removed := (ss_removed st)(k := newest (remember_all (r_uid r) now ss (ss_removed st k)))\<rparr>)"

text \<open>
  The removal of the cleared entries of a robot that \<open>match\<close> selects: the Robot as written, if it was,
  and the memory of what was removed.
\<close>

definition removeCleared :: "(nat \<Rightarrow> record_view) \<Rightarrow> nat \<Rightarrow> (robot_stop \<Rightarrow> bool) \<Rightarrow> time \<Rightarrow> safety_state \<Rightarrow> robot option \<times> safety_state" where
  "removeCleared views n match now st = (case writeStopRecord views (\<lambda>_. remove_cleared match) 0 n of
     Some (True, Some (r, r')) \<Rightarrow>
       (Some r', rememberRemoved r' now (filter (\<lambda>s. stop_cleared_at s \<noteq> None \<and> match s) (r_stops r)) st)
   | _ \<Rightarrow> (None, st))"

fun remove_each :: "(string \<Rightarrow> nat \<Rightarrow> record_view) \<Rightarrow> nat \<Rightarrow> time \<Rightarrow> robot list \<Rightarrow> safety_state \<Rightarrow> robot list \<times> safety_state" where
  "remove_each views n now [] st = ([], st)"
| "remove_each views n now (r # rs) st = (case removeCleared (views (r_name r)) n (\<lambda>_. True) now st of (w, st1) \<Rightarrow>
     (case remove_each views n now rs st1 of (ws, st2) \<Rightarrow> ((case w of None \<Rightarrow> [] | Some x \<Rightarrow> [x]) @ ws, st2)))"

definition keepReport :: "tls_identity \<Rightarrow> string \<Rightarrow> removed_stop \<Rightarrow> safety_state \<Rightarrow> safety_state" where
  "keepReport i wid rm st =
     (let k = adapter_key i
      in if list_ex (\<lambda>x. kr_wire x = wid \<and> rs_id (kr_stop x) = rs_id rm) (ss_kept st k) then st
         else st\<lparr>ss_kept := (ss_kept st)(k := newest (ss_kept st k @ [\<lparr>kr_wire = wid, kr_stop = rm\<rparr>]))\<rparr>)"

text \<open>
  The answer to a report of a removed stop: its EstopClear on the stream it came from, preceded by the
  stop's fence, or nothing. \<open>look\<close> is the Robot with the reported identity, if one could be read.
\<close>

definition answerRemoved :: "tls_identity \<Rightarrow> stream \<Rightarrow> string \<Rightarrow> removed_stop \<Rightarrow> leader_term \<times> bool \<Rightarrow> robot option \<Rightarrow> string
    \<Rightarrow> safety_state \<Rightarrow> estop_clear option \<times> safety_state" where
  "answerRemoved i from1 wid rm term look issuer st =
     (if ss_streams st (adapter_key i) \<noteq> Some from1 \<or> \<not> snd term then (None, st)
      else case look of
          None \<Rightarrow> (None, st)
        | Some r \<Rightarrow>
            if r_uid r \<noteq> rs_uid rm \<or> r_adapter r \<noteq> id_adapter i then (None, st)
            else if adapterClearPath (ss_contracts st (r_namespace r, r_adapter r)) \<noteq> ClearSend
            then (None, keepReport i wid rm st)
            else (Some \<lparr>ec_stop = rs_id rm, ec_by = issuer, ec_at = rs_cleared_at rm, ec_term = fst term\<rparr>, st))"

fun answer_each :: "tls_identity \<Rightarrow> stream \<Rightarrow> leader_term \<times> bool \<Rightarrow> (string \<Rightarrow> robot option) \<Rightarrow> string \<Rightarrow> kept_report list \<Rightarrow> safety_state
    \<Rightarrow> estop_clear list \<times> safety_state" where
  "answer_each i sender term look issuer [] st = ([], st)"
| "answer_each i sender term look issuer (k # ks) st =
     (case answerRemoved i sender (kr_wire k) (kr_stop k) term (look (kr_wire k)) issuer st of (m, st1) \<Rightarrow>
       (case answer_each i sender term look issuer ks st1 of (ms, st2) \<Rightarrow> ((case m of None \<Rightarrow> [] | Some x \<Rightarrow> [x]) @ ms, st2)))"

definition answerKeptReports :: "tls_identity \<Rightarrow> leader_term \<times> bool \<Rightarrow> (string \<Rightarrow> robot option) \<Rightarrow> string \<Rightarrow> safety_state
    \<Rightarrow> estop_clear list \<times> safety_state" where
  "answerKeptReports i term look issuer st = (case ss_streams st (adapter_key i) of
     None \<Rightarrow> ([], st)
   | Some sender \<Rightarrow> answer_each i sender term look issuer (ss_kept st (adapter_key i))
       (st\<lparr>ss_kept := (ss_kept st)(adapter_key i := [])\<rparr>))"

definition note_contract :: "tls_identity \<Rightarrow> string \<Rightarrow> safety_state \<Rightarrow> safety_state" where
  "note_contract i version st =
     (if id_verified i then st\<lparr>ss_contracts := (ss_contracts st)(adapter_key i \<mapsto> version)\<rparr> else st)"

text \<open>
  What a reported contract version starts: the removal of the cleared entries of the adapter's robots,
  the EstopClears that await their answer and the answers to kept reports, or nothing. \<open>robots\<close> are the
  robots listed, \<open>None\<close> where the list fails; the Robots written come first.
\<close>

definition ContractReported :: "tls_identity \<Rightarrow> string \<Rightarrow> robot list option \<Rightarrow> leader_term \<times> bool \<Rightarrow> (string \<Rightarrow> bool)
    \<Rightarrow> (string \<Rightarrow> robot option) \<Rightarrow> (string \<Rightarrow> nat \<Rightarrow> record_view) \<Rightarrow> nat \<Rightarrow> time \<Rightarrow> string \<Rightarrow> safety_state
    \<Rightarrow> robot list \<times> estop_clear list \<times> safety_state" where
  "ContractReported i version robots term sent look views n now issuer st =
     (if \<not> id_verified i then ([], [], st)
      else let st1 = note_contract i version st;
               mine = (case robots of None \<Rightarrow> [] | Some rs \<Rightarrow> filter (\<lambda>r. r_adapter r = id_adapter i) rs)
           in case contractClearPath version of
               ClearHold \<Rightarrow> ([], [], st1)
             | ClearRemove \<Rightarrow> (case remove_each views n now mine st1 of (ws, st2) \<Rightarrow> (ws, [], st2))
             | ClearSend \<Rightarrow> (case answerKeptReports i term look issuer st1 of (answers, st2) \<Rightarrow>
                 ([], (if ss_streams st1 (adapter_key i) = None then []
                       else concat (map (resendClears ClearSend term sent issuer) mine)) @ answers, st2)))"

text \<open>
  An EstopClearAck: it counts only on the adapter's current stream. A stop cleared before its record
  landed is not recorded at all; else its cleared entry is removed and remembered.
\<close>

definition RouteClearAck :: "tls_identity \<Rightarrow> stream \<Rightarrow> string \<Rightarrow> string option \<Rightarrow> robot option \<Rightarrow> (nat \<Rightarrow> record_view) \<Rightarrow> nat \<Rightarrow> time
    \<Rightarrow> safety_state \<Rightarrow> robot option \<times> safety_state" where
  "RouteClearAck i from1 rid ack look views n now st = (case ack of
     None \<Rightarrow> (None, st)
   | Some stopID \<Rightarrow>
       if \<not> id_verified i \<or> rid = [] \<or> ss_streams st (adapter_key i) \<noteq> Some from1 then (None, st)
       else case look of
           None \<Rightarrow> (None, st)
         | Some r \<Rightarrow> (case markUnrecordedAcked (r_namespace r, r_name r) stopID st of
             (True, st1) \<Rightarrow> (None, st1)
           | (False, _) \<Rightarrow> (case writeStopRecord views (\<lambda>_. lift_stop stopID) 0 n of
               Some (True, Some (r0, r')) \<Rightarrow> (Some r', rememberRemoved r' now
                 (case find (\<lambda>s. stop_id s = stopID) (r_stops r0) of Some s \<Rightarrow> [s] | None \<Rightarrow> []) st)
             | _ \<Rightarrow> (None, st))))"

subsection \<open>Vocabulary of the specification\<close>

text \<open>
  The recorded stops of a Robot are well formed: one entry per identifier, and no more than the cap.
\<close>

definition stops_wf :: "robot \<Rightarrow> bool" where
  "stops_wf r \<longleftrightarrow> distinct (map stop_id (r_stops r)) \<and> length (r_stops r) \<le> maxRecordedStops"

text \<open>The waiters are well formed: each is registered under its own key, once.\<close>

definition pending_wf :: "safety_state \<Rightarrow> bool" where
  "pending_wf st \<longleftrightarrow> distinct (map fst (ss_pending st)) \<and> (\<forall>(k, p) \<in> set (ss_pending st). pe_key p = k)"

text \<open>A dispatcher whose one waiter is bound to stream 1, and a new stream 2 of the same adapter.\<close>

definition sample_waiter :: pending_estop where
  "sample_waiter = \<lparr>pe_id = 1, pe_adapter = ''ad'', pe_sender = 1, pe_robot = ''r'',
     pe_key = \<lparr>pk_namespace = ''n'', pk_robot = ''w'', pk_stop = ''s1''\<rparr>, pe_epoch = 1, pe_deadline = None, pe_settled = False,
     pe_takeable = False, pe_acks = []\<rparr>"

definition sample_identity :: tls_identity where
  "sample_identity = \<lparr>id_verified = True, id_namespace = ''n'', id_adapter = ''ad''\<rparr>"

definition sample_streams :: safety_state where
  "sample_streams = safety_init\<lparr>ss_streams := [(''n'', ''ad'') \<mapsto> 1], ss_counter := 1,
     ss_pending := [(pe_key sample_waiter, sample_waiter)],
     ss_orders := [(''n'', ''r'') \<mapsto> new_order\<lparr>o_issued := 1, o_last_stop := 1\<rparr>]\<rparr>"

subsection \<open>Lemmas\<close>

lemma ack_first_ids [simp]: "map stop_id (ack_first stopID t ss) = map stop_id ss"
  by (induction ss) auto

lemma ack_first_length [simp]: "length (ack_first stopID t ss) = length ss"
  by (induction ss) auto

lemma ack_first_in_force:
  "map stop_id (filter (\<lambda>s. stop_cleared_at s = None) (ack_first stopID t ss)) = map stop_id (filter (\<lambda>s. stop_cleared_at s = None) ss)"
  by (induction ss) auto

lemma clear_stops_length: "clear_stops legacy now ends sts = Some (left, ended) \<Longrightarrow> length left \<le> length sts"
  by (induction sts arbitrary: left ended) (fastforce split: if_splits option.splits)+

lemma clear_stops_ids:
  assumes "clear_stops legacy now ends sts = Some (left, ended)"
  shows "stop_id ` set left \<subseteq> stop_id ` set sts \<and> (distinct (map stop_id sts) \<longrightarrow> distinct (map stop_id left))"
  using assms
proof (induction sts arbitrary: left ended)
  case (Cons st sts)
  obtain l e where r: "clear_stops legacy now ends sts = Some (l, e)" "left = l \<or> (\<exists>x. left = x # l \<and> stop_id x = stop_id st)"
    using Cons.prems by (auto split: if_splits option.splits)
  then show ?case using Cons.IH [OF r(1)] by (auto simp: image_subset_iff)
qed simp

lemma remove1_distinct_ids: "distinct (map stop_id ss) \<Longrightarrow> distinct (map stop_id (remove1 x ss))"
proof (induction ss)
  case (Cons s ss)
  then show ?case using set_remove1_subset [of x ss] by auto
qed simp

lemma length_remove1_le: "length (remove1 x xs) \<le> length xs"
  by (simp add: length_remove1)

lemma in_force_remove1:
  "stop_cleared_at x \<noteq> None \<Longrightarrow> filter (\<lambda>s. stop_cleared_at s = None) (remove1 x ss) = filter (\<lambda>s. stop_cleared_at s = None) ss"
  by (induction ss) auto

lemma in_force_lift:
  "stop_cleared_at x = Some y \<Longrightarrow> in_force_ids (r\<lparr>r_stops := remove1 x (r_stops r)\<rparr>) = in_force_ids r"
  by (simp add: in_force_ids_def in_force_remove1)

lemma on_waiter_lookup:
  assumes "pending_wf st" "map_of (ss_pending st) k = Some p"
  shows "map_of (ss_pending (on_waiter p f st)) k' = (if k' = k then Some (f p) else map_of (ss_pending st) k')"
proof -
  have pk: "pe_key p = k" using assms map_of_SomeD by (fastforce simp: pending_wf_def)
  have "map_of (map (\<lambda>(k', q). (k', if k' = pe_key p \<and> pe_id q = pe_id p then f q else q)) ps) k'
      = (case map_of ps k' of None \<Rightarrow> None | Some q \<Rightarrow> Some (if k' = pe_key p \<and> pe_id q = pe_id p then f q else q))" for ps k'
    by (induction ps) auto
  then show ?thesis using assms(2) pk by (auto simp: on_waiter_def split: option.splits)
qed

lemma rebind_lookup:
  "map_of (map (\<lambda>(k, p). (k, if g p then h p else p)) ps) k =
     (case map_of ps k of None \<Rightarrow> None | Some p \<Rightarrow> Some (if g p then h p else p))"
  by (induction ps) auto

lemma map_of_pending:
  "pending_wf st \<Longrightarrow> map_of (ss_pending st) k = Some p \<longleftrightarrow> (k, p) \<in> set (ss_pending st)"
  by (simp add: pending_wf_def map_of_eq_Some_iff)

lemma await_confirmed:
  assumes "await record1 first dend acks cend = (res, err, ws)" "res_confirmed res"
  shows "(\<exists>lat. first = Some (AckStopped, lat)) \<or> AckStopped \<in> set acks"
proof (cases first)
  case None
  then show ?thesis using assms by (auto simp: await_def no_result_def split: window_end.splits)
next
  case (Some p)
  obtain a lat where p: "first = Some (a, lat)" using Some by (cases p) simp
  show ?thesis
  proof (cases "a = AckStopped \<or> a = AckFailed")
    case True
    then show ?thesis using assms p by (auto simp: await_def no_result_def Let_def)
  next
    case False
    let ?r = "no_result\<lparr>res_delivered := True, res_latency := lat, res_violation := slaThreshold < lat\<rparr>"
    obtain ws' where c: "awaitConfirmation record1 acks cend ?r = (res, err, ws')"
      using assms p False by (cases a) (auto simp: await_def Let_def split: prod.splits)
    then show ?thesis using awaitConfirmation_confirmed [OF c] assms(2) by (auto simp: no_result_def)
  qed
qed

lemma filter_zip_length:
  "length ns = length qs \<Longrightarrow> (\<And>n q. P (f (n, q)) = Q q) \<Longrightarrow> length (filter P (map f (zip ns qs))) = length (filter Q qs)"
  by (induction ns qs rule: list_induct2) auto

lemma filter_comm: "filter P (filter Q xs) = filter Q (filter P xs)"
  by (induction xs) auto

lemma filter_own_key:
  assumes "pending_wf st" "(k, p) \<in> set (ss_pending st)"
  shows "filter (\<lambda>q. pe_key q = k) (map snd (ss_pending st)) = [p]"
proof -
  have "distinct (map fst ps) \<Longrightarrow> \<forall>(k, p) \<in> set ps. pe_key p = k \<Longrightarrow> (k, p) \<in> set ps \<Longrightarrow> filter (\<lambda>q. pe_key q = k) (map snd ps) = [p]" for ps
  proof (induction ps)
    case (Cons x ps)
    have none: "filter (\<lambda>q. pe_key q = fst x) (map snd ps) = []"
    proof -
      have "pe_key (snd y) \<noteq> fst x" if y: "y \<in> set ps" for y
      proof -
        have "fst y \<in> fst ` set ps" using y by (rule imageI)
        moreover have "fst x \<notin> fst ` set ps" using Cons.prems(1) by simp
        moreover have "pe_key (snd y) = fst y" using Cons.prems(2) y by auto
        ultimately show ?thesis by metis
      qed
      then show ?thesis by (auto simp: filter_empty_conv)
    qed
    show ?case
    proof (cases "x = (k, p)")
      case True
      then show ?thesis using Cons.prems none by auto
    next
      case False
      then have "(k, p) \<in> set ps" "fst x \<noteq> k" using Cons.prems by (auto simp: image_iff)
      then show ?thesis using Cons by auto
    qed
  qed simp
  then show ?thesis using assms by (simp add: pending_wf_def)
qed

lemma next_robot_stops [simp]: "r_stops (next_robot v s r) = r_stops r"
  by (simp add: next_robot_def Let_def)

subsection \<open>Properties of the streams and the records\<close>

text \<open>
  Claim C34. The recorded stops of a Robot stay well formed, and no record write loses a stop in force.
  Appending a stop, recording its acknowledgement, and removing cleared entries each keep one entry per
  identifier within the cap, and keep every stop that is in force. A clear and a write of the state keep
  the record well formed too.
\<close>

theorem recorded_stops_wf:
  assumes "stops_wf r"
    and "(changed, full, r') \<in> {append_stop entry acked clearedAt removed r, acknowledge_stop stopID t r, remove_cleared match r, lift_stop stopID r}"
  shows "stops_wf r' \<and> set (in_force_ids r) \<subseteq> set (in_force_ids r') \<and> (changed = False \<longrightarrow> r' = r)
    \<and> (clearOnce v ends e = Inr res \<and> cv_read v = Some r \<and> cr_robot res = Some c \<longrightarrow> stops_wf c)
    \<and> (wr_patched (writeEstopStateOnce w copy s e) = Some p \<and> wv_stored w = Some r \<longrightarrow> stops_wf p)"
proof -
  have "stops_wf r' \<and> set (in_force_ids r) \<subseteq> set (in_force_ids r') \<and> (changed = False \<longrightarrow> r' = r)"
    using assms(2)
  proof (elim insertE emptyE)
    assume h: "(changed, full, r') = append_stop entry acked clearedAt removed r"
    then show ?thesis using assms(1)
      by (auto simp: append_stop_def stops_wf_def in_force_ids_def list_ex_iff split: if_splits)
  next
    assume "(changed, full, r') = acknowledge_stop stopID t r"
    then show ?thesis using assms(1)
      by (auto simp: acknowledge_stop_def stops_wf_def in_force_ids_def split: if_splits option.splits
          simp del: set_map simp add: ack_first_in_force)
  next
    assume "(changed, full, r') = remove_cleared match r"
    then show ?thesis using assms(1)
      by (auto simp: remove_cleared_def stops_wf_def in_force_ids_def Let_def distinct_map_filter
          intro: le_trans [OF length_filter_le] split: if_splits)
  next
    assume "(changed, full, r') = lift_stop stopID r"
    then show ?thesis using assms(1)
      by (auto simp: lift_stop_def stops_wf_def in_force_lift remove1_distinct_ids
          intro: le_trans [OF length_remove1_le] split: if_splits option.splits)
  qed
  moreover have "stops_wf c" if cl: "clearOnce v ends e = Inr res" "cv_read v = Some r" "cr_robot res = Some c"
  proof -
    obtain left ended where "clear_stops (adapterClearPath (cv_contract v) = ClearRemove) (truncate_second (cv_clock v)) ends (r_stops r) =
        Some (left, ended)" "r_stops c = left"
      using cl by (auto simp: clearOnce_def clear_kept_def Let_def split: if_splits option.splits api_write.splits)
    then show ?thesis
      using assms(1) clear_stops_ids clear_stops_length by (fastforce simp: stops_wf_def)
  qed
  moreover have "stops_wf p" if "wr_patched (writeEstopStateOnce w copy s e) = Some p" "wv_stored w = Some r"
    using that once_cases [where v = w and copy = copy and s = s and e = e] assms(1) by (auto simp: stops_wf_def)
  ultimately show ?thesis by blast
qed

theorem recorded_stops_wf_witness:
  "stops_wf (snd (snd (append_stop sample_stop None None False (sample_robot ''r'' 50))))"
proof -
  let ?x = "append_stop sample_stop None None False (sample_robot ''r'' 50)"
  have wf: "stops_wf (sample_robot ''r'' 50)" by (simp add: stops_wf_def sample_robot_def maxRecordedStops_def)
  have "(fst ?x, fst (snd ?x), snd (snd ?x)) \<in>
      {?x, acknowledge_stop [] 0 (sample_robot ''r'' 50), remove_cleared (\<lambda>_. True) (sample_robot ''r'' 50), lift_stop [] (sample_robot ''r'' 50)}"
    by simp
  from recorded_stops_wf [OF wf this] show ?thesis by blast
qed

text \<open>
  Claim C33. A stream that replaces another takes over every stop still wanted, and the replaced stream
  confirms none of them any more. Each such stop is pushed once down the new stream under its own
  identifier; an answer that names it is misrouted on the old stream, which changes nothing, and is
  delivered to its waiter on the new one, and to no other waiter.
\<close>

theorem takeover_moves_awaited_stops:
  assumes "id_verified i" "pending_wf st" "ss_streams st (adapter_key i) = Some old" "old \<noteq> sender"
    and "RegisterStream i sender now st = (msgs, st')"
    and "(k, p) \<in> set (ss_pending st)" "still_wanted i old now st p" "pk_robot k \<noteq> []"
  shows "length (filter (\<lambda>(r, m). em_robot m = pk_robot k \<and> em_stop m = pk_stop k \<and> em_stream m = sender) msgs) = 1
    \<and> RouteAck i old (pk_robot k) (Some (pk_stop k, a)) st' = (Misrouted, st')
    \<and> (\<exists>st2. RouteAck i sender (pk_robot k) (Some (pk_stop k, a)) st' = (Delivered, st2)
        \<and> (\<forall>k'. map_of (ss_pending st2) k' =
             (if k' = k then Some (take_ack a (p\<lparr>pe_sender := sender\<rparr>)) else map_of (ss_pending st') k')))"
proof -
  let ?st0 = "st\<lparr>ss_streams := (ss_streams st)(adapter_key i \<mapsto> sender)\<rparr>"
  let ?W = "still_wanted i old now st"
  let ?moved = "sort_key (\<lambda>p. pk_stop (pe_key p)) (filter ?W (map snd (ss_pending st)))"
  have w0: "still_wanted i old now ?st0 = ?W" by (simp add: still_wanted_def fun_eq_iff)
  have msgs: "msgs = map (\<lambda>(n, p). (pe_robot p, \<lparr>em_stream = sender, em_robot = pk_robot (pe_key p), em_stop = pk_stop (pe_key p),
        em_seq = ss_counter st + n\<rparr>)) (zip [1..<length ?moved + 1] ?moved)"
    and st': "ss_pending st' = map (\<lambda>(k, p). (k, if ?W p then p\<lparr>pe_sender := sender\<rparr> else p)) (ss_pending st)"
    using assms(1,3-5) w0 by (auto simp: RegisterStream_def rebindLocked_def Let_def)
  have key: "pe_key p = k" using assms(2,6) by (auto simp: pending_wf_def)
  have ns: "pk_namespace (pe_key q) = id_namespace i" "pe_adapter q = id_adapter i" if "?W q" for q
    using that by (auto simp: still_wanted_def)
  have "length (filter (\<lambda>(r, m). em_robot m = pk_robot k \<and> em_stop m = pk_stop k \<and> em_stream m = sender) msgs)
      = length (filter (\<lambda>q. pk_robot (pe_key q) = pk_robot k \<and> pk_stop (pe_key q) = pk_stop k) ?moved)"
    unfolding msgs by (rule filter_zip_length) (simp_all del: upt_Suc)
  also have "\<dots> = length (filter (\<lambda>q. pe_key q = k) (filter ?W (map snd (ss_pending st))))"
    unfolding filter_sort length_sort using ns key assms(7)
    by (intro arg_cong [where f = length] filter_cong refl) (auto intro: pending_key.equality)
  also have "\<dots> = 1"
    unfolding filter_comm [of "\<lambda>q. pe_key q = k" ?W] filter_own_key [OF assms(2,6)] using assms(7) by simp
  finally have one: "length (filter (\<lambda>(r, m). em_robot m = pk_robot k \<and> em_stop m = pk_stop k \<and> em_stream m = sender) msgs) = 1" .
  let ?p = "p\<lparr>pe_sender := sender\<rparr>"
  have wf': "pending_wf st'" using assms(2) by (auto simp: pending_wf_def st' case_prod_unfold o_def)
  have "map_of (ss_pending st) k = Some p" using map_of_pending assms(2,6) by blast
  then have look: "map_of (ss_pending st') k = Some ?p" using assms(7) by (simp add: st' rebind_lookup)
  have k: "\<lparr>pk_namespace = id_namespace i, pk_robot = pk_robot k, pk_stop = pk_stop k\<rparr> = k"
    using ns(1) [OF assms(7)] key by (cases k) simp
  have "RouteAck i old (pk_robot k) (Some (pk_stop k, a)) st' = (Misrouted, st')"
    using assms(1,4,8) look by (simp add: RouteAck_def k)
  moreover have "RouteAck i sender (pk_robot k) (Some (pk_stop k, a)) st' = (Delivered, on_waiter ?p (take_ack a) st')"
    using assms(1,8) look ns(2) [OF assms(7)] by (simp add: RouteAck_def k)
  ultimately show ?thesis using one on_waiter_lookup [OF wf' look] by simp
qed

theorem takeover_moves_awaited_stops_witness:
  "\<exists>msgs st'. RegisterStream sample_identity 2 0 sample_streams = (msgs, st')
     \<and> RouteAck sample_identity 1 ''w'' (Some (''s1'', AckStopped)) st' = (Misrouted, st')"
proof -
  obtain msgs st' where r: "RegisterStream sample_identity 2 0 sample_streams = (msgs, st')" by fastforce
  have w: "pending_wf sample_streams" "ss_streams sample_streams (adapter_key sample_identity) = Some 1" "id_verified sample_identity"
    "(pe_key sample_waiter, sample_waiter) \<in> set (ss_pending sample_streams)" "still_wanted sample_identity 1 0 sample_streams sample_waiter"
    "pk_robot (pe_key sample_waiter) = ''w''" "pk_stop (pe_key sample_waiter) = ''s1''"
    by (simp_all add: pending_wf_def sample_streams_def sample_waiter_def sample_identity_def adapter_key_def still_wanted_def new_order_def)
  then show ?thesis
    using takeover_moves_awaited_stops [OF w(3,1,2) _ r w(4,5), of AckStopped] r by auto
qed

text \<open>
  The confirmation window of a stop its predecessor recorded ends where that record put its end: a
  re-send does not restart it.
\<close>

lemma recorded_window_not_restarted:
  assumes "await_windows record1 sent delivery (Some u) cancelled arrivals = (res, err, ws)" "res_confirmed res"
  shows "\<exists>t. (AckStopped, t) \<in> set arrivals \<and> (t < u + confirmTimeout \<or> (AckStopped, t) = hd arrivals \<and> t < sent + delivery)"
proof (cases "in_window (sent + delivery) cancelled arrivals")
  case Nil
  then show ?thesis using assms by (auto simp: await_windows_def await_def no_result_def Let_def split: window_end.splits)
next
  case (Cons p rest)
  obtain a t where p: "p = (a, t)" by fastforce
  have hd: "arrivals \<noteq> []" "hd arrivals = (a, t)" "t < sent + delivery"
    using Cons p by (cases arrivals; auto simp: in_window_def split: if_splits)+
  let ?rest = "in_window (u + confirmTimeout) cancelled (tl arrivals)"
  have aw: "await record1 (Some (a, t - sent)) WindowEnds (map fst ?rest) (window_ends (u + confirmTimeout) cancelled) = (res, err, ws)"
    using assms(1) Cons p by (simp add: await_windows_def confirm_by_def Let_def)
  have "a = AckStopped \<or> AckStopped \<in> fst ` set ?rest"
    using await_confirmed [OF aw assms(2)] by (auto simp: in_set_conv_decomp)
  then show ?thesis
  proof
    assume "a = AckStopped"
    then show ?thesis using hd by (metis list.set_sel(1))
  next
    assume "AckStopped \<in> fst ` set ?rest"
    then obtain t' where "(AckStopped, t') \<in> set ?rest" by auto
    then have "t' < u + confirmTimeout" "(AckStopped, t') \<in> set (tl arrivals)"
      by (auto simp: in_window_def dest: set_takeWhileD)
    then show ?thesis using hd(1) by (meson list.set_sel(2))
  qed
qed

text \<open>
  A stop is in this process's own state before anything is sent: while its record has not landed and no
  clear has ended it, no release of the robot is written.
\<close>

lemma issued_stop_is_unrecorded:
  assumes "te_robot env = Some r" "predecessorStop (snd (issue_stop_epoch (ns, name) st)) r scope carrier = None"
    and "\<And>x. ss_inflight (te_meanwhile env x) = ss_inflight x" "TriggerEstop env ns name scope carrier st = (out, st')"
  shows "unrecordedInForce (ss_inflight st' (ns, name)) \<and> to_fence out = Some (te_stop_id env)"
proof -
  obtain epoch st1 where e: "issue_stop_epoch (ns, name) st = (epoch, st1)" by fastforce
  let ?rec = "(newStopRecord r (te_stop_id env) scope carrier (te_clock env))\<lparr>sr_epoch := epoch\<rparr>"
  let ?st2 = "trackInflight (ns, name) ?rec (markIssued (te_stop_id env) st1)"
  obtain outcome sent st3 where s: "send_and_wait env r (te_stop_id env) epoch None ?st2 = (outcome, sent, st3)" by (metis prod_cases3)
  have "ss_inflight st3 = ss_inflight ?st2"
    using s assms(3)
    by (auto simp: send_and_wait_def register_estop_def deregister_estop_def settleUnlessResent_def settle_def on_waiter_def Let_def
        split: option.splits if_splits prod.splits)
  moreover have "unrecordedInForce (ss_inflight ?st2 (ns, name))"
    by (simp add: trackInflight_def unrecordedInForce_def newStopRecord_def Let_def)
  ultimately show ?thesis using assms(1,2,4) e s by (auto simp: TriggerEstop_def Let_def)
qed

end
