(* ===== verification/Fence.thy ===== *)
theory Fence
  imports SafetyStreams
begin

text \<open>
  The fences of stops and their order with the work sent to a robot (\<^verbatim>\<open>internal/command/fence.go\<close>). A
  section under a robot's send lock is one function. The state keeps what the dispatcher keeps, and a
  log: what was added to and taken from the stops in force, and what went on the wire, in order. Whether
  a send succeeds is an argument; a process that does not lead sends nothing.
\<close>

subsection \<open>The state of the command dispatcher\<close>

type_synonym robot_key = "string \<times> string \<times> string"

record motion =
  mo_zone :: string
  mo_resource :: string
  mo_robot :: string

datatype fence_event =
    Held robot_key string
  | Emptied string string
  | FenceSent robot_key stream string
  | AssignSent robot_key stream
  | MotionSent robot_key stream motion
  | HoldSent robot_key stream motion

record fence_state =
  fs_streams :: "string \<times> string \<rightharpoonup> stream"
  fs_leading :: bool
  fs_held :: "(robot_key \<times> string list) list"
  fs_gen :: "robot_key \<Rightarrow> nat"
  fs_ready :: "(stream \<times> string) list"
  fs_registered :: "(stream \<times> string) list"
  fs_contract :: "stream \<rightharpoonup> string"
  fs_withheld :: "(robot_key \<times> (string \<times> motion) list) list"
  fs_log :: "fence_event list"

definition fence_init :: fence_state where
  "fence_init = \<lparr>fs_streams = Map.empty, fs_leading = True, fs_held = [], fs_gen = (\<lambda>_. 0), fs_ready = [], fs_registered = [],
     fs_contract = Map.empty, fs_withheld = [], fs_log = []\<rparr>"

definition robotKey :: "robot \<Rightarrow> robot_key" where
  "robotKey r = (r_namespace r, r_name r, r_uid r)"

definition log_event :: "fence_event \<Rightarrow> fence_state \<Rightarrow> fence_state" where
  "log_event e st = st\<lparr>fs_log := fs_log st @ [e]\<rparr>"

subsection \<open>The stops in force\<close>

definition held_ids :: "fence_state \<Rightarrow> robot_key \<Rightarrow> string list" where
  "held_ids st k = (case map_of (fs_held st) k of Some ids \<Rightarrow> ids | None \<Rightarrow> [])"

definition heldStops :: "robot_key \<Rightarrow> fence_state \<Rightarrow> string list" where
  "heldStops k st = sort (held_ids st k)"

definition addHeld :: "robot_key \<Rightarrow> string \<Rightarrow> fence_state \<Rightarrow> fence_state" where
  "addHeld k stopID st = log_event (Held k stopID)
     (st\<lparr>fs_held := put k (List.insert stopID (held_ids st k)) (fs_held st), fs_gen := (fs_gen st)(k := fs_gen st k + 1)\<rparr>)"

definition of_robot :: "string \<Rightarrow> string \<Rightarrow> robot_key \<Rightarrow> bool" where
  "of_robot ns name k = (fst k = ns \<and> fst (snd k) = name)"

definition ClearHeld :: "string \<Rightarrow> string \<Rightarrow> fence_state \<Rightarrow> fence_state" where
  "ClearHeld ns name st = log_event (Emptied ns name) (st\<lparr>fs_held := filter (\<lambda>(k, _). \<not> of_robot ns name k) (fs_held st)\<rparr>)"

definition HeldStops :: "string \<Rightarrow> string \<Rightarrow> fence_state \<Rightarrow> string list" where
  "HeldStops ns name st = sort (concat (map snd (filter (\<lambda>(k, _). of_robot ns name k) (fs_held st))))"

subsection \<open>Streams\<close>

definition markReady :: "stream \<Rightarrow> string \<Rightarrow> fence_state \<Rightarrow> fence_state" where
  "markReady sender wid st = st\<lparr>fs_ready := List.insert (sender, wid) (fs_ready st)\<rparr>"

definition isReady :: "stream \<Rightarrow> string \<Rightarrow> fence_state \<Rightarrow> bool" where
  "isReady sender wid st = ((sender, wid) \<in> set (fs_ready st))"

definition markRegistered :: "stream \<Rightarrow> string \<Rightarrow> fence_state \<Rightarrow> fence_state" where
  "markRegistered sender wid st = st\<lparr>fs_registered := List.insert (sender, wid) (fs_registered st)\<rparr>"

definition isRegistered :: "stream \<Rightarrow> string \<Rightarrow> fence_state \<Rightarrow> bool" where
  "isRegistered sender wid st = ((sender, wid) \<in> set (fs_registered st))"

text \<open>\<open>adapters\<close> are the keys of the registered streams, which a Go map can be ranged over.\<close>

definition StreamNegotiated :: "(string \<times> string) list \<Rightarrow> stream \<Rightarrow> string \<Rightarrow> fence_state \<Rightarrow> fence_state" where
  "StreamNegotiated adapters sender version st =
     (if list_ex (\<lambda>k. fs_streams st k = Some sender) adapters
      then st\<lparr>fs_contract := (fs_contract st)(sender \<mapsto> version)\<rparr> else st)"

definition latchContractMin :: string where "latchContractMin = ''1.4.0''"

definition boundByLatch :: "stream \<Rightarrow> fence_state \<Rightarrow> bool" where
  "boundByLatch sender st = (case fs_contract st sender of
     None \<Rightarrow> False
   | Some v \<Rightarrow> (case Below v latchContractMin of (below, ok) \<Rightarrow> ok \<and> \<not> below))"

definition forgetStream :: "stream \<Rightarrow> fence_state \<Rightarrow> fence_state" where
  "forgetStream sender st = st\<lparr>fs_ready := filter (\<lambda>(s, _). s \<noteq> sender) (fs_ready st),
     fs_registered := filter (\<lambda>(s, _). s \<noteq> sender) (fs_registered st), fs_contract := (fs_contract st)(sender := None)\<rparr>"

definition register_control :: "tls_identity \<Rightarrow> stream \<Rightarrow> fence_state \<Rightarrow> fence_state" where
  "register_control i sender st =
     (if id_verified i then st\<lparr>fs_streams := (fs_streams st)(adapter_key i \<mapsto> sender)\<rparr> else st)"

definition deregister_control :: "tls_identity \<Rightarrow> stream \<Rightarrow> fence_state \<Rightarrow> fence_state" where
  "deregister_control i sender st =
     (if id_verified i
      then forgetStream sender (if fs_streams st (adapter_key i) = Some sender
             then st\<lparr>fs_streams := (fs_streams st)(adapter_key i := None)\<rparr> else st)
      else st)"

subsection \<open>Sending a fence\<close>

datatype fence_error =
    FenceLookup | NoControlStream | NotSent | ErrBelowLatchContract | ErrHeldByStop "string list" | ErrNotRegistered
  | ErrWithheldByStop | ErrNotWithheld

definition wire_send :: "bool \<Rightarrow> fence_event \<Rightarrow> fence_state \<Rightarrow> fence_error option \<times> fence_state" where
  "wire_send ok e st = (if fs_leading st \<and> ok then (None, log_event e st) else (Some NotSent, st))"

definition sendFenceOn :: "bool \<Rightarrow> stream \<Rightarrow> robot_key \<Rightarrow> string \<Rightarrow> fence_state \<Rightarrow> fence_error option \<times> fence_state" where
  "sendFenceOn ok sender k stopID st = wire_send ok (FenceSent k sender stopID) st"

definition SendFence :: "bool \<Rightarrow> robot \<Rightarrow> string \<Rightarrow> fence_state \<Rightarrow> fence_error option \<times> fence_state" where
  "SendFence ok r stopID st =
     (let k = robotKey r; st1 = addHeld k stopID st
      in case fs_streams st1 (r_namespace r, r_adapter r) of
          None \<Rightarrow> (Some NoControlStream, st1)
        | Some sender \<Rightarrow> sendFenceOn ok sender k stopID st1)"

definition SendClearedFence :: "bool \<Rightarrow> robot \<Rightarrow> string \<Rightarrow> fence_state \<Rightarrow> fence_error option \<times> fence_state" where
  "SendClearedFence ok r stopID st = (case fs_streams st (r_namespace r, r_adapter r) of
     None \<Rightarrow> (Some NoControlStream, st)
   | Some sender \<Rightarrow> sendFenceOn ok sender (robotKey r) stopID st)"

fun send_fences :: "(string \<Rightarrow> bool) \<Rightarrow> stream \<Rightarrow> robot_key \<Rightarrow> string list \<Rightarrow> fence_state \<Rightarrow> fence_error option \<times> fence_state" where
  "send_fences ok sender k [] st = (None, st)"
| "send_fences ok sender k (stopID # ids) st = (case sendFenceOn (ok stopID) sender k stopID st of
     (Some err, st1) \<Rightarrow> (Some err, st1)
   | (None, st1) \<Rightarrow> send_fences ok sender k ids st1)"

definition fenceOnRegister :: "(string \<Rightarrow> bool) \<Rightarrow> stream \<Rightarrow> string \<Rightarrow> robot \<Rightarrow> fence_state \<Rightarrow> fence_error option \<times> fence_state" where
  "fenceOnRegister ok sender wid r st =
     (let k = robotKey r;
          st1 = (if in_stop_state r then fold (addHeld k) (in_force_ids r) st else st)
      in case send_fences ok sender k (heldStops k st1) st1 of
          (Some err, st2) \<Rightarrow> (Some err, st2)
        | (None, st2) \<Rightarrow> (None, markReady sender wid st2))"

text \<open>
  \<open>look\<close> is the Robot with the wire identity, if one of the reads found it.
\<close>

definition RobotRegistered :: "(string \<Rightarrow> bool) \<Rightarrow> stream \<Rightarrow> string \<Rightarrow> robot option \<Rightarrow> fence_state \<Rightarrow> fence_error option \<times> fence_state" where
  "RobotRegistered ok sender wid look st =
     (let st1 = markRegistered sender wid st
      in case look of None \<Rightarrow> (Some FenceLookup, st1) | Some r \<Rightarrow> fenceOnRegister ok sender wid r st1)"

subsection \<open>Sending work\<close>

record assign_env =
  ae_robot :: "robot option"
  ae_require_contract :: bool
  ae_require_register :: bool
  ae_fence_ok :: "string \<Rightarrow> bool"
  ae_ok :: bool

definition assign_send :: "assign_env \<Rightarrow> stream \<Rightarrow> robot_key \<Rightarrow> fence_state \<Rightarrow> fence_error option \<times> fence_state" where
  "assign_send env sender k st = wire_send (ae_ok env) (AssignSent k sender) st"

text \<open>The section of an AssignAction up to its send; the wait for the result is outside the lock.\<close>

definition roundTripAssign :: "assign_env \<Rightarrow> fence_state \<Rightarrow> fence_error option \<times> fence_state" where
  "roundTripAssign env st = (case ae_robot env of
     None \<Rightarrow> (Some FenceLookup, st)
   | Some r \<Rightarrow> (let k = robotKey r; wid = Wire r in case fs_streams st (r_namespace r, r_adapter r) of
       None \<Rightarrow> (Some NoControlStream, st)
     | Some sender \<Rightarrow>
         if ae_require_contract env \<and> \<not> boundByLatch sender st then (Some ErrBelowLatchContract, st)
         else if heldStops k st \<noteq> [] then (Some (ErrHeldByStop (heldStops k st)), st)
         else if ae_require_register env \<and> \<not> isReady sender wid st
         then (if \<not> isRegistered sender wid st then (Some ErrNotRegistered, st)
               else case fenceOnRegister (ae_fence_ok env) sender wid r st of
                   (Some err, st1) \<Rightarrow> (Some err, st1)
                 | (None, st1) \<Rightarrow>
                     if heldStops k st1 \<noteq> [] then (Some (ErrHeldByStop (heldStops k st1)), st1)
                     else assign_send env sender k st1)
         else assign_send env sender k st))"

subsection \<open>Motion withheld by a stop\<close>

definition motion_key :: "motion \<Rightarrow> string" where
  "motion_key m = (if mo_zone m \<noteq> [] then ''zone/'' @ mo_zone m else ''resource/'' @ mo_resource m)"

definition heldByStop :: "robot \<Rightarrow> bool" where
  "heldByStop r = (r_estop_state r \<in> {EstopStopping, EstopStopped, EstopFailed, EstopResuming} \<or> HeldOnRecord r \<noteq> None)"

definition withheld_of :: "fence_state \<Rightarrow> robot_key \<Rightarrow> (string \<times> motion) list" where
  "withheld_of st k = (case map_of (fs_withheld st) k of Some ms \<Rightarrow> ms | None \<Rightarrow> [])"

definition withhold :: "robot_key \<Rightarrow> motion \<Rightarrow> fence_state \<Rightarrow> fence_state" where
  "withhold k m st = st\<lparr>fs_withheld := put k (put (motion_key m) m (withheld_of st k)) (fs_withheld st)\<rparr>"

definition takeWithheld :: "robot_key \<Rightarrow> motion \<Rightarrow> fence_state \<Rightarrow> bool \<times> fence_state" where
  "takeWithheld k m st =
     (if map_of (withheld_of st k) (motion_key m) = None then (False, st)
      else (True, st\<lparr>fs_withheld := put k (filter (\<lambda>(x, _). x \<noteq> motion_key m) (withheld_of st k)) (fs_withheld st)\<rparr>))"

datatype motion_verdict = Pass | Reread | Refuse fence_error

text \<open>
  The check of a motion under the send lock, over the Robot read before the lock was taken and the
  count of stops read before that. \<open>last\<close> tells that no further read is made.
\<close>

definition motion_check :: "bool \<Rightarrow> bool \<Rightarrow> robot_key \<Rightarrow> motion \<Rightarrow> robot \<Rightarrow> nat \<Rightarrow> fence_state \<Rightarrow> motion_verdict \<times> fence_state" where
  "motion_check released lastTry k m cur gen st =
     (case (if released then takeWithheld k m st else (True, st)) of (was, st1) \<Rightarrow>
        if \<not> was then (Refuse ErrNotWithheld, st1)
        else if fs_gen st1 k \<noteq> gen \<and> \<not> lastTry then (Reread, if released then withhold k m st1 else st1)
        else if heldByStop cur \<or> heldStops k st1 \<noteq> [] \<or> fs_gen st1 k \<noteq> gen
        then (Refuse ErrWithheldByStop, withhold k m st1)
        else (Pass, st1))"

definition sendUnderLock :: "bool \<Rightarrow> robot \<Rightarrow> (stream \<Rightarrow> fence_event) \<Rightarrow> fence_state \<Rightarrow> fence_error option \<times> fence_state" where
  "sendUnderLock ok r ev st = (case fs_streams st (r_namespace r, r_adapter r) of
     None \<Rightarrow> (Some NoControlStream, st)
   | Some sender \<Rightarrow> wire_send ok (ev sender) st)"

text \<open>
  The attempts of a motion: \<open>reads k\<close> is the Robot attempt \<open>k\<close> reads, \<open>between k\<close> what other sections do
  between its read of the count and its lock. Nine attempts are made.
\<close>

fun motion_from :: "bool \<Rightarrow> bool \<Rightarrow> robot \<Rightarrow> motion \<Rightarrow> (nat \<Rightarrow> robot option) \<Rightarrow> (nat \<Rightarrow> fence_state \<Rightarrow> fence_state) \<Rightarrow> nat \<Rightarrow> nat
    \<Rightarrow> fence_state \<Rightarrow> fence_error option \<times> fence_state" where
  "motion_from released ok r m reads between1 k n st =
     (let key = robotKey r; gen = fs_gen st key
      in case reads k of
          None \<Rightarrow> (Some FenceLookup, st)
        | Some cur \<Rightarrow> (case motion_check released (n = 0) key m cur gen (between1 k st) of
            (Pass, st1) \<Rightarrow> sendUnderLock ok r (\<lambda>sender. MotionSent key sender m) st1
          | (Refuse err, st1) \<Rightarrow> (Some err, st1)
          | (Reread, st1) \<Rightarrow> (case n of 0 \<Rightarrow> (Some ErrWithheldByStop, st1)
              | Suc n' \<Rightarrow> motion_from released ok r m reads between1 (Suc k) n' st1)))"

declare motion_from.simps [simp del]

definition sendMotion :: "bool \<Rightarrow> bool \<Rightarrow> robot \<Rightarrow> motion \<Rightarrow> (nat \<Rightarrow> robot option) \<Rightarrow> (nat \<Rightarrow> fence_state \<Rightarrow> fence_state)
    \<Rightarrow> fence_state \<Rightarrow> fence_error option \<times> fence_state" where
  "sendMotion released ok r m reads between1 st = motion_from released ok r m reads between1 0 8 st"

definition roundTripMotion :: "bool \<Rightarrow> robot \<Rightarrow> motion \<Rightarrow> (nat \<Rightarrow> robot option) \<Rightarrow> (nat \<Rightarrow> fence_state \<Rightarrow> fence_state)
    \<Rightarrow> fence_state \<Rightarrow> fence_error option \<times> fence_state" where
  "roundTripMotion ok r m reads between1 st = sendMotion False ok r m reads between1 st"

definition roundTripHold :: "bool \<Rightarrow> robot \<Rightarrow> motion \<Rightarrow> fence_state \<Rightarrow> fence_error option \<times> fence_state" where
  "roundTripHold ok r m st = sendUnderLock ok r (\<lambda>sender. HoldSent (robotKey r) sender m) (snd (takeWithheld (robotKey r) m st))"

definition promotionStands :: "fleet_zone list option \<Rightarrow> motion \<Rightarrow> bool" where
  "promotionStands zones m = (case zones of
     None \<Rightarrow> False
   | Some zs \<Rightarrow> list_ex (\<lambda>z. list_ex (\<lambda>q. q_name q = mo_resource m
       \<and> list_ex (\<lambda>h. h_robot h = mo_robot m \<and> h_action h = mo_robot m) (q_holders q)) (z_queues z)) zs)"

record release_env =
  rl_robot :: "robot option"
  rl_zones :: "fleet_zone list option"
  rl_ok :: bool
  rl_reads :: "nat \<Rightarrow> robot option"

fun release_each :: "release_env \<Rightarrow> robot \<Rightarrow> motion list \<Rightarrow> fence_state \<Rightarrow> fence_state" where
  "release_each env r [] st = st"
| "release_each env r (m # ms) st =
     (if mo_zone m = [] \<and> \<not> promotionStands (rl_zones env) m
      then release_each env r ms (snd (takeWithheld (robotKey r) m st))
      else release_each env r ms (snd (sendMotion True (rl_ok env) r m (rl_reads env) (\<lambda>_ x. x) st)))"

text \<open>
  What a release sends of what a stop withheld. The motions of every UID of the name are collected, in
  the order the map is ranged over, and the key is that of the last.
\<close>

definition RobotReleased :: "release_env \<Rightarrow> string \<Rightarrow> string \<Rightarrow> fence_state \<Rightarrow> fence_state" where
  "RobotReleased env ns name st =
     (let mine = filter (\<lambda>(k, _). of_robot ns name k) (fs_withheld st);
          todo = concat (map (\<lambda>(_, ms). map snd ms) mine)
      in if todo = [] then st
         else case rl_robot env of
             None \<Rightarrow> st
           | Some r \<Rightarrow> if (ns, name, r_uid r) \<noteq> fst (last mine) then st
               else release_each env r (sort_key motion_key todo) st)"

text \<open>The stops in force on a robot as the log tells them.\<close>

fun held_after :: "robot_key \<Rightarrow> fence_event list \<Rightarrow> string set \<Rightarrow> string set" where
  "held_after k [] ids = ids"
| "held_after k (Held k' i # es) ids = held_after k es (if k' = k then insert i ids else ids)"
| "held_after k (Emptied ns name # es) ids = held_after k es (if of_robot ns name k then {} else ids)"
| "held_after k (_ # es) ids = held_after k es ids"

definition held_now :: "robot_key \<Rightarrow> fence_event list \<Rightarrow> string set" where
  "held_now k es = held_after k es {}"

text \<open>What the log of a state that is correct looks like: nothing that moves a robot went out under a stop in force.\<close>

fun moves :: "robot_key \<Rightarrow> fence_event \<Rightarrow> bool" where
  "moves k (AssignSent k' _) = (k' = k)"
| "moves k (MotionSent k' _ _) = (k' = k)"
| "moves k _ = False"

definition quiet_under_stop :: "fence_event list \<Rightarrow> bool" where
  "quiet_under_stop es \<longleftrightarrow> (\<forall>us ev ws k. es = us @ ev # ws \<and> moves k ev \<longrightarrow> held_now k us = {})"

definition fence_inv :: "fence_state \<Rightarrow> bool" where
  "fence_inv st \<longleftrightarrow> (\<forall>k. set (held_ids st k) = held_now k (fs_log st)) \<and> quiet_under_stop (fs_log st)"

text \<open>The sections of the command dispatcher, in any order.\<close>

inductive fence_step :: "fence_state \<Rightarrow> fence_state \<Rightarrow> bool" where
  step_fence: "SendFence ok r stopID st = (err, st') \<Longrightarrow> fence_step st st'"
| step_cleared_fence: "SendClearedFence ok r stopID st = (err, st') \<Longrightarrow> fence_step st st'"
| step_clear: "fence_step st (ClearHeld ns name st)"
| step_register: "RobotRegistered ok1 sender wid look st = (err, st') \<Longrightarrow> fence_step st st'"
| step_assign: "roundTripAssign env st = (err, st') \<Longrightarrow> fence_step st st'"
| step_motion_check: "motion_check released lastTry (robotKey r) m cur gen st = (c, st1) \<Longrightarrow>
    st' = (if c = Pass then snd (sendUnderLock ok r (\<lambda>sender. MotionSent (robotKey r) sender m) st1) else st1) \<Longrightarrow> fence_step st st'"
| step_hold: "roundTripHold ok r m st = (err, st') \<Longrightarrow> fence_step st st'"
| step_drop: "takeWithheld k m st = (was, st') \<Longrightarrow> fence_step st st'"
| step_stream: "fence_step st (register_control i sender st)"
| step_stream_closed: "fence_step st (deregister_control i sender st)"
| step_negotiated: "fence_step st (StreamNegotiated adapters sender version st)"
| step_leadership: "fence_step st (st\<lparr>fs_leading := b\<rparr>)"

definition fenced_robot :: robot where
  "fenced_robot = (sample_robot ''r'' 50)\<lparr>r_namespace := ''n'', r_name := ''r'', r_uid := ''u'', r_adapter := ''ad''\<rparr>"

definition sample_assign :: assign_env where
  "sample_assign = \<lparr>ae_robot = Some fenced_robot, ae_require_contract = False, ae_require_register = False, ae_fence_ok = (\<lambda>_. True), ae_ok = True\<rparr>"

definition sample_release :: release_env where
  "sample_release = \<lparr>rl_robot = Some fenced_robot, rl_zones = None, rl_ok = True, rl_reads = (\<lambda>_. Some fenced_robot)\<rparr>"

subsection \<open>Lemmas\<close>

lemmas fence_samples = register_control_def sample_identity_def fence_init_def adapter_key_def SendFence_def robotKey_def
  fenced_robot_def sample_robot_def addHeld_def log_event_def held_ids_def sendFenceOn_def wire_send_def ClearHeld_def
  of_robot_def roundTripAssign_def sample_assign_def heldStops_def assign_send_def Let_def

lemma held_after_append: "held_after k (us @ ws) ids = held_after k ws (held_after k us ids)"
  by (induction k us ids rule: held_after.induct) auto

lemma held_now_snoc: "held_now k (es @ [ev]) = held_after k [ev] (held_now k es)"
  by (simp add: held_now_def held_after_append)

lemma quiet_snoc:
  "quiet_under_stop (es @ [ev]) \<longleftrightarrow> quiet_under_stop es \<and> (\<forall>k. moves k ev \<longrightarrow> held_now k es = {})"
proof
  assume q: "quiet_under_stop (es @ [ev])"
  have "quiet_under_stop es"
    unfolding quiet_under_stop_def
  proof (intro allI impI)
    fix us e ws k
    assume "es = us @ e # ws \<and> moves k e"
    then have "es @ [ev] = us @ e # (ws @ [ev]) \<and> moves k e" by simp
    then show "held_now k us = {}" using q unfolding quiet_under_stop_def by blast
  qed
  moreover have "moves k ev \<longrightarrow> held_now k es = {}" for k
    using q unfolding quiet_under_stop_def by blast
  ultimately show "quiet_under_stop es \<and> (\<forall>k. moves k ev \<longrightarrow> held_now k es = {})" by blast
next
  assume q: "quiet_under_stop es \<and> (\<forall>k. moves k ev \<longrightarrow> held_now k es = {})"
  show "quiet_under_stop (es @ [ev])"
    unfolding quiet_under_stop_def
  proof (intro allI impI)
    fix us e ws k
    assume h: "es @ [ev] = us @ e # ws \<and> moves k e"
    show "held_now k us = {}"
    proof (cases ws rule: rev_cases)
      case Nil
      then have "es = us" "ev = e" using h by auto
      then show ?thesis using h q by blast
    next
      case (snoc ws' w)
      then have "es = us @ e # ws' \<and> moves k e" using h by auto
      then show ?thesis using q unfolding quiet_under_stop_def by blast
    qed
  qed
qed

text \<open>What a section may do to the log and the stops in force and still be correct.\<close>

lemma inv_same: "fence_inv st \<Longrightarrow> fs_log st' = fs_log st \<Longrightarrow> fs_held st' = fs_held st \<Longrightarrow> fence_inv st'"
  by (simp add: fence_inv_def held_ids_def)

lemma inv_log:
  assumes "fence_inv st" "\<And>k ids. held_after k [ev] ids = ids" "\<And>k. moves k ev \<Longrightarrow> held_ids st k = []"
  shows "fence_inv (log_event ev st)"
proof -
  have "held_now k (fs_log st) = {}" if "moves k ev" for k
  proof -
    have "set (held_ids st k) = held_now k (fs_log st)" using assms(1) unfolding fence_inv_def by blast
    then show ?thesis using assms(3) [OF \<open>moves k ev\<close>] by simp
  qed
  then have "quiet_under_stop (fs_log st @ [ev])" using assms(1) by (simp add: fence_inv_def quiet_snoc)
  moreover have "set (held_ids (log_event ev st) k) = held_now k (fs_log st @ [ev])" for k
  proof -
    have "set (held_ids st k) = held_now k (fs_log st)" using assms(1) unfolding fence_inv_def by blast
    then show ?thesis by (simp only: held_now_snoc assms(2)) (simp add: held_ids_def log_event_def)
  qed
  ultimately show ?thesis by (simp add: fence_inv_def log_event_def)
qed

lemma inv_wire:
  assumes "fence_inv st" "\<And>k ids. held_after k [ev] ids = ids" "\<And>k. moves k ev \<Longrightarrow> held_ids st k = []"
    and "wire_send ok ev st = (err, st')"
  shows "fence_inv st'"
  using assms inv_log [OF assms(1-3)] by (auto simp: wire_send_def split: if_splits)

lemma held_ids_put: "held_ids (st\<lparr>fs_held := put k v (fs_held st), fs_gen := g\<rparr>) k' = (if k' = k then v else held_ids st k')"
  by (simp add: held_ids_def)

lemma inv_addHeld: "fence_inv st \<Longrightarrow> fence_inv (addHeld k i st)"
  unfolding fence_inv_def addHeld_def
  by (auto simp: log_event_def held_ids_def held_now_snoc quiet_snoc)

lemma inv_addHeld_all: "fence_inv st \<Longrightarrow> fence_inv (fold (addHeld k) is1 st)"
  by (induction is1 arbitrary: st) (auto intro: inv_addHeld)

lemma map_of_filter_key: "map_of (filter (\<lambda>(k, _). P k) xs) k = (if P k then map_of xs k else None)"
  by (induction xs) auto

lemma inv_ClearHeld: "fence_inv st \<Longrightarrow> fence_inv (ClearHeld ns name st)"
  unfolding fence_inv_def ClearHeld_def
  by (auto simp: log_event_def held_ids_def held_now_snoc quiet_snoc map_of_filter_key)

lemma inv_send_fences: "fence_inv st \<Longrightarrow> send_fences ok sender k is1 st = (err, st') \<Longrightarrow> fence_inv st'"
proof (induction is1 arbitrary: st)
  case (Cons i is1)
  obtain e1 st1 where s: "sendFenceOn (ok i) sender k i st = (e1, st1)" by fastforce
  then have "fence_inv st1" using Cons.prems(1) by (auto simp: sendFenceOn_def intro: inv_wire [rotated 3])
  then show ?case using Cons s by (auto split: option.splits)
qed simp

lemma inv_markReady: "fence_inv st \<Longrightarrow> fence_inv (markReady sender wid st)"
  by (erule inv_same) (simp_all add: markReady_def)

lemma inv_fenceOnRegister:
  assumes "fence_inv st" "fenceOnRegister ok sender wid r st = (err, st')"
  shows "fence_inv st'"
proof -
  define st1 where "st1 = (if in_stop_state r then fold (addHeld (robotKey r)) (in_force_ids r) st else st)"
  have i1: "fence_inv st1" using assms(1) by (simp add: st1_def inv_addHeld_all)
  obtain e2 st2 where f: "send_fences ok sender (robotKey r) (heldStops (robotKey r) st1) st1 = (e2, st2)" by fastforce
  then have "fence_inv st2" using i1 inv_send_fences by blast
  then show ?thesis using assms(2) f inv_markReady
    by (auto simp: fenceOnRegister_def Let_def st1_def split: option.splits if_splits)
qed

text \<open>The sends of work, whose guards are read under the same lock.\<close>

lemma heldStops_empty: "heldStops k st = [] \<longleftrightarrow> held_ids st k = []"
  by (metis heldStops_def length_0_conv length_sort)

lemma inv_assign_send:
  "fence_inv st \<Longrightarrow> heldStops k st = [] \<Longrightarrow> assign_send env sender k st = (err, st') \<Longrightarrow> fence_inv st'"
  unfolding assign_send_def by (erule inv_wire [rotated 3]) (auto simp: heldStops_empty)

lemma inv_roundTripAssign:
  assumes "fence_inv st" "roundTripAssign env st = (err, st')"
  shows "fence_inv st'"
proof (cases "\<exists>r sender. ae_robot env = Some r \<and> fs_streams st (r_namespace r, r_adapter r) = Some sender")
  case True
  then obtain r sender where r: "ae_robot env = Some r" "fs_streams st (r_namespace r, r_adapter r) = Some sender" by blast
  obtain e1 st1 where f: "fenceOnRegister (ae_fence_ok env) sender (Wire r) r st = (e1, st1)" by fastforce
  note i1 = inv_fenceOnRegister [OF assms(1) f]
  show ?thesis
    using assms r f i1 inv_assign_send [OF assms(1), of "robotKey r" env sender err st']
      inv_assign_send [OF i1, of "robotKey r" env sender err st']
    by (cases e1) (simp_all add: roundTripAssign_def Let_def split: if_splits)
qed (use assms in \<open>auto simp: roundTripAssign_def Let_def split: option.splits\<close>)

lemma takeWithheld_keeps:
  "takeWithheld k m st = (was, st') \<Longrightarrow> fs_log st' = fs_log st \<and> fs_held st' = fs_held st \<and> fs_streams st' = fs_streams st"
  by (auto simp: takeWithheld_def split: if_splits)

lemma withhold_keeps: "fs_log (withhold k m st) = fs_log st \<and> fs_held (withhold k m st) = fs_held st"
  by (simp add: withhold_def)

lemma motion_check_keeps:
  "motion_check released lastTry k m cur gen st = (c, st') \<Longrightarrow>
     fs_log st' = fs_log st \<and> fs_held st' = fs_held st \<and> (c = Pass \<longrightarrow> heldStops k st' = [] \<and> fs_gen st' k = gen \<and> \<not> heldByStop cur)"
  by (auto simp: motion_check_def withhold_keeps dest!: takeWithheld_keeps split: prod.splits if_splits)

lemma inv_sendUnderLock:
  assumes "fence_inv st" "\<And>s k ids. held_after k [ev s] ids = ids" "\<And>s k. moves k (ev s) \<Longrightarrow> held_ids st k = []"
  shows "fence_inv (snd (sendUnderLock ok r ev st))"
proof (cases "fs_streams st (r_namespace r, r_adapter r)")
  case (Some s)
  obtain e st' where w: "wire_send ok (ev s) st = (e, st')" by fastforce
  have "fence_inv st'" by (rule inv_wire [OF assms(1) _ _ w]) (use assms in auto)
  then show ?thesis using w Some by (simp add: sendUnderLock_def)
qed (simp add: sendUnderLock_def assms)

lemma inv_motion_section:
  assumes "fence_inv st" "motion_check released lastTry (robotKey r) m cur gen st = (c, st1)"
  shows "fence_inv st1" "c = Pass \<Longrightarrow> fence_inv (snd (sendUnderLock ok r (\<lambda>s. MotionSent (robotKey r) s m) st1))"
proof -
  show i: "fence_inv st1" using inv_same [OF assms(1)] motion_check_keeps [OF assms(2)] by blast
  show "fence_inv (snd (sendUnderLock ok r (\<lambda>s. MotionSent (robotKey r) s m) st1))" if "c = Pass"
    using motion_check_keeps [OF assms(2)] that by (intro inv_sendUnderLock i) (auto simp: heldStops_empty)
qed

lemma inv_roundTripHold: "fence_inv st \<Longrightarrow> roundTripHold ok r m st = (err, st') \<Longrightarrow> fence_inv st'"
proof -
  assume i: "fence_inv st" and h: "roundTripHold ok r m st = (err, st')"
  obtain was st1 where t: "takeWithheld (robotKey r) m st = (was, st1)" by fastforce
  have "fence_inv st1" using inv_same [OF i] takeWithheld_keeps [OF t] by blast
  then have "fence_inv (snd (sendUnderLock ok r (\<lambda>s. HoldSent (robotKey r) s m) st1))" by (intro inv_sendUnderLock) auto
  then show ?thesis using h t by (simp add: roundTripHold_def)
qed

lemma inv_SendFence: "fence_inv st \<Longrightarrow> SendFence ok r i st = (err, st') \<Longrightarrow> fence_inv st'"
  unfolding SendFence_def Let_def sendFenceOn_def
  using inv_addHeld [of st "robotKey r" i]
  by (auto split: option.splits intro: inv_wire [rotated 3])

lemma inv_SendClearedFence: "fence_inv st \<Longrightarrow> SendClearedFence ok r i st = (err, st') \<Longrightarrow> fence_inv st'"
  unfolding SendClearedFence_def sendFenceOn_def
  by (auto split: option.splits intro: inv_wire [rotated 3])

lemma inv_RobotRegistered: "fence_inv st \<Longrightarrow> RobotRegistered ok sender wid look st = (err, st') \<Longrightarrow> fence_inv st'"
proof -
  assume i: "fence_inv st" and h: "RobotRegistered ok sender wid look st = (err, st')"
  have "fence_inv (markRegistered sender wid st)" by (rule inv_same [OF i]) (simp_all add: markRegistered_def)
  then show ?thesis using h inv_fenceOnRegister by (auto simp: RobotRegistered_def Let_def split: option.splits)
qed

lemma inv_streams:
  "fence_inv st \<Longrightarrow> fence_inv (register_control i sender st)"
  "fence_inv st \<Longrightarrow> fence_inv (deregister_control i sender st)"
  "fence_inv st \<Longrightarrow> fence_inv (StreamNegotiated adapters sender version st)"
  by (erule inv_same; simp add: register_control_def deregister_control_def forgetStream_def StreamNegotiated_def)+

lemma fence_inv_step: "fence_step st st' \<Longrightarrow> fence_inv st \<Longrightarrow> fence_inv st'"
proof (induction rule: fence_step.induct)
  case (step_motion_check released lastTry r m cur gen st c st1 st' ok)
  then show ?case using inv_motion_section [OF step_motion_check(3,1)] by simp
next
  case (step_drop k m st was st')
  then show ?case using inv_same takeWithheld_keeps by blast
next
  case (step_leadership st b)
  then show ?case by (rule inv_same) simp_all
qed (blast intro: inv_SendFence inv_SendClearedFence inv_ClearHeld inv_RobotRegistered inv_roundTripAssign inv_roundTripHold inv_streams)+

lemma fence_inv_run: "fence_step\<^sup>*\<^sup>* st st' \<Longrightarrow> fence_inv st \<Longrightarrow> fence_inv st'"
  by (induction rule: rtranclp_induct) (blast intro: fence_inv_step)+

lemma fence_inv_init: "fence_inv fence_init"
  by (simp add: fence_inv_def fence_init_def held_ids_def held_now_def quiet_under_stop_def)

lemma held_until_emptied:
  "x \<in> ids \<Longrightarrow> Emptied (fst k) (fst (snd k)) \<notin> set es \<Longrightarrow> x \<in> held_after k es ids"
  by (induction k es ids rule: held_after.induct) (auto simp: of_robot_def)

lemma quiet_run:
  assumes "fence_step\<^sup>*\<^sup>* fence_init st" "fs_log st = us @ Held k i # vs @ ev # ws" "moves k ev"
  shows "Emptied (fst k) (fst (snd k)) \<in> set vs"
proof (rule ccontr)
  assume n: "Emptied (fst k) (fst (snd k)) \<notin> set vs"
  have "quiet_under_stop (fs_log st)"
    using fence_inv_run [OF assms(1) fence_inv_init] by (simp add: fence_inv_def)
  moreover have "fs_log st = (us @ Held k i # vs) @ ev # ws" using assms(2) by simp
  ultimately have "held_now k (us @ Held k i # vs) = {}" using assms(3) unfolding quiet_under_stop_def by blast
  moreover have "i \<in> held_now k (us @ Held k i # vs)"
    using n by (simp add: held_now_def held_after_append held_until_emptied)
  ultimately show False by blast
qed

text \<open>The loops of the dispatcher are runs of its sections, whatever else runs between their attempts.\<close>

lemma step_of_check:
  assumes "motion_check released lastTry (robotKey r) m cur gen st = (c, st1)" "c \<noteq> Pass"
  shows "fence_step st st1"
  using step_motion_check [OF assms(1), of st1] assms(2) by simp

lemma motion_from_run:
  assumes "\<And>k st. fence_step\<^sup>*\<^sup>* st (between1 k st)"
  shows "fence_step\<^sup>*\<^sup>* st (snd (motion_from released ok r m reads between1 k n st))"
proof (induction n arbitrary: k st)
  case 0
  show ?case
  proof (cases "reads k")
    case (Some cur)
    obtain c st1 where c: "motion_check released True (robotKey r) m cur (fs_gen st (robotKey r)) (between1 k st) = (c, st1)"
      by fastforce
    note sent = step_motion_check [OF c refl, of ok] and kept = step_of_check [OF c]
    show ?thesis using Some c assms [of st k] sent kept
      by (cases c) (simp_all add: motion_from.simps [of _ _ _ _ _ _ _ 0] Let_def)
  qed (simp add: motion_from.simps)
next
  case (Suc n)
  show ?case
  proof (cases "reads k")
    case (Some cur)
    obtain c st1 where c: "motion_check released False (robotKey r) m cur (fs_gen st (robotKey r)) (between1 k st) = (c, st1)"
      by fastforce
    note sent = step_motion_check [OF c refl, of ok] and kept = step_of_check [OF c]
    show ?thesis using Some c assms [of st k] sent kept Suc.IH [of st1 "Suc k"]
      by (cases c) (simp_all add: motion_from.simps [of _ _ _ _ _ _ _ "Suc n"] Let_def)
  qed (simp add: motion_from.simps)
qed

lemma release_each_run: "fence_step\<^sup>*\<^sup>* st (release_each env r ms st)"
proof (induction ms arbitrary: st)
  case (Cons m ms)
  have "fence_step\<^sup>*\<^sup>* st (snd (takeWithheld (robotKey r) m st))"
    using step_drop [of "robotKey r" m st] by (metis prod.collapse r_into_rtranclp)
  moreover have "fence_step\<^sup>*\<^sup>* st (snd (sendMotion True (rl_ok env) r m (rl_reads env) (\<lambda>_ x. x) st))"
    unfolding sendMotion_def by (rule motion_from_run) simp
  ultimately show ?case using Cons.IH by (auto intro: rtranclp_trans)
qed simp

lemma RobotReleased_run: "fence_step\<^sup>*\<^sup>* st (RobotReleased env ns name st)"
  by (auto simp: RobotReleased_def Let_def release_each_run split: option.splits)

text \<open>
  Claim C3. Whatever the order of the command dispatcher's sections, an AssignAction or a motion
  command of a robot that goes out after a stop was put in force on it goes out after the robot's
  stops were emptied by a clear in between.
\<close>

theorem work_waits_for_the_clear:
  assumes "fence_step\<^sup>*\<^sup>* fence_init st"
    and "fs_log st = us @ Held k i # vs @ ev # ws"
    and "ev = AssignSent k s \<or> ev = MotionSent k s m"
  shows "Emptied (fst k) (fst (snd k)) \<in> set vs"
  using quiet_run [OF assms(1,2)] assms(3) by auto

theorem work_waits_for_the_clear_witness:
  "\<exists>st. fence_step\<^sup>*\<^sup>* fence_init st
     \<and> fs_log st = [Held (''n'', ''r'', ''u'') ''s1'', FenceSent (''n'', ''r'', ''u'') 1 ''s1'', Emptied ''n'' ''r'', AssignSent (''n'', ''r'', ''u'') 1]
     \<and> Emptied ''n'' ''r'' \<in> set [FenceSent (''n'', ''r'', ''u'') 1 ''s1'', Emptied ''n'' ''r'']"
proof -
  let ?st1 = "register_control sample_identity 1 fence_init"
  let ?st2 = "snd (SendFence True fenced_robot ''s1'' ?st1)"
  let ?st3 = "ClearHeld ''n'' ''r'' ?st2"
  let ?st4 = "snd (roundTripAssign sample_assign ?st3)"
  have "fence_step fence_init ?st1" by (rule step_stream)
  moreover have "fence_step ?st1 ?st2" using step_fence by (metis prod.collapse)
  moreover have "fence_step ?st2 ?st3" by (rule step_clear)
  moreover have "fence_step ?st3 ?st4" using step_assign by (metis prod.collapse)
  ultimately have run: "fence_step\<^sup>*\<^sup>* fence_init ?st4" by (meson rtranclp.rtrancl_into_rtrancl rtranclp.rtrancl_refl)
  have log: "fs_log ?st4 = [] @ Held (''n'', ''r'', ''u'') ''s1'' # [FenceSent (''n'', ''r'', ''u'') 1 ''s1'', Emptied ''n'' ''r'']
      @ AssignSent (''n'', ''r'', ''u'') 1 # []"
    by (simp add: fence_samples)
  show ?thesis using run log work_waits_for_the_clear [OF run log, of 1] by (intro exI [of _ ?st4]) simp
qed

text \<open>
  A release looks only at the key the range over the withheld commands ended with: an entry left by a
  former robot of the same name, even an empty one, keeps the commands of the robot that is there.
\<close>

lemma former_robot_blocks_release:
  defines "live \<equiv> ((''n'', ''r'', ''u''), [(''zone/z'', \<lparr>mo_zone = ''z'', mo_resource = [], mo_robot = ''r''\<rparr>)])"
    and "old \<equiv> ((''n'', ''r'', ''u0''), [])"
    and "st \<equiv> register_control sample_identity 1 fence_init"
  shows "RobotReleased sample_release ''n'' ''r'' (st\<lparr>fs_withheld := [live, old]\<rparr>) = st\<lparr>fs_withheld := [live, old]\<rparr>"
    and "fs_log (RobotReleased sample_release ''n'' ''r'' (st\<lparr>fs_withheld := [old, live]\<rparr>))
       = [MotionSent (''n'', ''r'', ''u'') 1 \<lparr>mo_zone = ''z'', mo_resource = [], mo_robot = ''r''\<rparr>]"
  by (simp_all add: live_def old_def st_def sample_release_def RobotReleased_def of_robot_def fence_samples sendMotion_def
      motion_from.simps motion_check_def takeWithheld_def withheld_of_def motion_key_def heldByStop_def sendUnderLock_def
      HeldOnRecord_def)

end
