(* ===== verification/GoJson.thy ===== *)
theory GoJson
  imports GoStrconv "HOL-Library.Word"
begin

text \<open>
  What the audit log uses of Go's standard library: \<^verbatim>\<open>encoding/json\<close> for objects of strings and numbers,
  \<^verbatim>\<open>crypto/sha256\<close> and \<^verbatim>\<open>encoding/hex\<close>. A Go string is its bytes, so a char of the model is a byte. The
  lemmas show that an encoded value can be read back when its strings are UTF-8, and the lengths of
  digests.
\<close>

subsection \<open>UTF-8\<close>

definition in_bytes :: "nat \<Rightarrow> nat \<Rightarrow> char \<Rightarrow> bool" where
  "in_bytes lo hi c = (lo \<le> char_val c \<and> char_val c \<le> hi)"

definition cont_bytes :: "nat \<Rightarrow> string \<Rightarrow> bool" where
  "cont_bytes n s = (n \<le> length s \<and> list_all (in_bytes 128 191) (take n s))"

text \<open>The length of the rune at the head of a string, and 0 when its bytes are no rune.\<close>

fun rune_len :: "string \<Rightarrow> nat" where
  "rune_len [] = 0"
| "rune_len (a # s) =
     (if char_val a < 128 then 1
      else if in_bytes 194 223 a \<and> cont_bytes 1 s then 2
      else if cont_bytes 2 s \<and> (char_val a = 224 \<and> in_bytes 160 191 (hd s) \<or> in_bytes 225 236 a
             \<or> char_val a = 237 \<and> in_bytes 128 159 (hd s) \<or> in_bytes 238 239 a) then 3
      else if cont_bytes 3 s \<and> (char_val a = 240 \<and> in_bytes 144 191 (hd s) \<or> in_bytes 241 243 a
             \<or> char_val a = 244 \<and> in_bytes 128 143 (hd s)) then 4
      else 0)"

declare rune_len.simps [simp del]

fun valid_utf8 :: "string \<Rightarrow> bool" where
  "valid_utf8 [] = True"
| "valid_utf8 (c # s) = (rune_len (c # s) \<noteq> 0 \<and> valid_utf8 (drop (rune_len (c # s) - 1) s))"

declare valid_utf8.simps(2) [simp del]

subsection \<open>Strings, numbers and objects\<close>

definition hex_digit :: "nat \<Rightarrow> char" where
  "hex_digit n = (if n < 10 then char_of (48 + n) else char_of (87 + n))"

definition backslash :: char where "backslash = CHR 0x5C"

definition quote :: char where "quote = CHR 0x22"

definition json_ascii :: "char \<Rightarrow> string" where
  "json_ascii c =
     (if c = quote \<or> c = backslash then [backslash, c]
      else if c = CHR 0x08 then backslash # ''b''
      else if c = CHR 0x0C then backslash # ''f''
      else if c = CHR 0x0A then backslash # ''n''
      else if c = CHR 0x0D then backslash # ''r''
      else if c = CHR 0x09 then backslash # ''t''
      else if char_val c < 32 \<or> c \<in> set ''<>&'' then backslash # ''u00'' @ [hex_digit (char_val c div 16), hex_digit (char_val c mod 16)]
      else [c])"

definition line_separators :: "(string \<times> string) list" where
  "line_separators = [([CHR 0xE2, CHR 0x80, CHR 0xA8], ''u2028''), ([CHR 0xE2, CHR 0x80, CHR 0xA9], ''u2029'')]"

definition json_rune :: "string \<Rightarrow> string" where
  "json_rune r = (case map_of line_separators r of Some u \<Rightarrow> backslash # u | None \<Rightarrow> r)"

fun json_chars :: "string \<Rightarrow> string" where
  "json_chars [] = []"
| "json_chars (c # s) =
     (if char_val c < 128 then json_ascii c @ json_chars s
      else if rune_len (c # s) = 0 then (backslash # ''ufffd'') @ json_chars s
      else json_rune (take (rune_len (c # s)) (c # s)) @ json_chars (drop (rune_len (c # s) - 1) s))"

declare json_chars.simps(2) [simp del]

definition json_string :: "string \<Rightarrow> string" where
  "json_string s = quote # json_chars s @ [quote]"

datatype json = JNumber nat | JString string | JObject "(string \<times> json) list"

fun commas :: "string list \<Rightarrow> string" where
  "commas [] = []"
| "commas [x] = x"
| "commas (x # xs) = x @ '','' @ commas xs"

fun render :: "json \<Rightarrow> string" where
  "render (JNumber n) = format_uint n"
| "render (JString s) = json_string s"
| "render (JObject fs) = ''{'' @ commas (map (\<lambda>(k, v). json_string k @ '':'' @ render v) fs) @ ''}''"

subsection \<open>SHA-256\<close>

type_synonym word32 = "32 word"

text \<open>
  The standard defines the round constants and the initial state by arithmetic: the first 32 bits of
  the fractional parts of the cube roots of the first 64 primes, and of the square roots of the first
  8. \<open>root_digits k b n 0\<close> is the integer part of the \<open>k\<close>-th root of \<open>n\<close>, found bit by bit from
  bit \<open>b - 1\<close> down; 40 bits hold every root that is taken here, since the primes are below 312.
\<close>

fun root_digits :: "nat \<Rightarrow> nat \<Rightarrow> int \<Rightarrow> int \<Rightarrow> int" where
  "root_digits k 0 n r = r"
| "root_digits k (Suc b) n r = root_digits k b n (if (r + 2 ^ b) ^ k \<le> n then r + 2 ^ b else r)"

definition root_fraction :: "nat \<Rightarrow> int \<Rightarrow> word32" where
  "root_fraction k p = word_of_int (root_digits k 40 (p * 2 ^ (32 * k)) 0)"

definition sha_primes :: "int list" where
  "sha_primes = filter (\<lambda>p. list_all (\<lambda>d. p mod d \<noteq> 0) [2..p - 1]) [2..311]"

definition sha_constants :: "word32 list" where
  "sha_constants = map (root_fraction 3) sha_primes"

record sha_state =
  h0 :: word32 h1 :: word32 h2 :: word32 h3 :: word32 h4 :: word32 h5 :: word32 h6 :: word32 h7 :: word32

definition sha_init :: sha_state where
  "sha_init =
     (let root = \<lambda>i. root_fraction 2 (sha_primes ! i)
      in \<lparr>h0 = root 0, h1 = root 1, h2 = root 2, h3 = root 3, h4 = root 4, h5 = root 5, h6 = root 6, h7 = root 7\<rparr>)"

definition big_endian :: "string \<Rightarrow> nat" where
  "big_endian s = foldl (\<lambda>n c. 256 * n + char_val c) 0 s"

definition bytes_of :: "nat \<Rightarrow> nat \<Rightarrow> string" where
  "bytes_of k n = map (\<lambda>i. char_of (n div 256 ^ i mod 256)) (rev [0..<k])"

definition sha_pad :: "string \<Rightarrow> string" where
  "sha_pad m = m @ CHR 0x80 # replicate ((119 - length m mod 64) mod 64) CHR 0x00 @ bytes_of 8 (8 * length m mod 2 ^ 64)"

fun chunks :: "nat \<Rightarrow> nat \<Rightarrow> 'a list \<Rightarrow> 'a list list" where
  "chunks 0 k xs = []"
| "chunks (Suc n) k xs = take k xs # chunks n k (drop k xs)"

fun schedule :: "nat \<Rightarrow> word32 list \<Rightarrow> word32 list" where
  "schedule 0 ws = ws"
| "schedule (Suc n) ws =
     (let i = length ws; w15 = ws ! (i - 15); w2 = ws ! (i - 2);
          s0 = xor (xor (word_rotr 7 w15) (word_rotr 18 w15)) (drop_bit 3 w15);
          s1 = xor (xor (word_rotr 17 w2) (word_rotr 19 w2)) (drop_bit 10 w2)
      in schedule n (ws @ [ws ! (i - 16) + s0 + ws ! (i - 7) + s1]))"

definition sha_round :: "word32 \<times> word32 \<Rightarrow> sha_state \<Rightarrow> sha_state" where
  "sha_round kw st =
     (let e = h4 st; a = h0 st;
          s1 = xor (xor (word_rotr 6 e) (word_rotr 11 e)) (word_rotr 25 e);
          ch = xor (and e (h5 st)) (and (not e) (h6 st));
          t1 = h7 st + s1 + ch + fst kw + snd kw;
          s0 = xor (xor (word_rotr 2 a) (word_rotr 13 a)) (word_rotr 22 a);
          maj = xor (xor (and a (h1 st)) (and a (h2 st))) (and (h1 st) (h2 st))
      in \<lparr>h0 = t1 + s0 + maj, h1 = a, h2 = h1 st, h3 = h2 st, h4 = h3 st + t1, h5 = e, h6 = h5 st, h7 = h6 st\<rparr>)"

definition sha_block :: "string \<Rightarrow> sha_state \<Rightarrow> sha_state" where
  "sha_block b st =
     (let ws = schedule 48 (map (\<lambda>c. of_nat (big_endian c)) (chunks 16 4 b));
          r = fold sha_round (zip sha_constants ws) st
      in \<lparr>h0 = h0 st + h0 r, h1 = h1 st + h1 r, h2 = h2 st + h2 r, h3 = h3 st + h3 r,
          h4 = h4 st + h4 r, h5 = h5 st + h5 r, h6 = h6 st + h6 r, h7 = h7 st + h7 r\<rparr>)"

definition Sum256 :: "string \<Rightarrow> string" where
  "Sum256 m =
     (let p = sha_pad m; st = fold sha_block (chunks (length p div 64) 64 p) sha_init
      in concat (map (\<lambda>w. bytes_of 4 (unat w)) [h0 st, h1 st, h2 st, h3 st, h4 st, h5 st, h6 st, h7 st]))"

definition EncodeToString :: "string \<Rightarrow> string" where
  "EncodeToString s = concat (map (\<lambda>c. [hex_digit (char_val c div 16), hex_digit (char_val c mod 16)]) s)"

text \<open>A reader of encoded strings, and the values whose strings are UTF-8.\<close>

fun hex_value :: "char \<Rightarrow> nat" where
  "hex_value c = (if char_val c < 58 then char_val c - 48 else char_val c - 87)"

declare hex_value.simps [simp del]

definition unicode :: "string \<Rightarrow> string" where
  "unicode s = (if s = ''2028'' then [CHR 0xE2, CHR 0x80, CHR 0xA8] else if s = ''2029'' then [CHR 0xE2, CHR 0x80, CHR 0xA9]
     else [char_of (16 * hex_value (s ! 2) + hex_value (s ! 3))])"

definition unescape :: "char \<Rightarrow> char" where
  "unescape c = (if c = CHR ''b'' then CHR 0x08 else if c = CHR ''f'' then CHR 0x0C else if c = CHR ''n'' then CHR 0x0A
     else if c = CHR ''r'' then CHR 0x0D else if c = CHR ''t'' then CHR 0x09 else c)"

definition read_more :: "string \<Rightarrow> (string \<times> string) option \<Rightarrow> (string \<times> string) option" where
  "read_more u = map_option (\<lambda>(s, r). (u @ s, r))"

fun read_chars :: "string \<Rightarrow> (string \<times> string) option" where
  "read_chars [] = None"
| "read_chars (c # s) =
     (if c = quote then Some ([], s)
      else if c = backslash then (case s of
          [] \<Rightarrow> None
        | e # s1 \<Rightarrow> if e = CHR ''u'' then read_more (unicode (take 4 s1)) (read_chars (drop 4 s1))
            else read_more [unescape e] (read_chars s1))
      else read_more [c] (read_chars s))"

declare read_chars.simps(2) [simp del]

fun utf8_json :: "json \<Rightarrow> bool" where
  "utf8_json (JNumber n) = True"
| "utf8_json (JString s) = valid_utf8 s"
| "utf8_json (JObject fs) = list_all (\<lambda>(k, v). valid_utf8 k \<and> utf8_json v) fs"

definition undigit :: "string \<Rightarrow> bool" where
  "undigit r \<longleftrightarrow> r = [] \<or> digit_val (hd r) = None"

definition json_field :: "string \<times> json \<Rightarrow> string" where
  "json_field f = (case f of (k, v) \<Rightarrow> json_string k @ '':'' @ render v)"

definition decodable :: "json \<Rightarrow> bool" where
  "decodable j \<longleftrightarrow> (\<forall>j' r r'. utf8_json j' \<longrightarrow> undigit r \<longrightarrow> undigit r' \<longrightarrow> render j @ r = render j' @ r' \<longrightarrow> j = j' \<and> r = r')"

subsection \<open>Lemmas\<close>

lemma char_val_less [simp]: "char_val c < 256"
  by (simp add: char_val_def)

lemma char_val_char_of: "n < 256 \<Longrightarrow> char_val (char_of n) = n"
  by (simp add: char_val_def)

lemma char_of_char_val [simp]: "char_of (char_val c) = c"
  by (simp add: char_val_def)

lemma hex_value_digit: "n < 16 \<Longrightarrow> hex_value (hex_digit n) = n"
  by (auto simp: hex_digit_def hex_value.simps char_val_char_of)

lemma hex_digit_inject: "m < 16 \<Longrightarrow> n < 16 \<Longrightarrow> hex_digit m = hex_digit n \<Longrightarrow> m = n"
  by (metis hex_value_digit)

lemma read_more_Nil [simp]: "read_more [] x = x"
  by (cases x) (simp_all add: read_more_def)

lemma read_more_append: "read_more u (read_more v x) = read_more (u @ v) x"
  by (cases x) (auto simp: read_more_def)

lemma read_plain:
  "list_all (\<lambda>c. c \<noteq> quote \<and> c \<noteq> backslash) u \<Longrightarrow> read_chars (u @ t) = read_more u (read_chars t)"
  by (induction u) (simp_all add: read_chars.simps read_more_append)

lemma hex_split: "char_of (16 * (char_val c div 16) + char_val c mod 16) = c"
proof -
  have "16 * (char_val c div 16) + char_val c mod 16 = char_val c" by simp
  then show ?thesis by (simp only: char_of_char_val)
qed

lemma read_escape: "e \<noteq> CHR ''u'' \<Longrightarrow> read_chars (backslash # e # t) = read_more [unescape e] (read_chars t)"
  by (simp add: read_chars.simps backslash_def quote_def)

lemma read_unicode: "read_chars (backslash # CHR ''u'' # a # b # c # d # t) = read_more (unicode [a, b, c, d]) (read_chars t)"
  by (simp add: read_chars.simps backslash_def quote_def numeral_eq_Suc)

lemma unicode_hex: "unicode [CHR ''0'', CHR ''0'', hex_digit (char_val c div 16), hex_digit (char_val c mod 16)] = [c]"
proof -
  have "char_val c div 16 < 16" "char_val c mod 16 < 16" using char_val_less [of c] by linarith+
  then show ?thesis by (simp add: unicode_def hex_value_digit hex_split)
qed

lemma read_ascii: "read_chars (json_ascii c @ t) = read_more [c] (read_chars t)"
proof (cases "c \<in> {quote, backslash, CHR 0x08, CHR 0x0C, CHR 0x0A, CHR 0x0D, CHR 0x09}")
  case True
  then show ?thesis
    by (elim insertE) (simp_all add: json_ascii_def read_escape unescape_def quote_def backslash_def read_escape [unfolded backslash_def])
next
  case False
  then show ?thesis
    using read_unicode [of "CHR ''0''" "CHR ''0''"] read_plain [of "[c]" t]
    by (simp add: json_ascii_def unicode_hex)
qed

lemma rune_bytes:
  assumes "128 \<le> char_val c" "rune_len (c # s) = n" "n \<noteq> 0"
  shows "1 < n \<and> n \<le> length (c # s) \<and> list_all (\<lambda>a. 128 \<le> char_val a) (take n (c # s))"
proof -
  obtain k where k: "n = Suc k" "1 \<le> k" "cont_bytes k s"
    using assms by (cases n) (simp_all add: rune_len.simps split: if_splits)
  then show ?thesis using assms(1) by (auto simp: cont_bytes_def in_bytes_def list_all_iff)
qed

lemma high_byte_plain: "128 \<le> char_val a \<Longrightarrow> a \<noteq> quote \<and> a \<noteq> backslash"
  by (auto simp: char_val_def quote_def backslash_def)

lemma read_rune:
  assumes "list_all (\<lambda>a. 128 \<le> char_val a) u"
  shows "read_chars (json_rune u @ t) = read_more u (read_chars t)"
proof (cases "map_of line_separators u")
  case None
  have "list_all (\<lambda>c. c \<noteq> quote \<and> c \<noteq> backslash) u"
    using assms high_byte_plain by (auto simp: list_all_iff)
  then show ?thesis using None by (simp add: json_rune_def read_plain)
next
  case (Some v)
  then consider "u = [CHR 0xE2, CHR 0x80, CHR 0xA8]" "v = ''u2028''" | "u = [CHR 0xE2, CHR 0x80, CHR 0xA9]" "v = ''u2029''"
    by (auto simp: line_separators_def split: if_splits)
  then show ?thesis using Some by cases (simp_all add: json_rune_def read_unicode unicode_def)
qed

text \<open>An encoded string is read back, whatever follows it.\<close>

lemma read_json_chars: "valid_utf8 s \<Longrightarrow> read_chars (json_chars s @ quote # r) = Some (s, r)"
proof (induction s rule: json_chars.induct)
  case 1
  show ?case by (simp add: read_chars.simps)
next
  case (2 c s)
  show ?case
  proof (cases "char_val c < 128")
    case True
    then have "rune_len (c # s) = 1" by (simp add: rune_len.simps)
    then have "valid_utf8 s" using "2.prems" by (simp add: valid_utf8.simps)
    then show ?thesis using "2.IH"(1) [OF True] True by (simp add: json_chars.simps read_ascii read_more_def)
  next
    case False
    define n where "n = rune_len (c # s)"
    have n0: "n \<noteq> 0" "valid_utf8 (drop (n - 1) s)" using "2.prems" by (simp_all add: valid_utf8.simps n_def)
    have n: "1 < n" "list_all (\<lambda>a. 128 \<le> char_val a) (take n (c # s))"
      using rune_bytes [of c s n] False n0(1) n_def by simp_all
    have "take n (c # s) @ drop (n - 1) s = c # s" using n(1) by (cases n) simp_all
    moreover have "read_chars (json_chars (drop (n - 1) s) @ quote # r) = Some (drop (n - 1) s, r)"
      using "2.IH"(3) [OF False] n0 n_def by simp
    ultimately show ?thesis
      using False n0(1) n(2) unfolding json_chars.simps(2) n_def [symmetric]
      by (simp add: read_rune read_more_def)
  qed
qed

lemma json_string_prefix:
  assumes "valid_utf8 s" "valid_utf8 s'" "json_string s @ r = json_string s' @ r'"
  shows "s = s' \<and> r = r'"
proof -
  have "json_chars s @ quote # r = json_chars s' @ quote # r'" using assms(3) by (simp add: json_string_def)
  then have "Some (s, r) = Some (s', r')" using read_json_chars [OF assms(1)] read_json_chars [OF assms(2)] by metis
  then show ?thesis by simp
qed

lemma format_uint_digits: "list_all (\<lambda>c. digit_val c \<noteq> None) (format_uint n)"
proof (induction n rule: format_uint.induct)
  case (1 n)
  then show ?case by (simp add: format_uint.simps [of n] digit_val_digit_char)
qed

lemma format_uint_prefix:
  assumes "format_uint m @ r = format_uint n @ r'" "undigit r" "undigit r'"
  shows "m = n \<and> r = r'"
proof -
  have tw: "takeWhile (\<lambda>c. digit_val c \<noteq> None) (format_uint k @ t) = format_uint k" if "undigit t" for k t
    using format_uint_digits [of k] that by (cases t) (auto simp: list_all_iff undigit_def takeWhile_append)
  have "format_uint m = format_uint n" using tw [OF assms(2), of m] tw [OF assms(3), of n] assms(1) by simp
  moreover from this have "m = n" by (metis option.inject parse_digits_format_uint)
  ultimately show ?thesis using assms(1) by simp
qed

lemma commas_Cons: "commas (x # xs) = x @ concat (map (\<lambda>y. '','' @ y) xs)"
  by (induction xs arbitrary: x) simp_all

lemma decodableD: "decodable j \<Longrightarrow> utf8_json j' \<Longrightarrow> undigit r \<Longrightarrow> undigit r' \<Longrightarrow> render j @ r = render j' @ r' \<Longrightarrow> j = j' \<and> r = r'"
  unfolding decodable_def by blast

lemma json_field_prefix:
  assumes "valid_utf8 (fst f)" "decodable (snd f)" "valid_utf8 (fst f')" "utf8_json (snd f')" "undigit r" "undigit r'"
    and "json_field f @ r = json_field f' @ r'"
  shows "f = f' \<and> r = r'"
proof -
  obtain k v k' v' where f: "f = (k, v)" "f' = (k', v')" by (cases f, cases f') blast
  have "json_string k @ (CHR '':'' # render v @ r) = json_string k' @ (CHR '':'' # render v' @ r')"
    using assms(7) by (simp add: f json_field_def)
  moreover have "valid_utf8 k" "valid_utf8 k'" using assms(1,3) f by simp_all
  ultimately have k: "k = k' \<and> CHR '':'' # render v @ r = CHR '':'' # render v' @ r'" by (intro json_string_prefix)
  have "v = v' \<and> r = r'"
    using k assms(2,4) f by (intro decodableD [OF _ _ assms(5,6)]) simp_all
  then show ?thesis using k f by simp
qed

lemma undigit_simps [simp]: "undigit (CHR '','' # r)" "undigit (CHR ''}'' # r)" "undigit []"
  by (simp_all add: undigit_def digit_val_def char_val_def)

lemma undigit_fields: "undigit (concat (map (\<lambda>f. '','' @ json_field f) fs) @ CHR ''}'' # r)"
  by (cases fs) simp_all

lemma more_fields_prefix:
  assumes "\<forall>f \<in> set fs. valid_utf8 (fst f) \<and> decodable (snd f)" "\<forall>f \<in> set fs'. valid_utf8 (fst f) \<and> utf8_json (snd f)"
    and "concat (map (\<lambda>f. '','' @ json_field f) fs) @ CHR ''}'' # r = concat (map (\<lambda>f. '','' @ json_field f) fs') @ CHR ''}'' # r'"
  shows "fs = fs' \<and> r = r'"
  using assms
proof (induction fs arbitrary: fs')
  case Nil
  then show ?case by (cases fs') simp_all
next
  case (Cons f fs)
  then obtain f' gs where fs': "fs' = f' # gs" by (cases fs') simp_all
  let ?t = "\<lambda>gs r. concat (map (\<lambda>f. '','' @ json_field f) gs) @ CHR ''}'' # r"
  have "json_field f @ ?t fs r = json_field f' @ ?t gs r'" using Cons.prems(3) by (simp add: fs')
  then have e: "f = f' \<and> ?t fs r = ?t gs r'"
    using Cons.prems(1,2) fs' by (intro json_field_prefix undigit_fields) simp_all
  have "fs = gs \<and> r = r'" using Cons.prems(1,2) e fs' by (intro Cons.IH) simp_all
  then show ?case using e fs' by simp
qed

lemma render_object: "render (JObject fs) = ''{'' @ commas (map json_field fs) @ ''}''"
  by (simp add: json_field_def [abs_def])

lemma object_prefix:
  assumes "\<forall>f \<in> set fs. valid_utf8 (fst f) \<and> decodable (snd f)" "\<forall>f \<in> set fs'. valid_utf8 (fst f) \<and> utf8_json (snd f)"
    and "render (JObject fs) @ r = render (JObject fs') @ r'"
  shows "fs = fs' \<and> r = r'"
proof (cases fs)
  case Nil
  then show ?thesis using assms(3)
    by (cases fs') (auto simp: render_object commas_Cons json_field_def json_string_def quote_def split: prod.splits)
next
  case (Cons f gs)
  have e: "commas (map json_field fs) @ CHR ''}'' # r = commas (map json_field fs') @ CHR ''}'' # r'"
    using assms(3) by (simp only: render_object) simp
  then obtain f' gs' where fs': "fs' = f' # gs'"
    using Cons by (cases fs') (auto simp: commas_Cons json_field_def json_string_def quote_def split: prod.splits)
  let ?t = "\<lambda>gs r. concat (map (\<lambda>f. '','' @ json_field f) gs) @ CHR ''}'' # r"
  have "json_field f @ ?t gs r = json_field f' @ ?t gs' r'"
    using e Cons fs' by (simp add: commas_Cons comp_def)
  then have e': "f = f' \<and> ?t gs r = ?t gs' r'"
    using assms(1,2) Cons fs' by (intro json_field_prefix undigit_fields) simp_all
  then have "gs = gs' \<and> r = r'" using assms(1,2) Cons fs' by (intro more_fields_prefix) simp_all
  then show ?thesis using e' Cons fs' by simp
qed

lemma render_head:
  "hd (render j) = (case j of JNumber n \<Rightarrow> hd (format_uint n) | JString _ \<Rightarrow> quote | JObject _ \<Rightarrow> CHR ''{'') \<and> render j \<noteq> []"
  by (cases j) (simp_all add: json_string_def)

lemma render_same_head: "render j @ r = render j' @ r' \<Longrightarrow> hd (render j) = hd (render j')"
  using render_head [of j] render_head [of j'] by (metis hd_append2)

lemma format_uint_head: "hd (format_uint n) \<noteq> quote \<and> hd (format_uint n) \<noteq> CHR ''{''"
proof -
  have "digit_val (hd (format_uint n)) \<noteq> None"
    using format_uint_digits [of n] format_uint_nonempty [of n] by (simp add: list_all_iff)
  then show ?thesis by (auto simp: digit_val_def quote_def char_val_def)
qed

text \<open>Encoding is injective, also in front of other text, for values whose strings are UTF-8.\<close>

lemma utf8_decodable: "utf8_json j \<Longrightarrow> decodable j"
proof (induction j)
  case (JObject fs)
  have fs: "\<forall>f \<in> set fs. valid_utf8 (fst f) \<and> decodable (snd f)"
  proof
    fix f
    assume f: "f \<in> set fs"
    then have "valid_utf8 (fst f) \<and> utf8_json (snd f)" using JObject.prems by (auto simp: list_all_iff)
    then show "valid_utf8 (fst f) \<and> decodable (snd f)" using JObject.IH [OF f, of "snd f"] by (cases f) simp
  qed
  show ?case unfolding decodable_def
  proof (intro allI impI)
    fix j' r r'
    assume h: "utf8_json j'" "render (JObject fs) @ r = render j' @ r'"
    then have "hd (render j') = CHR ''{''" using render_same_head [OF h(2)] by simp
    then obtain fs' where j': "j' = JObject fs'"
      using render_head [of j'] format_uint_head by (cases j') (auto simp: quote_def)
    have "\<forall>f \<in> set fs'. valid_utf8 (fst f) \<and> utf8_json (snd f)" using h(1) j' by (auto simp: list_all_iff)
    then show "JObject fs = j' \<and> r = r'" using object_prefix [OF fs] h(2) j' by simp
  qed
next
  case (JNumber n)
  show ?case unfolding decodable_def
  proof (intro allI impI)
    fix j' r r'
    assume h: "render (JNumber n) @ r = render j' @ r'" "undigit r" "undigit r'"
    then have "hd (render j') = hd (format_uint n)" using render_same_head [OF h(1)] by simp
    then obtain m where "j' = JNumber m" using render_head [of j'] format_uint_head [of n] by (cases j') auto
    then show "JNumber n = j' \<and> r = r'" using h format_uint_prefix [of n r m r'] by simp
  qed
next
  case (JString s)
  show ?case unfolding decodable_def
  proof (intro allI impI)
    fix j' r r'
    assume h: "utf8_json j'" "render (JString s) @ r = render j' @ r'"
    then have "hd (render j') = quote" using render_same_head [OF h(2)] by (simp add: json_string_def)
    then obtain s' where "j' = JString s'" using render_head [of j'] format_uint_head by (cases j') (auto simp: quote_def)
    then show "JString s = j' \<and> r = r'" using h JString json_string_prefix [of s s' r r'] by simp
  qed
qed

lemma render_inject: "utf8_json j \<Longrightarrow> utf8_json j' \<Longrightarrow> render j = render j' \<Longrightarrow> j = j'"
  using decodableD [OF utf8_decodable, of j j' "[]" "[]"] by simp

lemma length_bytes_of [simp]: "length (bytes_of k n) = k"
  by (simp add: bytes_of_def)

lemma length_sha_primes: "length sha_primes = 64"
  by code_simp

lemma root_digits_floor:
  fixes r n :: int
  assumes "r ^ k \<le> n" and "n < (r + 2 ^ b) ^ k"
  shows "root_digits k b n r ^ k \<le> n \<and> n < (root_digits k b n r + 1) ^ k"
  using assms
proof (induction b arbitrary: r)
  case (Suc b)
  show ?case
  proof (cases "(r + 2 ^ b) ^ k \<le> n")
    case True
    have "r + 2 ^ b + 2 ^ b = r + 2 ^ Suc b" by simp
    then have "n < (r + 2 ^ b + 2 ^ b) ^ k" using Suc.prems(2) by metis
    then show ?thesis using Suc.IH [OF True] True by simp
  next
    case False
    then show ?thesis using Suc.IH [OF Suc.prems(1)] by simp
  qed
qed simp

lemma length_Sum256: "length (Sum256 m) = 32"
  by (simp add: Sum256_def Let_def)

lemma length_EncodeToString: "length (EncodeToString s) = 2 * length s"
  by (induction s) (simp_all add: EncodeToString_def)

lemma EncodeToString_inject: "EncodeToString s = EncodeToString t \<Longrightarrow> s = t"
proof (induction s arbitrary: t)
  case Nil
  then show ?case by (cases t) (simp_all add: EncodeToString_def)
next
  case (Cons c s)
  then obtain d u where t: "t = d # u" by (cases t) (simp_all add: EncodeToString_def)
  have lt: "char_val x div 16 < 16" "char_val x mod 16 < 16" for x using char_val_less [of x] by linarith+
  have "hex_digit (char_val c div 16) = hex_digit (char_val d div 16)" "hex_digit (char_val c mod 16) = hex_digit (char_val d mod 16)"
    using Cons.prems t by (simp_all add: EncodeToString_def)
  then have "c = d" using hex_digit_inject [OF lt(1) lt(1)] hex_digit_inject [OF lt(2) lt(2)] hex_split by metis
  moreover have "s = u" using Cons.prems t by (intro Cons.IH) (simp add: EncodeToString_def)
  ultimately show ?case using t by simp
qed

end
