(* ===== verification/AuditLog.thy ===== *)
theory AuditLog
  imports GoJson
begin

text \<open>
  The hash-chained audit log (\<^verbatim>\<open>internal/audit\<close>) and its verification by the command line
  (\<^verbatim>\<open>cmd/swarmctl/audit.go\<close>). A Go map of details is a list of its entries; the clock and the answer of
  the backing store are arguments. The store keeps whole entries: lines torn by a crash are not modelled.
\<close>

subsection \<open>Entries\<close>

record audit_actor =
  actor_type :: string
  actor_identity :: string
  actor_source_ip :: string

record audit_resource =
  res_kind :: string
  res_namespace :: string
  res_name :: string

record audit_entry =
  au_seq :: "64 word"
  au_event_type :: string
  au_event_time :: string
  au_namespace :: string
  au_actor :: audit_actor
  au_resource :: audit_resource
  au_action :: string
  au_outcome :: string
  au_detail :: "(string \<times> string) list"
  au_version :: string
  au_log_version :: string
  au_chain_hash :: string

definition genesisHash :: string where
  "genesisHash = ''sha256:'' @ replicate 64 CHR ''0''"

definition logVersion :: string where "logVersion = ''1''"

definition actor_json :: "audit_actor \<Rightarrow> json" where
  "actor_json a = JObject ([(''type'', JString (actor_type a)), (''identity'', JString (actor_identity a))]
     @ (if actor_source_ip a = [] then [] else [(''source_ip'', JString (actor_source_ip a))]))"

definition resource_json :: "audit_resource \<Rightarrow> json" where
  "resource_json r = JObject [(''kind'', JString (res_kind r)), (''namespace'', JString (res_namespace r)), (''name'', JString (res_name r))]"

definition entry_json :: "audit_entry \<Rightarrow> json" where
  "entry_json e = JObject
     ([(''sequence_number'', JNumber (unat (au_seq e))), (''event_type'', JString (au_event_type e)), (''event_time'', JString (au_event_time e)),
       (''namespace'', JString (au_namespace e)), (''actor'', actor_json (au_actor e)), (''resource'', resource_json (au_resource e)),
       (''action'', JString (au_action e)), (''outcome'', JString (au_outcome e))]
      @ (if au_detail e = [] then [] else [(''detail'', JObject (map (\<lambda>(k, v). (k, JString v)) (sort_key fst (au_detail e))))])
      @ [(''swarmada_version'', JString (au_version e)), (''log_version'', JString (au_log_version e)), (''chain_hash'', JString (au_chain_hash e))])"

definition computeChainHash :: "string \<Rightarrow> audit_entry \<Rightarrow> string" where
  "computeChainHash prev e = ''sha256:'' @ EncodeToString (Sum256 (prev @ render (entry_json (e\<lparr>au_chain_hash := []\<rparr>))))"

subsection \<open>The log and its store\<close>

record audit_log =
  al_state :: "string \<rightharpoonup> 64 word \<times> string"
  al_version :: string
  al_file :: "audit_entry list"

definition New_log :: "string \<Rightarrow> audit_entry list \<Rightarrow> audit_log" where
  "New_log version file = \<lparr>al_state = Map.empty, al_version = (if version = [] then ''v0.1.0'' else version), al_file = file\<rparr>"

text \<open>
  The store took the entry and made it durable, took it and failed to make it durable, or did not take
  it.
\<close>

datatype append_answer = Appended | Unsynced | NotWritten

definition FileSink_Append :: "append_answer \<Rightarrow> audit_entry \<Rightarrow> audit_entry list \<Rightarrow> bool \<times> audit_entry list" where
  "FileSink_Append ans e file = (case ans of
     Appended \<Rightarrow> (True, file @ [e]) | Unsynced \<Rightarrow> (False, file @ [e]) | NotWritten \<Rightarrow> (False, file))"

definition Tail :: "audit_entry list \<Rightarrow> string \<rightharpoonup> audit_entry" where
  "Tail file = fold (\<lambda>e out. case out (au_namespace e) of
     Some cur \<Rightarrow> if au_seq cur < au_seq e then out(au_namespace e \<mapsto> e) else out
   | None \<Rightarrow> out(au_namespace e \<mapsto> e)) file Map.empty"

datatype resume_failure = ErrSinkNotResumable | TailUnread

definition Resume :: "bool \<Rightarrow> bool \<Rightarrow> audit_log \<Rightarrow> resume_failure option \<times> audit_log" where
  "Resume resumable readable l =
     (if \<not> resumable then (Some ErrSinkNotResumable, l)
      else if \<not> readable then (Some TailUnread, l)
      else (None, l\<lparr>al_state := al_state l ++ (\<lambda>ns. map_option (\<lambda>e. (au_seq e, au_chain_hash e)) (Tail (al_file l) ns))\<rparr>))"

definition chain_state :: "audit_log \<Rightarrow> string \<Rightarrow> 64 word \<times> string" where
  "chain_state l ns = (case al_state l ns of Some st \<Rightarrow> st | None \<Rightarrow> (0, genesisHash))"

definition seal :: "audit_log \<Rightarrow> string \<Rightarrow> audit_entry \<Rightarrow> audit_entry" where
  "seal l now e =
     (let (seq, prev) = chain_state l (au_namespace e);
          e1 = e\<lparr>au_seq := seq + 1, au_event_time := (if au_event_time e = [] then now else au_event_time e),
                 au_log_version := logVersion, au_version := al_version l\<rparr>
      in e1\<lparr>au_chain_hash := computeChainHash prev e1\<rparr>)"

definition Log_Record :: "append_answer \<Rightarrow> string \<Rightarrow> audit_entry \<Rightarrow> audit_log \<Rightarrow> audit_entry option \<times> audit_log" where
  "Log_Record ans now e l =
     (let e1 = seal l now e; (ok, file) = FileSink_Append ans e1 (al_file l)
      in if ok then (Some e1, l\<lparr>al_state := (al_state l)(au_namespace e \<mapsto> (au_seq e1, au_chain_hash e1)), al_file := file\<rparr>)
         else (None, l\<lparr>al_state := (al_state l)(au_namespace e \<mapsto> chain_state l (au_namespace e)), al_file := file\<rparr>))"

definition ForNamespace :: "string \<Rightarrow> audit_entry list \<Rightarrow> audit_entry list" where
  "ForNamespace ns es = filter (\<lambda>e. au_namespace e = ns) es"

subsection \<open>Verification\<close>

record verify_result =
  vr_ok :: bool
  vr_entries :: nat
  vr_gaps :: nat
  vr_mismatches :: nat
  vr_genesis_ok :: bool

fun verify_from :: "string \<Rightarrow> 64 word \<Rightarrow> audit_entry list \<Rightarrow> verify_result \<Rightarrow> verify_result" where
  "verify_from prev expected [] res = res"
| "verify_from prev expected (e # es) res =
     (let want = expected + 1;
          res1 = (if au_seq e \<noteq> want then res\<lparr>vr_gaps := vr_gaps res + 1, vr_ok := False\<rparr> else res);
          res2 = (if computeChainHash prev e \<noteq> au_chain_hash e then res1\<lparr>vr_mismatches := vr_mismatches res1 + 1, vr_ok := False\<rparr> else res1)
      in verify_from (au_chain_hash e) (au_seq e) es res2)"

definition Verify :: "audit_entry list \<Rightarrow> verify_result" where
  "Verify es =
     (let res = verify_from genesisHash 0 es \<lparr>vr_ok = True, vr_entries = length es, vr_gaps = 0, vr_mismatches = 0, vr_genesis_ok = True\<rparr>
      in if es \<noteq> [] \<and> take 7 (au_chain_hash (hd es)) \<noteq> ''sha256:'' then res\<lparr>vr_genesis_ok := False, vr_ok := False\<rparr> else res)"

definition verifyAuditChain :: "audit_entry list \<Rightarrow> bool \<times> (string \<times> verify_result) list" where
  "verifyAuditChain es =
     (let order = sort (remdups (map au_namespace es));
          verdicts = map (\<lambda>ns. (ns, Verify (sort_key au_seq (ForNamespace ns es)))) order
      in (list_all (\<lambda>(_, res). vr_ok res) verdicts, verdicts))"

text \<open>What a verified list of entries is: a chain from the genesis hash whose numbers count up from one.\<close>

fun chain_from :: "string \<Rightarrow> 64 word \<Rightarrow> audit_entry list \<Rightarrow> bool" where
  "chain_from prev n [] = True"
| "chain_from prev n (e # es) =
     (au_seq e = n + 1 \<and> au_chain_hash e = computeChainHash prev e \<and> chain_from (au_chain_hash e) (n + 1) es)"

definition last_hash :: "string \<Rightarrow> audit_entry list \<Rightarrow> string" where
  "last_hash prev es = (if es = [] then prev else au_chain_hash (last es))"

text \<open>The bytes that entry \<open>i\<close> of a list of entries is sealed over.\<close>

definition sealed :: "audit_entry list \<Rightarrow> nat \<Rightarrow> string" where
  "sealed es i = last_hash genesisHash (take i es) @ render (entry_json ((es ! i)\<lparr>au_chain_hash := []\<rparr>))"

text \<open>The entries whose strings are UTF-8 and whose details are listed by key, each key once.\<close>

definition audit_text :: "audit_entry \<Rightarrow> bool" where
  "audit_text e \<longleftrightarrow> utf8_json (entry_json e) \<and> sorted_wrt (<) (map fst (au_detail e))"

text \<open>The life of a log: entries recorded, also when the store refuses them, and restarts that resume the chain.\<close>

inductive audit_reach :: "audit_log \<Rightarrow> bool" where
  audit_start: "audit_reach (New_log version [])"
| audit_record: "audit_reach l \<Longrightarrow> ans \<noteq> Unsynced \<Longrightarrow> Log_Record ans now e l = (r, l') \<Longrightarrow> audit_reach l'"
| audit_restart: "audit_reach l \<Longrightarrow> Resume True True (New_log version (al_file l)) = (None, l') \<Longrightarrow> audit_reach l'"

definition sample_entry :: audit_entry where
  "sample_entry = \<lparr>au_seq = 0, au_event_type = ''ESTOP_TRIGGERED'', au_event_time = ''t'', au_namespace = ''n'',
     au_actor = \<lparr>actor_type = ''user'', actor_identity = ''op'', actor_source_ip = []\<rparr>,
     au_resource = \<lparr>res_kind = ''Robot'', res_namespace = ''n'', res_name = ''r''\<rparr>, au_action = ''estop'', au_outcome = ''Allowed'',
     au_detail = [(''reason'', ''test'')], au_version = [], au_log_version = [], au_chain_hash = []\<rparr>"

definition sample_log :: audit_log where
  "sample_log = snd (Log_Record Appended ''t'' sample_entry (New_log [] []))"

text \<open>What the log remembers of each namespace is where its chain in the file ends.\<close>

definition log_inv :: "audit_log \<Rightarrow> bool" where
  "log_inv l \<longleftrightarrow> (\<forall>ns. chain_from genesisHash 0 (ForNamespace ns (al_file l))
     \<and> chain_state l ns = (of_nat (length (ForNamespace ns (al_file l))), last_hash genesisHash (ForNamespace ns (al_file l))))"

definition collide :: "audit_entry list \<Rightarrow> audit_entry list \<Rightarrow> bool" where
  "collide es es' \<longleftrightarrow> (\<exists>i < length es. \<exists>j < length es'. sealed es i \<noteq> sealed es' j \<and> Sum256 (sealed es i) = Sum256 (sealed es' j))"

subsection \<open>Lemmas\<close>

lemma verify_from_ok: "vr_ok (verify_from prev n es res) \<longleftrightarrow> vr_ok res \<and> chain_from prev n es"
  by (induction es arbitrary: prev n res) (auto simp: Let_def)

lemma computeChainHash_prefix: "take 7 (computeChainHash prev e) = ''sha256:''"
  by (simp add: computeChainHash_def)

lemma Verify_ok_iff: "vr_ok (Verify es) \<longleftrightarrow> chain_from genesisHash 0 es"
proof -
  have "take 7 (au_chain_hash (hd es)) = ''sha256:''" if "chain_from genesisHash 0 es" "es \<noteq> []"
    using that computeChainHash_prefix by (cases es) simp_all
  then show ?thesis by (auto simp: Verify_def Let_def verify_from_ok)
qed

lemma chain_from_append:
  "chain_from prev n (us @ ws) \<longleftrightarrow> chain_from prev n us \<and> chain_from (last_hash prev us) (n + of_nat (length us)) ws"
  by (induction us arbitrary: prev n) (auto simp: last_hash_def add.commute add.left_commute add.assoc)

lemma chain_from_seq: "chain_from prev n es \<Longrightarrow> i < length es \<Longrightarrow> au_seq (es ! i) = n + of_nat (Suc i)"
proof (induction es arbitrary: prev n i)
  case (Cons e es)
  then show ?case by (cases i) (auto simp: add.assoc)
qed simp

lemma unat_seq:
  assumes "chain_from genesisHash 0 es" "length es < 2 ^ 64" "i < length es"
  shows "unat (au_seq (es ! i)) = Suc i"
  using chain_from_seq [OF assms(1,3)] assms(2,3) by (simp add: unat_of_nat del: of_nat_Suc)

lemma chain_sorted:
  assumes "chain_from genesisHash 0 es" "length es < 2 ^ 64"
  shows "sorted_wrt (<) (map au_seq es)"
  unfolding sorted_wrt_iff_nth_less
  using unat_seq [OF assms] by (auto simp: word_less_nat_alt)

lemma chain_entry_max:
  assumes "chain_from genesisHash 0 (us @ [e])" "length (us @ [e]) < 2 ^ 64" "x \<in> set us"
  shows "au_seq x < au_seq e"
  using chain_sorted [OF assms(1,2)] assms(3) by (auto simp: sorted_wrt_append)

lemma ForNamespace_append: "ForNamespace ns (us @ ws) = ForNamespace ns us @ ForNamespace ns ws"
  by (simp add: ForNamespace_def)

lemma Tail_snoc: "Tail (es @ [e]) = (case Tail es (au_namespace e) of
     Some cur \<Rightarrow> if au_seq cur < au_seq e then (Tail es)(au_namespace e \<mapsto> e) else Tail es
   | None \<Rightarrow> (Tail es)(au_namespace e \<mapsto> e))"
  by (simp add: Tail_def split: option.split)

text \<open>The tail of a file whose namespaces are chains is the last entry of each.\<close>

lemma Tail_last:
  assumes "\<forall>ns. chain_from genesisHash 0 (ForNamespace ns es)" "length es < 2 ^ 64"
  shows "Tail es ns = (if ForNamespace ns es = [] then None else Some (last (ForNamespace ns es)))"
  using assms
proof (induction es arbitrary: ns rule: rev_induct)
  case Nil
  show ?case by (simp add: Tail_def ForNamespace_def)
next
  case (snoc e es)
  have c: "chain_from genesisHash 0 (ForNamespace k es)" for k
    using snoc.prems(1) by (simp add: ForNamespace_append chain_from_append)
  have IH: "Tail es k = (if ForNamespace k es = [] then None else Some (last (ForNamespace k es)))" for k
    using snoc.IH c snoc.prems(2) by simp
  let ?us = "ForNamespace (au_namespace e) es"
  have f: "ForNamespace k [e] = (if k = au_namespace e then [e] else [])" for k by (simp add: ForNamespace_def)
  have "au_seq (last ?us) < au_seq e" if "?us \<noteq> []"
  proof (rule chain_entry_max)
    show "chain_from genesisHash 0 (?us @ [e])" using snoc.prems(1) f by (metis ForNamespace_append)
    show "length (?us @ [e]) < 2 ^ 64" using snoc.prems(2) length_filter_le [of _ es] by (simp add: ForNamespace_def)
         (meson le_less_trans length_filter_le not_less_eq)
  qed (simp add: that)
  then show ?case by (auto simp: Tail_snoc IH ForNamespace_append f)
qed

lemma log_invD:
  assumes "log_inv l"
  shows "chain_from genesisHash 0 (ForNamespace ns (al_file l))"
    and "chain_state l ns = (of_nat (length (ForNamespace ns (al_file l))), last_hash genesisHash (ForNamespace ns (al_file l)))"
  using assms unfolding log_inv_def by blast+

lemma computeChainHash_content: "computeChainHash prev (e\<lparr>au_chain_hash := h\<rparr>) = computeChainHash prev e"
  by (simp add: computeChainHash_def)

lemma seal_chains:
  assumes "chain_state l (au_namespace e) = (n, prev)"
  shows "chain_from prev n [seal l now e]" "au_seq (seal l now e) = n + 1" "au_namespace (seal l now e) = au_namespace e"
  using assms by (simp_all add: seal_def Let_def computeChainHash_content)

lemma log_inv_record:
  assumes "log_inv l" "ans \<noteq> Unsynced" "Log_Record ans now e l = (r, l')"
  shows "log_inv l'"
proof (cases ans)
  case Appended
  let ?e = "seal l now e" and ?us = "ForNamespace (au_namespace e) (al_file l)"
  have l': "al_file l' = al_file l @ [?e]" "al_state l' = (al_state l)(au_namespace e \<mapsto> (au_seq ?e, au_chain_hash ?e))"
    using assms(3) Appended by (auto simp: Log_Record_def FileSink_Append_def Let_def)
  note s = seal_chains [where e = e and now = now, OF log_invD(2) [OF assms(1)]]
  have f: "ForNamespace ns [?e] = (if ns = au_namespace e then [?e] else [])" for ns
    using s(3) by (simp add: ForNamespace_def)
  have "chain_from genesisHash 0 (?us @ [?e])" using log_invD(1) [OF assms(1)] s(1) by (simp add: chain_from_append)
  then show ?thesis
    using log_invD [OF assms(1)] s(2) unfolding log_inv_def
    by (auto simp: l' f ForNamespace_append chain_state_def last_hash_def)
next
  case NotWritten
  then have "al_file l' = al_file l" "chain_state l' = chain_state l"
    using assms(3) by (auto simp: Log_Record_def FileSink_Append_def Let_def chain_state_def)
  then show ?thesis using assms(1) by (simp add: log_inv_def)
qed (use assms in simp)

lemma log_inv_restart:
  assumes "log_inv l" "length (al_file l) < 2 ^ 64" "Resume True True (New_log version (al_file l)) = (None, l')"
  shows "log_inv l'"
proof -
  have l': "al_file l' = al_file l" "al_state l' = (\<lambda>ns. map_option (\<lambda>e. (au_seq e, au_chain_hash e)) (Tail (al_file l) ns))"
    using assms(3) by (auto simp: Resume_def New_log_def)
  have c: "\<forall>ns. chain_from genesisHash 0 (ForNamespace ns (al_file l))" using log_invD(1) [OF assms(1)] by blast
  have "au_seq (last (ForNamespace ns (al_file l))) = of_nat (length (ForNamespace ns (al_file l)))"
    if "ForNamespace ns (al_file l) \<noteq> []" for ns
    using chain_from_seq [OF c [rule_format], of "length (ForNamespace ns (al_file l)) - 1" ns] that
    by (simp add: last_conv_nth del: of_nat_Suc)
  then show ?thesis
    using c Tail_last [OF c assms(2)] by (auto simp: log_inv_def l' chain_state_def last_hash_def)
qed

lemma audit_file_grows: "Log_Record ans now e l = (r, l') \<Longrightarrow> length (al_file l) \<le> length (al_file l')"
  by (cases ans) (auto simp: Log_Record_def FileSink_Append_def Let_def)

lemma log_inv_reach: "audit_reach l \<Longrightarrow> length (al_file l) < 2 ^ 64 \<Longrightarrow> log_inv l"
proof (induction rule: audit_reach.induct)
  case (audit_start version)
  show ?case by (simp add: log_inv_def New_log_def chain_state_def ForNamespace_def last_hash_def)
next
  case (audit_record l ans now e r l')
  then show ?case using log_inv_record audit_file_grows [OF audit_record(3)] by (meson le_less_trans)
next
  case (audit_restart l version l')
  then have "al_file l' = al_file l" by (auto simp: Resume_def New_log_def)
  then show ?case using audit_restart log_inv_restart by simp
qed

lemma chain_sort: "chain_from genesisHash 0 es \<Longrightarrow> length es < 2 ^ 64 \<Longrightarrow> mset es' = mset es \<Longrightarrow> sort_key au_seq es' = es"
proof -
  assume c: "chain_from genesisHash 0 es" "length es < 2 ^ 64" "mset es' = mset es"
  have s: "sorted (map au_seq es)" "distinct (map au_seq es)"
    using chain_sorted [OF c(1,2)] by (simp_all add: strict_sorted_iff)
  have "inj_on au_seq (set es')" using s(2) c(3) by (metis distinct_map set_mset_mset)
  then show ?thesis using c(3) s(1) by (intro sort_key_inj_key_eq)
qed

text \<open>The content an entry is sealed over determines the entry.\<close>

lemma actor_json_inject: "actor_json a = actor_json b \<Longrightarrow> a = b"
  by (cases a; cases b) (auto simp: actor_json_def split: if_splits)

lemma resource_json_inject: "resource_json a = resource_json b \<Longrightarrow> a = b"
  by (cases a; cases b) (simp add: resource_json_def)

lemma details_inject:
  fixes xs ys :: "(string \<times> string) list"
  assumes "map (\<lambda>(k, v). (k, JString v)) xs = map (\<lambda>(k, v). (k, JString v)) ys"
  shows "xs = ys"
proof -
  have "inj (\<lambda>(k :: string, v). (k, JString v))" by (auto intro!: injI)
  then show ?thesis using assms by (simp add: inj_map_eq_map)
qed

lemma details_sorted: "sorted_wrt (<) (map fst d) \<Longrightarrow> sort_key fst d = d"
  by (intro sort_key_inj_key_eq) (auto simp: strict_sorted_iff distinct_map)

lemma entry_json_inject:
  assumes "entry_json e = entry_json e'" "sorted_wrt (<) (map fst (au_detail e))" "sorted_wrt (<) (map fst (au_detail e'))"
  shows "e = e'"
proof -
  have "unat (au_seq e) = unat (au_seq e')" "au_event_type e = au_event_type e'" "au_event_time e = au_event_time e'"
    "au_namespace e = au_namespace e'" "actor_json (au_actor e) = actor_json (au_actor e')"
    "resource_json (au_resource e) = resource_json (au_resource e')" "au_action e = au_action e'" "au_outcome e = au_outcome e'"
    using assms(1) by (simp_all add: entry_json_def)
  moreover have d: "(if au_detail e = [] then [] else [(''detail'', JObject (map (\<lambda>(k, v). (k, JString v)) (sort_key fst (au_detail e))))])
      = (if au_detail e' = [] then [] else [(''detail'', JObject (map (\<lambda>(k, v). (k, JString v)) (sort_key fst (au_detail e'))))])"
    "au_version e = au_version e'" "au_log_version e = au_log_version e'" "au_chain_hash e = au_chain_hash e'"
    using assms(1) by (simp_all add: entry_json_def)
  moreover have "au_detail e = au_detail e'"
    using d(1) details_inject details_sorted [OF assms(2)] details_sorted [OF assms(3)] by (auto split: if_splits)
  ultimately show ?thesis
    using actor_json_inject resource_json_inject by (intro audit_entry.equality) (simp_all add: word_unat_eq_iff)
qed

lemma audit_text_content: "audit_text e \<Longrightarrow> utf8_json (entry_json (e\<lparr>au_chain_hash := []\<rparr>))"
  by (simp add: audit_text_def entry_json_def split: if_splits)

lemma sealed_content_inject:
  assumes "audit_text e" "audit_text e'" "au_chain_hash e = au_chain_hash e'"
    and "render (entry_json (e\<lparr>au_chain_hash := []\<rparr>)) = render (entry_json (e'\<lparr>au_chain_hash := []\<rparr>))"
  shows "e = e'"
proof -
  have "entry_json (e\<lparr>au_chain_hash := []\<rparr>) = entry_json (e'\<lparr>au_chain_hash := []\<rparr>)"
    using render_inject [OF audit_text_content audit_text_content] assms by blast
  then have "e\<lparr>au_chain_hash := []\<rparr> = e'\<lparr>au_chain_hash := []\<rparr>"
    using assms(1,2) by (intro entry_json_inject) (simp_all add: audit_text_def)
  then show ?thesis using assms(3) by (cases e; cases e') simp
qed

lemma length_computeChainHash: "length (computeChainHash prev e) = 71"
  by (simp add: computeChainHash_def length_EncodeToString length_Sum256)

lemma chain_last_hash: "chain_from genesisHash 0 es \<Longrightarrow> length (last_hash genesisHash es) = 71"
proof (cases es rule: rev_cases)
  case Nil
  then show ?thesis by (simp add: last_hash_def genesisHash_def)
next
  case (snoc us e)
  assume "chain_from genesisHash 0 es"
  then have "au_chain_hash e = computeChainHash (last_hash genesisHash us) e" using snoc by (simp add: chain_from_append)
  then show ?thesis using snoc by (simp add: last_hash_def length_computeChainHash)
qed

lemma sealed_snoc: "sealed (us @ [e]) (length us) = last_hash genesisHash us @ render (entry_json (e\<lparr>au_chain_hash := []\<rparr>))"
  by (simp add: sealed_def)

lemma sealed_prefix: "i < length us \<Longrightarrow> sealed (us @ ws) i = sealed us i"
  by (simp add: sealed_def nth_append)

text \<open>Two chains that end in the same hash have sealed the same bytes at their ends, or their hashes collide there.\<close>

lemma chain_snoc:
  assumes "chain_from genesisHash 0 (us @ [e])"
  shows "chain_from genesisHash 0 us" "au_chain_hash e = computeChainHash (last_hash genesisHash us) e"
    "au_seq e = of_nat (Suc (length us))"
  using assms unfolding chain_from_append by (simp_all add: add.commute)

lemma hash_of_sealed: "computeChainHash (last_hash genesisHash us) e = ''sha256:'' @ EncodeToString (Sum256 (sealed (us @ [e]) (length us)))"
  unfolding computeChainHash_def sealed_snoc ..

lemma same_sealed:
  assumes "chain_from genesisHash 0 us" "chain_from genesisHash 0 us'" "sealed (us @ [e]) (length us) = sealed (us' @ [e']) (length us')"
  shows "last_hash genesisHash us = last_hash genesisHash us'
    \<and> render (entry_json (e\<lparr>au_chain_hash := []\<rparr>)) = render (entry_json (e'\<lparr>au_chain_hash := []\<rparr>))"
proof -
  have "length (last_hash genesisHash us) = length (last_hash genesisHash us')"
    using chain_last_hash [OF assms(1)] chain_last_hash [OF assms(2)] by simp
  then show ?thesis using assms(3) by (simp add: sealed_snoc)
qed

lemma same_end:
  assumes "chain_from genesisHash 0 (us @ [e])" "chain_from genesisHash 0 (us' @ [e'])" "au_chain_hash e = au_chain_hash e'"
    and "audit_text e" "audit_text e'"
  shows "e = e' \<and> last_hash genesisHash us = last_hash genesisHash us'
    \<or> sealed (us @ [e]) (length us) \<noteq> sealed (us' @ [e']) (length us')
      \<and> Sum256 (sealed (us @ [e]) (length us)) = Sum256 (sealed (us' @ [e']) (length us'))"
proof -
  note c = chain_snoc [OF assms(1)] and c' = chain_snoc [OF assms(2)]
  let ?b = "sealed (us @ [e]) (length us)" and ?b' = "sealed (us' @ [e']) (length us')"
  have "''sha256:'' @ EncodeToString (Sum256 ?b) = ''sha256:'' @ EncodeToString (Sum256 ?b')"
    using c(2) c'(2) assms(3) hash_of_sealed [of us e] hash_of_sealed [of us' e'] by argo
  then have s: "Sum256 ?b = Sum256 ?b'" by (rule EncodeToString_inject [OF same_append_eq [THEN iffD1]])
  show ?thesis
  proof (cases "?b = ?b'")
    case True
    note r = same_sealed [OF c(1) c'(1) True]
    have "e = e'" by (rule sealed_content_inject [OF assms(4,5,3) conjunct2 [OF r]])
    then show ?thesis using conjunct1 [OF r] by (intro disjI1 conjI)
  next
    case False
    then show ?thesis using s by (intro disjI2 conjI)
  qed
qed

lemma collide_snoc: "collide us us' \<Longrightarrow> collide (us @ [e]) (us' @ [e'])"
proof -
  assume "collide us us'"
  then obtain i j where "i < length us" "j < length us'" "sealed us i \<noteq> sealed us' j" "Sum256 (sealed us i) = Sum256 (sealed us' j)"
    unfolding collide_def by blast
  then have "i < length (us @ [e])" "j < length (us' @ [e'])" "sealed (us @ [e]) i \<noteq> sealed (us' @ [e']) j"
    "Sum256 (sealed (us @ [e]) i) = Sum256 (sealed (us' @ [e']) j)" by (simp_all add: sealed_prefix)
  then show ?thesis unfolding collide_def by blast
qed

lemma same_hash_same_chain:
  assumes "chain_from genesisHash 0 es" "chain_from genesisHash 0 es'" "length es = length es'"
    and "last_hash genesisHash es = last_hash genesisHash es'" "\<forall>e \<in> set es \<union> set es'. audit_text e"
  shows "es = es' \<or> collide es es'"
  using assms
proof (induction es arbitrary: es' rule: rev_induct)
  case (snoc e us)
  then obtain us' e' where es': "es' = us' @ [e']" by (cases es' rule: rev_cases) simp_all
  have h: "au_chain_hash e = au_chain_hash e'" using snoc.prems(4) es' by (simp add: last_hash_def)
  consider "e = e'" "last_hash genesisHash us = last_hash genesisHash us'"
    | "sealed (us @ [e]) (length us) \<noteq> sealed (us' @ [e']) (length us')"
      "Sum256 (sealed (us @ [e]) (length us)) = Sum256 (sealed (us' @ [e']) (length us'))"
    using same_end [of us e us' e'] snoc.prems es' h by auto
  then show ?case
  proof cases
    case 1
    have "us = us' \<or> collide us us'"
      using snoc.prems es' 1 by (intro snoc.IH) (auto simp: chain_from_append)
    then show ?thesis using 1 es' collide_snoc by auto
  next
    case 2
    have "length us < length (us @ [e])" "length us' < length (us' @ [e'])" by simp_all
    then show ?thesis using 2 es' unfolding collide_def by blast
  qed
qed simp

lemma sample_reach: "audit_reach sample_log"
  unfolding sample_log_def using audit_record [OF audit_start, of Appended] by (metis append_answer.distinct(1) prod.collapse)

lemma sample_log_file: "al_file sample_log = [seal (New_log [] []) ''t'' sample_entry]"
  by (simp add: sample_log_def Log_Record_def FileSink_Append_def Let_def New_log_def)

lemma sample_namespace: "ForNamespace ''n'' (al_file sample_log) = al_file sample_log"
  by (simp add: sample_log_file ForNamespace_def seal_def Let_def chain_state_def New_log_def sample_entry_def)

lemma ascii_valid: "list_all (\<lambda>c. char_val c < 128) s \<Longrightarrow> valid_utf8 s"
  by (induction s) (simp_all add: valid_utf8.simps rune_len.simps)

lemma hash_ascii: "list_all (\<lambda>c. char_val c < 128) (computeChainHash prev e)"
proof -
  have "char_val (hex_digit n) < 128" if "n < 16" for n
    using that by (auto simp: hex_digit_def char_val_char_of)
  moreover have "char_val c div 16 < 16" "char_val c mod 16 < 16" for c using char_val_less [of c] by linarith+
  ultimately have "list_all (\<lambda>c. char_val c < 128) (EncodeToString t)" for t
    by (induction t) (simp_all add: EncodeToString_def)
  then show ?thesis by (simp add: computeChainHash_def char_val_def)
qed

lemma sample_text: "e \<in> set (al_file sample_log) \<Longrightarrow> audit_text e"
proof -
  have a: "valid_utf8 s" if "list_all (\<lambda>c. char_val c < 128) s" for s by (rule ascii_valid [OF that])
  assume "e \<in> set (al_file sample_log)"
  then have "e = seal (New_log [] []) ''t'' sample_entry" by (simp add: sample_log_file)
  then show ?thesis
    by (simp add: audit_text_def entry_json_def seal_def Let_def chain_state_def New_log_def sample_entry_def actor_json_def
        resource_json_def a ascii_valid [OF hash_ascii] logVersion_def char_val_def)
qed

subsection \<open>Properties of the audit log\<close>



text \<open>
  Claim C13. The chain is tamper evident. Two lists of entries that both verify and end in the same hash
  are the same list: nothing in one can have been changed, removed, added or moved. The only
  alternative is that two different byte strings sealed in them have the same SHA-256 digest.
\<close>

theorem same_last_hash_same_log:
  assumes "vr_ok (Verify es)" "vr_ok (Verify es')" "es \<noteq> []" "es' \<noteq> []"
    and "au_chain_hash (last es) = au_chain_hash (last es')" "\<forall>e \<in> set es \<union> set es'. audit_text e"
    and "length es < 2 ^ 64" "length es' < 2 ^ 64"
  shows "es = es' \<or> (\<exists>i < length es. \<exists>j < length es'. sealed es i \<noteq> sealed es' j \<and> Sum256 (sealed es i) = Sum256 (sealed es' j))"
proof -
  obtain us e us' e' where es: "es = us @ [e]" "es' = us' @ [e']" using assms(3,4) by (meson rev_exhaust)
  have c: "chain_from genesisHash 0 es" "chain_from genesisHash 0 es'" using assms(1,2) by (simp_all add: Verify_ok_iff)
  consider "e = e'" | "collide es es'"
    using same_end [of us e us' e'] c assms(5,6) es unfolding collide_def by auto
  then show ?thesis
  proof cases
    case 1
    have "of_nat (length es) = (of_nat (length es') :: 64 word)"
      using chain_snoc(3) [of us e] chain_snoc(3) [of us' e'] c es 1 by simp
    then have "unat (of_nat (length es) :: 64 word) = unat (of_nat (length es') :: 64 word)" by simp
    then have "length es = length es'" using assms(7,8) by (simp add: unat_of_nat)
    then show ?thesis
      using same_hash_same_chain [OF c] assms(3-6) unfolding collide_def by (simp add: last_hash_def)
  qed (simp add: collide_def)
qed

theorem same_last_hash_same_log_witness:
  "vr_ok (Verify (al_file sample_log)) \<and> list_all audit_text (al_file sample_log) \<and> length (al_file sample_log) = 1
    \<and> (al_file sample_log = al_file sample_log
       \<or> (\<exists>i < 1. \<exists>j < 1. sealed (al_file sample_log) i \<noteq> sealed (al_file sample_log) j
            \<and> Sum256 (sealed (al_file sample_log) i) = Sum256 (sealed (al_file sample_log) j)))"
proof -
  have len: "length (al_file sample_log) = 1" "al_file sample_log \<noteq> []" by (simp_all add: sample_log_file)
  have ok: "vr_ok (Verify (al_file sample_log))"
    using log_invD(1) [OF log_inv_reach [OF sample_reach], of "''n''"] len by (simp add: Verify_ok_iff sample_namespace)
  have utf8: "\<forall>e \<in> set (al_file sample_log) \<union> set (al_file sample_log). audit_text e" using sample_text by blast
  show ?thesis using same_last_hash_same_log [OF ok ok len(2) len(2) refl utf8] ok utf8 len(1) by (simp add: list_all_iff)
qed

text \<open>
  What the verification cannot see. A log whose newest entries were removed verifies; and a store that
  took an entry it then failed to make durable holds it twice numbered once the next entry is recorded.
\<close>

lemma truncated_log_verifies: "vr_ok (Verify es) \<Longrightarrow> vr_ok (Verify (take k es))"
  using chain_from_append [of genesisHash 0 "take k es" "drop k es"] by (simp add: Verify_ok_iff)

lemma failed_fsync_breaks_chain:
  assumes "Log_Record Unsynced now e l = (None, l1)" "Log_Record Appended now e' l1 = (Some s, l2)"
    and "al_file l = []" "al_state l = Map.empty" "au_namespace e' = au_namespace e"
  shows "\<not> vr_ok (Verify (ForNamespace (au_namespace e) (al_file l2)))"
proof -
  have n: "au_seq (seal l now e) = 1" "au_seq (seal l1 now e') = 1"
    "au_namespace (seal l now e) = au_namespace e" "au_namespace (seal l1 now e') = au_namespace e"
    using assms by (auto simp: Log_Record_def FileSink_Append_def Let_def seal_def chain_state_def)
  have f: "al_file l2 = [seal l now e, seal l1 now e']"
    using assms by (auto simp: Log_Record_def FileSink_Append_def Let_def)
  show ?thesis by (simp add: Verify_ok_iff f ForNamespace_def n)
qed

end
