(* ===== verification/Capability.thy ===== *)
theory Capability
  imports Api
begin

text \<open>
  The derivation of a robot's capabilities and health in the Robot controller
  (\<^verbatim>\<open>internal/controller/robot_controller.go\<close>: DeriveCapabilities, deriveHealth and what they
  call). The declared capabilities and the components of the spec are arguments; the rest is read
  from the robot. A parameter map is an association list, since the code enumerates it.
\<close>

subsection \<open>The declared capabilities\<close>

datatype capability_kind = KindHardwareNative | KindModelDriven | KindManual | KindOther string

record capability_parameter =
  cp_source_field :: string
  cp_value :: string

record class_capability =
  cc_name :: string
  cc_type :: capability_kind
  cc_pauseable :: bool
  cc_required_hardware :: "string list"
  cc_providing_model :: string
  cc_parameters :: "(string \<times> capability_parameter) list"
  cc_degraded_policy :: "bool option"

text \<open>Of a component of the spec, the attributes a parameter can be taken from.\<close>

record hardware_component =
  hc_name :: string
  hc_range_m :: "float64 option"
  hc_horizontal_fov_deg :: "float64 option"
  hc_resolution_mp :: "float64 option"
  hc_max_payload_kg :: "float64 option"
  hc_max_grip_force_n :: "float64 option"
  hc_frame_rate_fps :: "int option"
  hc_platform_length_mm :: "int option"
  hc_platform_width_mm :: "int option"
  hc_stroke_mm :: "int option"

text \<open>A Go map filled from a list: the last entry of a name is the one it holds.\<close>

definition last_named :: "('a \<Rightarrow> string) \<Rightarrow> 'a list \<Rightarrow> string \<rightharpoonup> 'a" where
  "last_named f xs = (\<lambda>n. find (\<lambda>x. f x = n) (rev xs))"

subsection \<open>The truth table\<close>

definition modelReason :: "model_status option \<Rightarrow> string" where
  "modelReason st = (case st of
     None \<Rightarrow> ''providing model not installed''
   | Some ModelUpdating \<Rightarrow> ''providing model rolling out''
   | Some ModelFailed \<Rightarrow> ''providing model failed health check''
   | Some _ \<Rightarrow> ''providing model not active'')"

text \<open>
  The loop over the required components: \<open>Inl\<close> is the reason for which the capability is Inactive,
  \<open>Inr\<close> whether a component is degraded.
\<close>

fun hardware_gate :: "(string \<rightharpoonup> hardware_status) \<Rightarrow> string list \<Rightarrow> bool \<Rightarrow> string + bool" where
  "hardware_gate hw [] degraded = Inr degraded"
| "hardware_gate hw (n # ns) degraded = (case hw n of
     None \<Rightarrow> Inl (''required hardware not reported: '' @ n)
   | Some HardwareDisabled \<Rightarrow> Inl (''disabled: '' @ n)
   | Some HardwareFailed \<Rightarrow> Inl (''required hardware failed: '' @ n)
   | Some HardwareDegraded \<Rightarrow> hardware_gate hw ns True
   | Some _ \<Rightarrow> hardware_gate hw ns degraded)"

definition evaluateCapability :: "class_capability \<Rightarrow> (string \<rightharpoonup> hardware_status) \<Rightarrow> (string \<rightharpoonup> model_status) \<Rightarrow> bool
    \<Rightarrow> capability_status \<times> bool \<times> string" where
  "evaluateCapability c hw models underMaintenance =
     (if underMaintenance \<and> cc_pauseable c then (CapPaused, True, ''suspended by zone maintenance'')
      else if cc_type c = KindManual then (CapActive, False, [])
      else case hardware_gate hw (cc_required_hardware c) False of
          Inl why \<Rightarrow> (CapInactive, False, why)
        | Inr degraded \<Rightarrow>
            if cc_type c = KindModelDriven \<and> models (cc_providing_model c) \<noteq> Some ModelActive
            then (CapInactive, False, modelReason (models (cc_providing_model c)))
            else if degraded then (CapDegraded, False, ''required hardware degraded'')
            else (CapActive, False, []))"

definition degradedSince :: "time \<Rightarrow> capability_status \<Rightarrow> capability_entry option \<Rightarrow> time option" where
  "degradedSince now status prev =
     (if status = CapActive then None
      else case Option.bind prev cap_degraded_since of Some t \<Rightarrow> Some t | None \<Rightarrow> Some now)"

subsection \<open>Parameters\<close>

definition hardwareSpecValue :: "hardware_component \<Rightarrow> string \<Rightarrow> float64 option" where
  "hardwareSpecValue c field =
     (if field = ''rangeM'' then hc_range_m c
      else if field = ''horizontalFovDeg'' then hc_horizontal_fov_deg c
      else if field = ''resolutionMp'' then hc_resolution_mp c
      else if field = ''maxPayloadKg'' then hc_max_payload_kg c
      else if field = ''maxGripForceN'' then hc_max_grip_force_n c
      else map_option (\<lambda>i. Fin (of_int i))
        (if field = ''frameRateFps'' then hc_frame_rate_fps c
         else if field = ''platformLengthMm'' then hc_platform_length_mm c
         else if field = ''platformWidthMm'' then hc_platform_width_mm c
         else if field = ''strokeMm'' then hc_stroke_mm c
         else None))"

text \<open>A bracketed class of a regular expression, as the list of its ranges.\<close>

definition in_class :: "(char \<times> char) list \<Rightarrow> char \<Rightarrow> bool" where
  "in_class ranges c = list_ex (\<lambda>(lo, hi). lo \<le> c \<and> c \<le> hi) ranges"

definition ascii_letter :: "char \<Rightarrow> bool" where
  "ascii_letter = in_class [(CHR ''A'', CHR ''Z''), (CHR ''a'', CHR ''z'')]"

definition ascii_digit :: "char \<Rightarrow> bool" where
  "ascii_digit = in_class [(CHR ''0'', CHR ''9'')]"

definition cut_prefix :: "string \<Rightarrow> string \<Rightarrow> string option" where
  "cut_prefix p s = (if take (length p) s = p then Some (drop (length p) s) else None)"

text \<open>
  The two groups that \<^verbatim>\<open>^hardware\[([^\]]+)\]\.spec\.([A-Za-z][A-Za-z0-9]*)$\<close> captures: the
  first group ends at the first closing bracket, since it cannot contain one.
\<close>

definition sourceFieldRe :: "string \<Rightarrow> (string \<times> string) option" where
  "sourceFieldRe path = Option.bind (cut_prefix ''hardware['' path) (\<lambda>rest.
     let name = takeWhile (\<lambda>c. c \<noteq> CHR '']'') rest
     in if name = [] then None
        else Option.bind (cut_prefix ''].spec.'' (drop (length name) rest)) (\<lambda>field.
          case field of
            [] \<Rightarrow> None
          | c # cs \<Rightarrow> if ascii_letter c \<and> list_all (\<lambda>d. ascii_letter d \<or> ascii_digit d) cs then Some (name, field)
                      else None))"

definition resolveSourceField :: "string \<Rightarrow> (string \<rightharpoonup> hardware_component) \<Rightarrow> float64 option" where
  "resolveSourceField path hardware = Option.bind (sourceFieldRe path) (\<lambda>(name, field).
     Option.bind (hardware name) (\<lambda>c. hardwareSpecValue c field))"

definition resolve_parameter :: "(string \<rightharpoonup> hardware_component) \<Rightarrow> capability_parameter \<Rightarrow> float64 option" where
  "resolve_parameter hardware p =
     (if cp_value p \<noteq> [] then parse_float (cp_value p)
      else if cp_source_field p \<noteq> [] then resolveSourceField (cp_source_field p) hardware
      else None)"

definition resolveParameters :: "class_capability \<Rightarrow> (string \<rightharpoonup> hardware_component) \<Rightarrow> string \<rightharpoonup> float64" where
  "resolveParameters c hardware =
     fold (\<lambda>(n, p) out. case resolve_parameter hardware p of Some v \<Rightarrow> out(n \<mapsto> v) | None \<Rightarrow> out) (cc_parameters c) Map.empty"

subsection \<open>The derivation\<close>

definition hwByName :: "robot \<Rightarrow> string \<rightharpoonup> hardware_status" where
  "hwByName r = map_option snd \<circ> last_named fst (r_hardware r)"

definition modelByName :: "robot \<Rightarrow> string \<rightharpoonup> model_status" where
  "modelByName r = map_option snd \<circ> last_named fst (r_model_status r)"

definition declared_entry :: "time \<Rightarrow> class_capability \<Rightarrow> hardware_component list \<Rightarrow> robot \<Rightarrow> capability_entry" where
  "declared_entry now c spec_hw r =
     (let (status, paused, reason) = evaluateCapability c (hwByName r) (modelByName r) (r_phase r = RobotMaintenance)
      in \<lparr>cap_name = cc_name c, cap_status = status, cap_paused = paused, cap_reason = reason,
           cap_params = resolveParameters c (last_named hc_name spec_hw),
           cap_degraded_schedulable = (cc_degraded_policy c = Some True),
           cap_degraded_since = degradedSince now status (last_named cap_name (r_capabilities r) (cc_name c))\<rparr>)"

definition granted_entry :: "string \<Rightarrow> capability_entry" where
  "granted_entry n = \<lparr>cap_name = n, cap_status = CapActive, cap_paused = False, cap_reason = [], cap_params = Map.empty,
     cap_degraded_schedulable = False, cap_degraded_since = None\<rparr>"

definition add_granted :: "string \<Rightarrow> (string \<times> capability_entry) list \<Rightarrow> (string \<times> capability_entry) list" where
  "add_granted n byName = (if map_of byName n = None then put n (granted_entry n) byName else byName)"

definition by_name :: "time \<Rightarrow> class_capability list \<Rightarrow> hardware_component list \<Rightarrow> robot \<Rightarrow> (string \<times> capability_entry) list" where
  "by_name now declared spec_hw r = fold add_granted (concat (map snd (r_model_grants r)))
     (fold (\<lambda>c. put (cc_name c) (declared_entry now c spec_hw r)) declared [])"

definition deriveCapabilities :: "time \<Rightarrow> class_capability list \<Rightarrow> hardware_component list \<Rightarrow> robot \<Rightarrow> capability_entry list" where
  "deriveCapabilities now declared spec_hw r =
     (let byName = by_name now declared spec_hw r in List.map_filter (map_of byName) (sort (keys byName)))"

datatype health_state = HealthStateHealthy | HealthStateDegraded | HealthStateCritical

definition join :: "string \<Rightarrow> string list \<Rightarrow> string" where
  "join sep xs = (case xs of [] \<Rightarrow> [] | y # ys \<Rightarrow> y @ concat (map (\<lambda>z. sep @ z) ys))"

definition deriveHealth :: "class_capability list \<Rightarrow> robot \<Rightarrow> health_state \<times> string" where
  "deriveHealth declared r =
     (let failed = sort (map fst (filter (\<lambda>h. snd h = HardwareFailed) (r_hardware r)));
          degraded = sort (map fst (filter (\<lambda>h. snd h = HardwareDegraded) (r_hardware r)));
          nonPauseable = set (map cc_name (filter (\<lambda>c. \<not> cc_pauseable c) declared));
          lost = sort (map cap_name (filter (\<lambda>c. cap_name c \<in> nonPauseable \<and> cap_status c \<noteq> CapActive) (r_capabilities r)))
      in if failed \<noteq> [] \<or> lost \<noteq> []
         then (HealthStateCritical, join ''; ''
           ((if failed \<noteq> [] then [''hardware failed: '' @ join '', '' failed] else [])
            @ (if lost \<noteq> [] then [''non-pauseable capability not Active: '' @ join '', '' lost] else [])))
         else if degraded \<noteq> [] then (HealthStateDegraded, ''hardware degraded: '' @ join '', '' degraded)
         else (HealthStateHealthy, []))"

subsection \<open>Vocabulary of the specification\<close>

text \<open>What the truth table asks of a capability that is not paused.\<close>

definition gate_open :: "class_capability \<Rightarrow> (string \<rightharpoonup> hardware_status) \<Rightarrow> (string \<rightharpoonup> model_status) \<Rightarrow> bool" where
  "gate_open c hw models \<longleftrightarrow> (\<forall>n \<in> set (cc_required_hardware c). hw n \<notin> {None, Some HardwareDisabled, Some HardwareFailed})
     \<and> (cc_type c = KindModelDriven \<longrightarrow> models (cc_providing_model c) = Some ModelActive)"

definition gate_degraded :: "class_capability \<Rightarrow> (string \<rightharpoonup> hardware_status) \<Rightarrow> bool" where
  "gate_degraded c hw \<longleftrightarrow> (\<exists>n \<in> set (cc_required_hardware c). hw n = Some HardwareDegraded)"

text \<open>A robot whose lift needs its motor: with the motor degraded, the robot is critical.\<close>

definition sample_lift :: class_capability where
  "sample_lift = \<lparr>cc_name = ''lift'', cc_type = KindHardwareNative, cc_pauseable = False, cc_required_hardware = [''motor''],
     cc_providing_model = [], cc_parameters = [(''kg'', \<lparr>cp_source_field = ''hardware[motor].spec.maxPayloadKg'', cp_value = []\<rparr>)],
     cc_degraded_policy = None\<rparr>"

subsection \<open>Lemmas\<close>

lemma find_rev_map_of: "find (\<lambda>x. f x = n) xs = map_of (map (\<lambda>x. (f x, x)) xs) n"
  by (induction xs) auto

lemma hardware_gate_Inr:
  "hardware_gate hw ns d = Inr d' \<longleftrightarrow>
     (\<forall>n \<in> set ns. hw n \<notin> {None, Some HardwareDisabled, Some HardwareFailed})
     \<and> d' = (d \<or> (\<exists>n \<in> set ns. hw n = Some HardwareDegraded))"
  by (induction hw ns d rule: hardware_gate.induct) (auto split: option.splits hardware_status.splits)

lemma deriveCapabilities_by_name:
  "deriveCapabilities now ds hw r = List.map_filter (map_of (by_name now ds hw r)) (sort (keys (by_name now ds hw r)))"
  by (simp add: deriveCapabilities_def Let_def)

lemma fold_put_map_of:
  "map_of (fold (\<lambda>c. put (f c) (g c)) cs m) n = (case last_named f cs n of Some c \<Rightarrow> Some (g c) | None \<Rightarrow> map_of m n)"
  by (induction cs rule: rev_induct) (auto simp: last_named_def)

lemma fold_put_distinct: "distinct (keys (fold (\<lambda>c. put (f c) (g c)) cs m)) = distinct (keys m)"
  by (induction cs arbitrary: m) auto

lemma fold_granted_map_of:
  "map_of (fold add_granted gs m) n = (case map_of m n of Some e \<Rightarrow> Some e | None \<Rightarrow> if n \<in> set gs then Some (granted_entry n) else None)"
  by (induction gs arbitrary: m) (auto simp: add_granted_def split: option.splits)

lemma fold_granted_distinct: "distinct (keys (fold add_granted gs m)) = distinct (keys m)"
  by (induction gs arbitrary: m) (auto simp: add_granted_def)

lemma by_name_map_of:
  "map_of (by_name now ds hw r) n = (case last_named cc_name ds n of
     Some c \<Rightarrow> Some (declared_entry now c hw r)
   | None \<Rightarrow> if n \<in> set (concat (map snd (r_model_grants r))) then Some (granted_entry n) else None)"
  by (simp add: by_name_def fold_granted_map_of fold_put_map_of split: option.splits)

lemma by_name_distinct: "distinct (keys (by_name now ds hw r))"
  unfolding by_name_def fold_granted_distinct fold_put_distinct by (simp add: keys_def)

lemma last_named_name: "last_named f xs n = Some x \<Longrightarrow> f x = n"
  by (simp add: last_named_def find_Some_iff) blast

lemma declared_entry_name [simp]: "cap_name (declared_entry now c hw r) = cc_name c"
  by (simp add: declared_entry_def Let_def split: prod.splits)

lemma granted_entry_name [simp]: "cap_name (granted_entry n) = n"
  by (simp add: granted_entry_def)

lemma by_name_name: "map_of (by_name now ds hw r) n = Some e \<Longrightarrow> cap_name e = n"
  by (auto simp: by_name_map_of split: option.splits if_splits dest: last_named_name)

lemma map_filter_names:
  "(\<And>n e. m n = Some e \<Longrightarrow> cap_name e = n) \<Longrightarrow> (\<forall>n \<in> set ns. m n \<noteq> None) \<Longrightarrow> map cap_name (List.map_filter m ns) = ns"
  by (induction ns) (auto simp: List.map_filter_simps split: option.splits)

lemma derived_names: "map cap_name (deriveCapabilities now ds hw r) = sort (keys (by_name now ds hw r))"
  unfolding deriveCapabilities_by_name
  by (rule map_filter_names) (simp_all add: by_name_name map_of_keys)

lemma set_map_filter: "y \<in> set (List.map_filter f xs) \<longleftrightarrow> (\<exists>x \<in> set xs. f x = Some y)"
  by (auto simp: List.map_filter_def image_iff)

lemma derived_entry: "e \<in> set (deriveCapabilities now ds hw r) \<longleftrightarrow> map_of (by_name now ds hw r) (cap_name e) = Some e"
proof -
  have "n \<in> set (keys (by_name now ds hw r))" if "map_of (by_name now ds hw r) n = Some e" for n
    using that by (simp add: map_of_keys)
  then show ?thesis
    unfolding deriveCapabilities_by_name by (auto simp: set_map_filter dest: by_name_name)
qed

lemma last_named_derived: "last_named cap_name (deriveCapabilities now ds hw r) n = map_of (by_name now ds hw r) n"
proof -
  have d: "distinct (map cap_name (deriveCapabilities now ds hw r))" by (simp add: derived_names by_name_distinct)
  show ?thesis
  proof (cases "map_of (by_name now ds hw r) n")
    case None
    then have "\<forall>e \<in> set (deriveCapabilities now ds hw r). cap_name e \<noteq> n" by (auto simp: derived_entry)
    then show ?thesis using None by (simp add: last_named_def find_None_iff)
  next
    case (Some e)
    then have e: "e \<in> set (deriveCapabilities now ds hw r)" "cap_name e = n" using by_name_name by (auto simp: derived_entry)
    then have "find (\<lambda>x. cap_name x = n) (rev (deriveCapabilities now ds hw r)) \<noteq> None"
      by (auto simp: find_None_iff)
    then obtain e' where "find (\<lambda>x. cap_name x = n) (rev (deriveCapabilities now ds hw r)) = Some e'" by blast
    moreover from this have "e' \<in> set (deriveCapabilities now ds hw r)" "cap_name e' = n" by (auto dest: find_Some_D)
    moreover have "e' = e" using d e calculation by (auto simp: derived_entry)
    ultimately show ?thesis using Some by (simp add: last_named_def)
  qed
qed

lemma declared_entry_status:
  "(cap_status (declared_entry now c hw r), cap_paused (declared_entry now c hw r), cap_reason (declared_entry now c hw r)) =
     evaluateCapability c (hwByName r) (modelByName r) (r_phase r = RobotMaintenance)"
  by (simp add: declared_entry_def Let_def split: prod.splits)

lemma declared_entry_again:
  assumes "last_named cap_name (r_capabilities r') (cc_name c) = Some (declared_entry now c hw r)"
    and "r' = r\<lparr>r_capabilities := r_capabilities r'\<rparr>"
  shows "declared_entry now' c hw r' = declared_entry now c hw r"
proof -
  have same: "hwByName r' = hwByName r" "modelByName r' = modelByName r" "r_phase r' = r_phase r"
    by (subst assms(2), simp add: hwByName_def modelByName_def)+
  obtain st pa re where e: "evaluateCapability c (hwByName r) (modelByName r) (r_phase r = RobotMaintenance) = (st, pa, re)"
    by (metis prod_cases3)
  then have "cap_degraded_since (declared_entry now c hw r) = None \<longleftrightarrow> st = CapActive"
    by (simp add: declared_entry_def degradedSince_def split: option.splits)
  then have "degradedSince now' st (Some (declared_entry now c hw r)) = cap_degraded_since (declared_entry now c hw r)"
    by (auto simp: degradedSince_def split: option.splits)
  then show ?thesis using e same assms(1) by (simp add: declared_entry_def)
qed

text \<open>
  Claim C36. The derivation settles after one write: derived again, at any later time, from the robot that
  carries its own result, the capabilities are the same, the time since which each is degraded included.
  So a robot whose components and models do not change is never written again.
\<close>

theorem derivation_settles:
  "deriveCapabilities now' ds hw (r\<lparr>r_capabilities := deriveCapabilities now ds hw r\<rparr>) = deriveCapabilities now ds hw r"
proof -
  let ?r = "r\<lparr>r_capabilities := deriveCapabilities now ds hw r\<rparr>"
  have again: "declared_entry now' c hw ?r = declared_entry now c hw r" if "last_named cc_name ds (cc_name c) = Some c" for c
    using that by (intro declared_entry_again) (simp_all add: last_named_derived by_name_map_of)
  have m: "map_of (by_name now' ds hw ?r) = map_of (by_name now ds hw r)"
    using again by (auto simp: by_name_map_of fun_eq_iff split: option.splits dest: last_named_name)
  have "set (keys (by_name now' ds hw ?r)) = set (keys (by_name now ds hw r))"
    using m by (auto simp: map_of_keys)
  then have "sort (keys (by_name now' ds hw ?r)) = sort (keys (by_name now ds hw r))"
    using by_name_distinct by (metis sorted_list_of_set_sort_remdups distinct_remdups_id)
  then show ?thesis
    using m deriveCapabilities_by_name [of now' ds hw ?r] deriveCapabilities_by_name [of now ds hw r] by argo
qed

lemma evaluateCapability_status:
  "fst (evaluateCapability c hw models um) =
     (if um \<and> cc_pauseable c then CapPaused
      else if cc_type c = KindManual then CapActive
      else if \<not> gate_open c hw models then CapInactive
      else if gate_degraded c hw then CapDegraded else CapActive)"
proof (cases "hardware_gate hw (cc_required_hardware c) False")
  case (Inl w)
  then have "\<not> gate_open c hw models" using hardware_gate_Inr [of hw "cc_required_hardware c" False "gate_degraded c hw"]
    by (auto simp: gate_open_def gate_degraded_def)
  then show ?thesis using Inl by (simp add: evaluateCapability_def)
next
  case (Inr d)
  then show ?thesis using hardware_gate_Inr [of hw "cc_required_hardware c" False d]
    by (auto simp: evaluateCapability_def gate_open_def gate_degraded_def)
qed

lemma evaluateCapability_paused: "fst (snd (evaluateCapability c hw models um)) \<longleftrightarrow> um \<and> cc_pauseable c"
  by (auto simp: evaluateCapability_def split: sum.splits)

lemma last_named_distinct: "distinct (map f xs) \<Longrightarrow> x \<in> set xs \<Longrightarrow> last_named f xs (f x) = Some x"
  unfolding last_named_def find_rev_map_of by (intro map_of_is_SomeI) (auto simp: o_def rev_map [symmetric])

lemma derived_declared:
  "distinct (map cc_name ds) \<Longrightarrow> c \<in> set ds \<Longrightarrow>
     e \<in> set (deriveCapabilities now ds hw r) \<and> cap_name e = cc_name c \<longleftrightarrow> e = declared_entry now c hw r"
  by (auto simp: derived_entry by_name_map_of last_named_distinct)

lemma sort_Nil_iff: "sort xs = [] \<longleftrightarrow> xs = []"
  by (metis length_0_conv length_sort)

text \<open>
  Claim C37. The health of a robot whose capabilities were just derived follows from its components and
  models alone. It is critical exactly when a component has failed or a capability that may not be
  paused lacks what it needs at full health (a required component absent, off, failed or degraded, or
  its model not active); otherwise it is degraded when a component is, and healthy if none is. A zone's
  maintenance never changes it.
\<close>

theorem health_follows_gates:
  assumes "distinct (map cc_name ds)"
  shows "fst (deriveHealth ds (r\<lparr>r_capabilities := deriveCapabilities now ds hw r\<rparr>)) =
    (if (\<exists>h \<in> set (r_hardware r). snd h = HardwareFailed)
       \<or> (\<exists>c \<in> set ds. \<not> cc_pauseable c \<and> cc_type c \<noteq> KindManual \<and> (\<not> gate_open c (hwByName r) (modelByName r) \<or> gate_degraded c (hwByName r)))
     then HealthStateCritical
     else if \<exists>h \<in> set (r_hardware r). snd h = HardwareDegraded then HealthStateDegraded else HealthStateHealthy)"
proof -
  let ?caps = "deriveCapabilities now ds hw r"
  have st: "cap_status (declared_entry now c hw r) = fst (evaluateCapability c (hwByName r) (modelByName r) (r_phase r = RobotMaintenance))" for c
    using declared_entry_status [of now c hw r] by (metis fst_conv)
  have act: "cap_status (declared_entry now c hw r) \<noteq> CapActive \<longleftrightarrow>
      cc_type c \<noteq> KindManual \<and> (\<not> gate_open c (hwByName r) (modelByName r) \<or> gate_degraded c (hwByName r))" if "\<not> cc_pauseable c" for c
    using that by (simp add: st evaluateCapability_status)
  have "(\<exists>e \<in> set ?caps. (\<exists>c \<in> set ds. \<not> cc_pauseable c \<and> cap_name e = cc_name c) \<and> cap_status e \<noteq> CapActive)
      \<longleftrightarrow> (\<exists>c \<in> set ds. \<not> cc_pauseable c \<and> cap_status (declared_entry now c hw r) \<noteq> CapActive)"
    using derived_declared [OF assms(1)] by metis
  then have lost: "filter (\<lambda>e. cap_name e \<in> cc_name ` {c \<in> set ds. \<not> cc_pauseable c} \<and> cap_status e \<noteq> CapActive) ?caps = []
      \<longleftrightarrow> \<not> (\<exists>c \<in> set ds. \<not> cc_pauseable c \<and> cc_type c \<noteq> KindManual
        \<and> (\<not> gate_open c (hwByName r) (modelByName r) \<or> gate_degraded c (hwByName r)))"
    using act by (simp add: filter_empty_conv image_iff) blast
  have e: "filter P hs = [] \<longleftrightarrow> \<not> (\<exists>x \<in> set hs. P x)" for P and hs :: "(string \<times> hardware_status) list"
    by (simp add: filter_empty_conv)
  show ?thesis
    by (simp add: deriveHealth_def Let_def sort_Nil_iff e lost)
qed

theorem health_follows_gates_witness:
  "distinct (map cc_name [sample_lift])
    \<and> fst (deriveHealth [sample_lift] (sample_robot ''r'' 50\<lparr>r_hardware := [(''motor'', HardwareDegraded)],
         r_capabilities := deriveCapabilities 0 [sample_lift] [] (sample_robot ''r'' 50\<lparr>r_hardware := [(''motor'', HardwareDegraded)]\<rparr>)\<rparr>))
       = HealthStateCritical"
  using health_follows_gates [of "[sample_lift]" 0 "[]" "sample_robot ''r'' 50\<lparr>r_hardware := [(''motor'', HardwareDegraded)]\<rparr>"]
  by (simp add: sample_lift_def gate_degraded_def hwByName_def last_named_def)

end
