(* ===== verification/Restrictions.thy ===== *)
theory Restrictions
  imports Capability "HOL-Library.Product_Lexorder"
begin

text \<open>
  The restrictions of a FleetZone: the fold that resolves a zone's ancestor chain and the union over
  the zones that contain a robot (\<^verbatim>\<open>internal/controller/zone_restrictions.go\<close>), the projection the
  Zone Controller publishes (\<^verbatim>\<open>reconcileRestrictions\<close>, \<^verbatim>\<open>ancestorChain\<close>), candidate filter 11 of the
  Scheduler that reads it (\<^verbatim>\<open>dispatch_zone_restrictions.go\<close>), and the admission check that refuses a
  descendant weaker than its ancestors (\<^verbatim>\<open>internal/webhook/fleetzone_restrictions_fzr7.go\<close>).

  The axis of a rule is closed by the schema. A nil slice and an empty one differ in the fold, so an
  allow-list is an option there; in a spec they are the same, the empty list.
\<close>

subsection \<open>Rules\<close>

datatype restriction_mode = RestrictionDenied | RestrictionLimited | RestrictionRequired | RestrictionOther string

datatype restriction_axis = ZoneAxisEntry | ZoneAxisCapability | ZoneAxisOperating

definition axis_string :: "restriction_axis \<Rightarrow> string" where
  "axis_string a = (case a of ZoneAxisEntry \<Rightarrow> ''Entry'' | ZoneAxisCapability \<Rightarrow> ''Capability'' | ZoneAxisOperating \<Rightarrow> ''Operating'')"

record entry_restriction =
  en_mode :: restriction_mode
  en_reason :: string

record capability_restriction =
  cr_name :: string
  cr_mode :: restriction_mode
  cr_reason :: string

record operating_restriction =
  op_subject :: string
  op_mode :: restriction_mode
  op_max :: string
  op_allowed :: "string list"
  op_reason :: string

record zone_restrictions =
  zs_entry :: "entry_restriction option"
  zs_capabilities :: "capability_restriction list"
  zs_operating :: "operating_restriction list"

record effective_restriction =
  e_axis :: restriction_axis
  e_subject :: string
  e_mode :: restriction_mode
  e_max :: string
  e_allowed :: "string list option"
  e_reason :: string
  e_from :: string

text \<open>
  Of a zone, what the resolution reads: \<open>rz_effective\<close> is \<^verbatim>\<open>status.restrictions.effective\<close> (\<open>None\<close> when
  \<^verbatim>\<open>status.restrictions\<close> is nil), and \<open>rz_resolved\<close> the RestrictionsResolved condition: whether it
  is False, and its message.
\<close>

record restricted_zone =
  rz_name :: string
  rz_parent :: string
  rz_generation :: int
  rz_restrictions :: "zone_restrictions option"
  rz_effective :: "effective_restriction list option"
  rz_resolved :: "(bool \<times> string) option"

subsection \<open>The fold\<close>

definition restrictionKey :: "restriction_axis \<Rightarrow> string \<Rightarrow> string" where
  "restrictionKey axis subject = axis_string axis @ ''/'' @ subject"

definition modeRank :: "restriction_mode \<Rightarrow> nat" where
  "modeRank m = (case m of RestrictionDenied \<Rightarrow> 3 | RestrictionRequired \<Rightarrow> 2 | RestrictionLimited \<Rightarrow> 1 | RestrictionOther _ \<Rightarrow> 0)"

definition tighterMax :: "string \<Rightarrow> string \<Rightarrow> string" where
  "tighterMax a b =
     (if a = [] then b
      else if b = [] then a
      else case (parse_float a, parse_float b) of
          (None, None) \<Rightarrow> a
        | (None, _) \<Rightarrow> b
        | (_, None) \<Rightarrow> a
        | (Some av, Some bv) \<Rightarrow> if flt bv av then b else a)"

definition intersectAllowed :: "string list option \<Rightarrow> string list option \<Rightarrow> string list option" where
  "intersectAllowed a b = (case (a, b) of
     (None, _) \<Rightarrow> b
   | (_, None) \<Rightarrow> a
   | (Some xs, Some ys) \<Rightarrow> Some (sort (filter (\<lambda>v. v \<in> set ys) xs)))"

record fold_state =
  fo_acc :: "(string \<times> effective_restriction) list"
  fo_denied :: "string \<rightharpoonup> string"
  fo_required :: "string \<rightharpoonup> string"
  fo_bound :: "string \<rightharpoonup> string"

definition fold_init :: fold_state where
  "fold_init = \<lparr>fo_acc = [], fo_denied = Map.empty, fo_required = Map.empty, fo_bound = Map.empty\<rparr>"

definition go_value :: "(string \<rightharpoonup> string) \<Rightarrow> string \<Rightarrow> string" where
  "go_value m k = (case m k of Some v \<Rightarrow> v | None \<Rightarrow> [])"

definition reasonFromZone :: "effective_restriction \<Rightarrow> string \<Rightarrow> string" where
  "reasonFromZone e zone = (if e_from e = zone then e_reason e else [])"

definition first_seen :: "bool \<Rightarrow> string \<Rightarrow> string \<Rightarrow> (string \<rightharpoonup> string) \<Rightarrow> (string \<rightharpoonup> string)" where
  "first_seen now key zone m = (if now \<and> m key = None then m(key \<mapsto> zone) else m)"

text \<open>The merge of a rule into the entry its key already has, with the zones recorded for the key.\<close>

definition merge_bounds :: "string \<Rightarrow> effective_restriction \<Rightarrow> effective_restriction \<Rightarrow> string \<Rightarrow> effective_restriction \<times> string" where
  "merge_bounds zone inn cur bound =
     (let newMax = tighterMax (e_max cur) (e_max inn);
          (cur1, bound1) = (if newMax \<noteq> e_max cur then (cur\<lparr>e_max := newMax\<rparr>, zone) else (cur, bound));
          newAllowed = intersectAllowed (e_allowed cur1) (e_allowed inn)
      in if newAllowed \<noteq> e_allowed cur1 then (cur1\<lparr>e_allowed := newAllowed\<rparr>, zone) else (cur1, bound1))"

definition merge_mode :: "string \<Rightarrow> effective_restriction \<Rightarrow> string \<Rightarrow> effective_restriction \<Rightarrow> effective_restriction" where
  "merge_mode zone inn bound cur =
     (if modeRank (e_mode inn) > modeRank (e_mode cur)
      then cur\<lparr>e_mode := e_mode inn, e_reason := e_reason inn, e_from := e_from inn\<rparr>
      else if e_mode cur = RestrictionLimited \<and> bound = zone then cur\<lparr>e_reason := e_reason inn, e_from := e_from inn\<rparr>
      else cur)"

definition merge_denied :: "string \<Rightarrow> effective_restriction \<Rightarrow> effective_restriction" where
  "merge_denied denied cur =
     (if e_mode cur \<noteq> RestrictionDenied then cur
      else let cur' = cur\<lparr>e_max := [], e_allowed := None\<rparr>
           in if denied = [] then cur'
              else let cur'' = cur'\<lparr>e_from := denied\<rparr>; r = reasonFromZone cur'' denied
                   in if r \<noteq> [] then cur''\<lparr>e_reason := r\<rparr> else cur'')"

definition foldRule :: "string \<Rightarrow> effective_restriction \<Rightarrow> fold_state \<Rightarrow> fold_state" where
  "foldRule zone inn s =
     (let key = restrictionKey (e_axis inn) (e_subject inn);
          denied = first_seen (e_mode inn = RestrictionDenied) key zone (fo_denied s);
          required = first_seen (e_mode inn = RestrictionRequired) key zone (fo_required s);
          s' = s\<lparr>fo_denied := denied, fo_required := required\<rparr>
      in case map_of (fo_acc s) key of
          None \<Rightarrow> s'\<lparr>fo_acc := put key inn (fo_acc s)\<rparr>
        | Some cur \<Rightarrow>
            (let (cur', bound) = merge_bounds zone inn cur (go_value (fo_bound s) key);
                 cur'' = merge_denied (go_value denied key) (merge_mode zone inn bound cur')
             in s'\<lparr>fo_acc := put key cur'' (fo_acc s),
                   fo_bound := (if bound \<noteq> go_value (fo_bound s) key then (fo_bound s)(key \<mapsto> bound) else fo_bound s)\<rparr>))"

text \<open>The rules a zone declares, in the order in which they are folded.\<close>

definition zone_rules :: "restricted_zone \<Rightarrow> effective_restriction list" where
  "zone_rules z = (case rz_restrictions z of
     None \<Rightarrow> []
   | Some r \<Rightarrow>
       (case zs_entry r of None \<Rightarrow> []
        | Some e \<Rightarrow> [\<lparr>e_axis = ZoneAxisEntry, e_subject = [], e_mode = en_mode e, e_max = [], e_allowed = None,
                       e_reason = en_reason e, e_from = rz_name z\<rparr>])
       @ map (\<lambda>c. \<lparr>e_axis = ZoneAxisCapability, e_subject = cr_name c, e_mode = cr_mode c, e_max = [], e_allowed = None,
                    e_reason = cr_reason c, e_from = rz_name z\<rparr>) (zs_capabilities r)
       @ map (\<lambda>ru. \<lparr>e_axis = ZoneAxisOperating, e_subject = op_subject ru, e_mode = op_mode ru, e_max = op_max ru,
                    e_allowed = (if op_allowed ru = [] then None else Some (op_allowed ru)),
                    e_reason = op_reason ru, e_from = rz_name z\<rparr>) (zs_operating r))"

definition chain_rules :: "restricted_zone list \<Rightarrow> effective_restriction list" where
  "chain_rules chain = concat (map zone_rules chain)"

text \<open>
  \<^verbatim>\<open>strings.TrimSpace\<close> of a text that ends in a visible character: the white space of Unicode at its
  front, in UTF-8.
\<close>

definition space_runes :: "nat list list" where
  "space_runes = map (\<lambda>b. [b]) [9, 10, 11, 12, 13, 32] @ [[194, 133], [194, 160], [225, 154, 128], [226, 129, 159], [227, 128, 128]]
     @ map (\<lambda>b. [226, 128, b]) ([128 ..< 139] @ [168, 169, 175])"

fun trim_front :: "nat \<Rightarrow> string \<Rightarrow> string" where
  "trim_front 0 s = s"
| "trim_front (Suc n) s = (case find (\<lambda>r. map of_char (take (length r) s) = r) space_runes of
     None \<Rightarrow> s | Some r \<Rightarrow> trim_front n (drop (length r) s))"

definition chain_note :: string where
  "chain_note = '' (no value is permitted by every allow-list in the zone chain)''"

definition union_note :: string where
  "union_note = '' (no value is permitted by every allow-list in force where this robot stands)''"

definition emit :: "string \<Rightarrow> string \<Rightarrow> effective_restriction \<Rightarrow> effective_restriction" where
  "emit why bound e =
     (if e_mode e = RestrictionLimited \<and> e_allowed e = Some []
      then e\<lparr>e_mode := RestrictionDenied, e_max := [], e_allowed := None,
             e_from := (if bound \<noteq> [] then bound else e_from e),
             e_reason := (let t = e_reason e @ why in trim_front (length t) t)\<rparr>
      else e)"

record restriction_contradiction =
  rc_axis :: restriction_axis
  rc_subject :: string
  rc_denied_by :: string
  rc_required_by :: string

definition rule_order :: "effective_restriction \<Rightarrow> string \<times> string" where
  "rule_order e = (axis_string (e_axis e), e_subject e)"

definition fold_chain :: "restricted_zone list \<Rightarrow> fold_state" where
  "fold_chain chain = fold (\<lambda>e. foldRule (e_from e) e) (chain_rules chain) fold_init"

definition resolveZoneRestrictions :: "restricted_zone list \<Rightarrow> effective_restriction list \<times> restriction_contradiction list" where
  "resolveZoneRestrictions chain =
     (let s = fold_chain chain;
          out = map (\<lambda>(key, e). (key, e, emit chain_note (go_value (fo_bound s) key) e)) (fo_acc s);
          contradictions = List.map_filter (\<lambda>(key, e, e').
            case (if e' \<noteq> e then Some (e_from e') else fo_denied s key, fo_required s key) of
              (Some d, Some q) \<Rightarrow> Some \<lparr>rc_axis = e_axis e, rc_subject = e_subject e, rc_denied_by = d, rc_required_by = q\<rparr>
            | _ \<Rightarrow> None) out
      in (sort_key rule_order (map (\<lambda>(key, e, e'). e') out),
          sort_key (\<lambda>c. (axis_string (rc_axis c), rc_subject c)) contradictions))"

subsection \<open>The projection of the Zone Controller\<close>

datatype unresolved_chain = NotListed string | Revisits string | MissingParent string string

definition listed_zone :: "restricted_zone list \<Rightarrow> string \<Rightarrow> restricted_zone option" where
  "listed_zone zones = last_named rz_name zones"

function chain_up :: "restricted_zone list \<Rightarrow> string list \<Rightarrow> restricted_zone \<Rightarrow> restricted_zone list \<times> unresolved_chain option" where
  "chain_up zones seen cur =
     (if rz_name cur \<in> set seen then ([], Some (Revisits (rz_name cur)))
      else if rz_parent cur = [] then ([cur], None)
      else case listed_zone zones (rz_parent cur) of
          None \<Rightarrow> ([cur], Some (MissingParent (rz_name cur) (rz_parent cur)))
        | Some next \<Rightarrow> (case chain_up zones (rz_name cur # seen) next of (up, why) \<Rightarrow> (cur # up, why)))"
  by pat_completeness auto
termination
proof (relation "measure (\<lambda>(zones, seen, cur). card ((rz_name ` set zones \<union> {rz_name cur}) - set seen))")
  fix zones seen and cur nxt :: restricted_zone
  assume a: "rz_name cur \<notin> set seen" "listed_zone zones (rz_parent cur) = Some nxt"
  then have "nxt \<in> set zones" by (auto simp: listed_zone_def last_named_def dest: find_Some_D)
  then have "(rz_name ` set zones \<union> {rz_name nxt}) - set (rz_name cur # seen) \<subset> (rz_name ` set zones \<union> {rz_name cur}) - set seen"
    using a(1) by auto
  then show "((zones, rz_name cur # seen, nxt), zones, seen, cur)
      \<in> measure (\<lambda>(zones, seen, cur). card ((rz_name ` set zones \<union> {rz_name cur}) - set seen))"
    by (simp add: psubset_card_mono)
qed simp

declare chain_up.simps [simp del]

definition ancestorChain :: "string \<Rightarrow> restricted_zone list \<Rightarrow> restricted_zone list \<times> unresolved_chain option" where
  "ancestorChain name zones = (case listed_zone zones name of
     None \<Rightarrow> ([], Some (NotListed name))
   | Some self \<Rightarrow> (case chain_up zones [] self of (up, why) \<Rightarrow> (rev up, why)))"

text \<open>
  What the API server stores of a rule: an empty allow-list is not serialised and reads back as none.
\<close>

definition stored_rule :: "effective_restriction \<Rightarrow> effective_restriction" where
  "stored_rule e = (if e_allowed e = Some [] then e\<lparr>e_allowed := None\<rparr> else e)"

text \<open>
  The fingerprint is the reason the chain does not resolve with the name and the generation of each
  zone in it; the source writes it into one string. The memory of fingerprints is kept per zone, and a
  condition is only replaced together with the projection. The message of a condition is shortened.
\<close>

type_synonym fingerprint = "unresolved_chain option \<times> (string \<times> int) list"

definition restrictionsFingerprint :: "restricted_zone list \<Rightarrow> unresolved_chain option \<Rightarrow> fingerprint" where
  "restrictionsFingerprint chain why = (why, map (\<lambda>z. (rz_name z, rz_generation z)) chain)"

definition reconcileRestrictions :: "restricted_zone list \<Rightarrow> (string \<rightharpoonup> fingerprint) \<Rightarrow> restricted_zone
    \<Rightarrow> (string \<rightharpoonup> fingerprint) \<times> restricted_zone" where
  "reconcileRestrictions zones fps z =
     (let (chain, why) = ancestorChain (rz_name z) zones;
          fp = restrictionsFingerprint chain why;
          fps' = fps(rz_name z \<mapsto> fp)
      in if fps (rz_name z) = Some fp \<and> rz_effective z \<noteq> None then (fps', z)
         else (fps', z\<lparr>rz_effective := Some (map stored_rule (fst (resolveZoneRestrictions chain))),
                        rz_resolved := Some (case why of
                          Some _ \<Rightarrow> (True, ''ancestor chain does not resolve'')
                        | None \<Rightarrow> (False, ''effective restriction set resolved''))\<rparr>))"

subsection \<open>Candidate filter 11\<close>

definition unresolvedReason :: "restricted_zone \<Rightarrow> string" where
  "unresolvedReason z = (case rz_resolved z of
     None \<Rightarrow> ''the Zone Controller has not published RestrictionsResolved for this zone yet''
   | Some (is_false, message) \<Rightarrow>
       if is_false then (if message \<noteq> [] then message else ''RestrictionsResolved is False'')
       else if rz_effective z = None then ''RestrictionsResolved is True but status.restrictions is absent''
       else [])"

definition findEffective :: "restricted_zone \<Rightarrow> restriction_axis \<Rightarrow> string \<Rightarrow> effective_restriction option" where
  "findEffective z axis subject = (case rz_effective z of
     None \<Rightarrow> None
   | Some es \<Rightarrow> find (\<lambda>e. e_axis e = axis \<and> e_subject e = subject) es)"

definition namespaceUsesRestrictions :: "restricted_zone list \<Rightarrow> bool" where
  "namespaceUsesRestrictions zones = list_ex (\<lambda>z. case rz_restrictions z of
     None \<Rightarrow> False
   | Some r \<Rightarrow> zs_entry r \<noteq> None \<or> zs_capabilities r \<noteq> [] \<or> zs_operating r \<noteq> []) zones"

definition childrenOf :: "restricted_zone list \<Rightarrow> string \<Rightarrow> string list" where
  "childrenOf zones name =
     (if name \<in> rz_name ` set zones then map rz_name (filter (\<lambda>z. rz_parent z \<noteq> [] \<and> rz_parent z = name) zones) else [])"

text \<open>The recursive walk as a stack of the names still to visit.\<close>

function walk_leaves :: "restricted_zone list \<Rightarrow> string list \<Rightarrow> string list \<Rightarrow> string list \<Rightarrow> string list" where
  "walk_leaves zones seen leaves [] = leaves"
| "walk_leaves zones seen leaves (name # stack) =
     (if name \<in> set seen then walk_leaves zones seen leaves stack
      else if childrenOf zones name = [] then walk_leaves zones (name # seen) (leaves @ [name]) stack
      else walk_leaves zones (name # seen) leaves (childrenOf zones name @ stack))"
  by pat_completeness auto
termination
proof (relation "measures [\<lambda>(zones, seen, leaves, stack). card ((rz_name ` set zones \<union> set stack) - set seen),
                           \<lambda>(zones, seen, leaves, stack). length stack]", goal_cases)
  case (2 zones seen leaves name stack)
  then have "(rz_name ` set zones \<union> set stack) - set seen = (rz_name ` set zones \<union> set (name # stack)) - set seen" by auto
  then show ?case by simp
next
  case (3 zones seen leaves name stack)
  then have "(rz_name ` set zones \<union> set stack) - set (name # seen) \<subset> (rz_name ` set zones \<union> set (name # stack)) - set seen" by auto
  then show ?case by (simp add: psubset_card_mono)
next
  case (4 zones seen leaves name stack)
  have "set (childrenOf zones name) \<subseteq> rz_name ` set zones" by (auto simp: childrenOf_def)
  then have "(rz_name ` set zones \<union> set (childrenOf zones name @ stack)) - set (name # seen)
      \<subset> (rz_name ` set zones \<union> set (name # stack)) - set seen" using 4 by auto
  then show ?case by (simp add: psubset_card_mono)
qed simp

declare walk_leaves.simps [simp del]

definition resolveZoneLeaves :: "string \<Rightarrow> restricted_zone list \<Rightarrow> string list" where
  "resolveZoneLeaves zone zones = walk_leaves zones [] [] [zone]"

datatype zone_failure = ZoneUnknown | ZoneRestrictionsUnresolved | ZoneEntryDenied | ZoneCapabilityDenied

record zone_restriction_verdict =
  zv_refuse :: bool
  zv_terminal :: bool
  zv_reason :: "zone_failure option"
  zv_leaves :: "string list option"
  zv_narrowed_out :: "string list"

definition refuse_zone :: "bool \<Rightarrow> zone_failure \<Rightarrow> zone_restriction_verdict" where
  "refuse_zone terminal why = \<lparr>zv_refuse = True, zv_terminal = terminal, zv_reason = Some why, zv_leaves = None, zv_narrowed_out = []\<rparr>"

definition denies :: "effective_restriction option \<Rightarrow> bool" where
  "denies e = (case e of None \<Rightarrow> False | Some r \<Rightarrow> e_mode r = RestrictionDenied)"

text \<open>The fate of a leaf: kept, narrowed out, or unresolved.\<close>

datatype leaf_fate = LeafKept | LeafNarrowedOut | LeafUnresolved

definition leaf_fate :: "restricted_zone list \<Rightarrow> string \<Rightarrow> leaf_fate" where
  "leaf_fate zones name = (case listed_zone zones name of
     None \<Rightarrow> LeafKept
   | Some leaf \<Rightarrow>
       if unresolvedReason leaf \<noteq> [] then LeafUnresolved
       else if denies (findEffective leaf ZoneAxisEntry []) then LeafNarrowedOut
       else LeafKept)"

definition evaluateZoneRestrictions :: "fleet_action \<Rightarrow> restricted_zone list \<Rightarrow> zone_restriction_verdict option" where
  "evaluateZoneRestrictions action zones =
     (let target = a_zone action
      in if target = [] \<or> \<not> namespaceUsesRestrictions zones then None
         else Some (case listed_zone zones target of
             None \<Rightarrow> refuse_zone True ZoneUnknown
           | Some self \<Rightarrow>
               if unresolvedReason self \<noteq> [] then refuse_zone False ZoneRestrictionsUnresolved
               else if denies (findEffective self ZoneAxisEntry []) then refuse_zone True ZoneEntryDenied
               else if list_ex (\<lambda>want. denies (findEffective self ZoneAxisCapability want)) (a_required action)
               then refuse_zone True ZoneCapabilityDenied
               else let leaves = resolveZoneLeaves target zones;
                        kept = filter (\<lambda>n. leaf_fate zones n = LeafKept) leaves;
                        narrowedOut = sort (filter (\<lambda>n. leaf_fate zones n = LeafNarrowedOut) leaves);
                        answer = \<lparr>zv_refuse = False, zv_terminal = False, zv_reason = None, zv_leaves = Some kept, zv_narrowed_out = narrowedOut\<rparr>
                    in if list_ex (\<lambda>n. leaf_fate zones n = LeafUnresolved) leaves
                       then answer\<lparr>zv_refuse := True, zv_reason := Some ZoneRestrictionsUnresolved\<rparr>
                       else if kept = [] then answer\<lparr>zv_refuse := True, zv_terminal := True, zv_reason := Some ZoneEntryDenied\<rparr>
                       else answer))"

subsection \<open>The union over the containing zones\<close>

definition union_order :: "effective_restriction \<Rightarrow> string \<times> string \<times> string" where
  "union_order e = (axis_string (e_axis e), e_subject e, e_from e)"

definition trusted_zone :: "restricted_zone list \<Rightarrow> string \<Rightarrow> effective_restriction list option" where
  "trusted_zone zones name = (case listed_zone zones name of
     None \<Rightarrow> None
   | Some z \<Rightarrow> if unresolvedReason z \<noteq> [] then None else rz_effective z)"

definition unionEffectiveRestrictionsWithUnresolved :: "restricted_zone list \<Rightarrow> string list \<Rightarrow> effective_restriction list \<times> string list" where
  "unionEffectiveRestrictionsWithUnresolved zones containing =
     (let names = sort containing;
          s = fold (\<lambda>e. foldRule (e_from e) (stored_rule e)) (concat (List.map_filter (trusted_zone zones) names)) fold_init
      in (sort_key union_order (map (\<lambda>(key, e). emit union_note
            (go_value (fo_bound s) key) e) (fo_acc s)),
          filter (\<lambda>n. trusted_zone zones n = None) names))"

definition unionEffectiveRestrictions :: "restricted_zone list \<Rightarrow> string list \<Rightarrow> effective_restriction list" where
  "unionEffectiveRestrictions zones containing = fst (unionEffectiveRestrictionsWithUnresolved zones containing)"

subsection \<open>The admission check\<close>

datatype weakening =
    UnderDenied restriction_mode | DeniedUnderRequired | LimitedUnderRequired | MaxExceeds string string
  | NoMax string | AllowedAdds "string list" | NoAllowedList "string list"

text \<open>The flattened rule of the webhook is the rule the fold reads, without its reason and its zone.\<close>

definition rule_allowed :: "effective_restriction \<Rightarrow> string list" where
  "rule_allowed e = (case e_allowed e of None \<Rightarrow> [] | Some xs \<Rightarrow> xs)"

definition weakensAncestor :: "effective_restriction \<Rightarrow> effective_restriction \<Rightarrow> weakening option" where
  "weakensAncestor own anc =
     (if e_mode anc = RestrictionDenied \<and> e_mode own \<noteq> RestrictionDenied then Some (UnderDenied (e_mode own))
      else if e_mode anc = RestrictionRequired \<and> e_mode own = RestrictionDenied then Some DeniedUnderRequired
      else if e_mode anc = RestrictionRequired \<and> e_mode own = RestrictionLimited then Some LimitedUnderRequired
      else if e_mode own = RestrictionDenied then None
      else if e_max anc \<noteq> [] \<and> e_max own \<noteq> []
        \<and> (case (parse_float (e_max anc), parse_float (e_max own)) of (Some a, Some b) \<Rightarrow> flt a b | _ \<Rightarrow> False)
      then Some (MaxExceeds (e_max own) (e_max anc))
      else if e_max anc \<noteq> [] \<and> e_max own = [] \<and> e_mode own = RestrictionLimited then Some (NoMax (e_max anc))
      else if rule_allowed anc = [] then None
      else let added = filter (\<lambda>v. v \<notin> set (rule_allowed anc)) (rule_allowed own)
           in if added \<noteq> [] then Some (AllowedAdds (sort added))
              else if rule_allowed own = [] \<and> e_mode own = RestrictionLimited then Some (NoAllowedList (rule_allowed anc))
              else None)"

definition declaredRuleFor :: "restricted_zone \<Rightarrow> restriction_axis \<Rightarrow> string \<Rightarrow> effective_restriction option" where
  "declaredRuleFor z axis subject = find (\<lambda>r. e_axis r = axis \<and> e_subject r = subject) (zone_rules z)"

definition restrictionWeakeningErrors :: "restricted_zone \<Rightarrow> restricted_zone list \<Rightarrow> (string \<times> effective_restriction \<times> weakening) list" where
  "restrictionWeakeningErrors z ancestors =
     (if rz_restrictions z = None then []
      else List.map_filter (\<lambda>(anc, a). Option.bind (declaredRuleFor z (e_axis a) (e_subject a)) (\<lambda>own.
             map_option (\<lambda>why. (rz_name anc, a, why)) (weakensAncestor own a)))
           (concat (map (\<lambda>anc. map (\<lambda>a. (anc, a)) (zone_rules anc)) ancestors)))"

subsection \<open>Vocabulary of the specification\<close>

definition rkey :: "effective_restriction \<Rightarrow> string" where
  "rkey e = restrictionKey (e_axis e) (e_subject e)"

text \<open>The bounds the schema admits: none, or a decimal that reads as a finite number.\<close>

definition plain_max :: "string \<Rightarrow> bool" where
  "plain_max m \<longleftrightarrow> m = [] \<or> (\<exists>x. parse_float m = Some (Fin x))"

definition max_covers :: "string \<Rightarrow> string \<Rightarrow> bool" where
  "max_covers m m' \<longleftrightarrow> m' = [] \<or> m \<noteq> [] \<and> (\<exists>x y. parse_float m = Some (Fin x) \<and> parse_float m' = Some (Fin y) \<and> x \<le> y)"

definition allowed_covers :: "string list option \<Rightarrow> string list option \<Rightarrow> bool" where
  "allowed_covers a b \<longleftrightarrow> (\<forall>ys. b = Some ys \<longrightarrow> (\<exists>xs. a = Some xs \<and> set xs \<subseteq> set ys))"

text \<open>A rule is at least as strict as another: it denies, or its mode ranks as high and its bounds are within the other's.\<close>

definition covers :: "effective_restriction \<Rightarrow> effective_restriction \<Rightarrow> bool" where
  "covers e r \<longleftrightarrow> e_mode e = RestrictionDenied
     \<or> modeRank (e_mode r) \<le> modeRank (e_mode e) \<and> max_covers (e_max e) (e_max r) \<and> allowed_covers (e_allowed e) (e_allowed r)"

definition permits_value :: "effective_restriction \<Rightarrow> string \<Rightarrow> bool" where
  "permits_value e v \<longleftrightarrow> (\<forall>xs. e_allowed e = Some xs \<longrightarrow> v \<in> set xs)"

definition entry_inv :: "effective_restriction list \<Rightarrow> effective_restriction \<Rightarrow> bool" where
  "entry_inv qs e \<longleftrightarrow> plain_max (e_max e) \<and> (\<exists>q \<in> set qs. e_mode q = e_mode e)
     \<and> (\<forall>v. (\<forall>q \<in> set qs. permits_value q v) \<longrightarrow> permits_value e v) \<and> (\<forall>q \<in> set qs. covers e q)"

definition fold_inv :: "effective_restriction list \<Rightarrow> fold_state \<Rightarrow> bool" where
  "fold_inv rules s \<longleftrightarrow> distinct (keys (fo_acc s))
     \<and> (\<forall>key e. map_of (fo_acc s) key = Some e \<longrightarrow> rkey e = key \<and> entry_inv (filter (\<lambda>q. rkey q = key) rules) e)
     \<and> (\<forall>q \<in> set rules. map_of (fo_acc s) (rkey q) \<noteq> None)"

definition merged :: "string \<Rightarrow> effective_restriction \<Rightarrow> effective_restriction \<Rightarrow> string \<Rightarrow> string \<Rightarrow> effective_restriction" where
  "merged zone inn cur bound denied =
     merge_denied denied (merge_mode zone inn (snd (merge_bounds zone inn cur bound)) (fst (merge_bounds zone inn cur bound)))"

text \<open>A site whose hall allows two agents, whose aisle allows one of them, and whose bay requires one.\<close>

definition chemical_rule :: "restriction_mode \<Rightarrow> string list \<Rightarrow> operating_restriction" where
  "chemical_rule m vs = \<lparr>op_subject = ''chemical'', op_mode = m, op_max = [], op_allowed = vs, op_reason = []\<rparr>"

definition site_zone :: "string \<Rightarrow> string \<Rightarrow> operating_restriction list \<Rightarrow> restricted_zone" where
  "site_zone n p rs = \<lparr>rz_name = n, rz_parent = p, rz_generation = 1,
     rz_restrictions = Some \<lparr>zs_entry = None, zs_capabilities = [], zs_operating = rs\<rparr>, rz_effective = None, rz_resolved = None\<rparr>"

definition sample_chain :: "restricted_zone list" where
  "sample_chain = [site_zone ''hall'' [] [chemical_rule RestrictionLimited [''quat'', ''soap'']],
     site_zone ''aisle'' ''hall'' [chemical_rule RestrictionLimited [''soap'']],
     site_zone ''bay'' ''aisle'' [chemical_rule RestrictionRequired []]]"

text \<open>What a zone of a chain declares, and that a zone whose projection is trusted carries the resolution of its chain.\<close>

definition zone_denies :: "restricted_zone \<Rightarrow> restriction_axis \<Rightarrow> string \<Rightarrow> bool" where
  "zone_denies z axis subject \<longleftrightarrow> (\<exists>r \<in> set (zone_rules z). e_axis r = axis \<and> e_subject r = subject \<and> e_mode r = RestrictionDenied)"

definition projection_current :: "restricted_zone list \<Rightarrow> bool" where
  "projection_current zones \<longleftrightarrow> (\<forall>z \<in> set zones. unresolvedReason z = [] \<longrightarrow>
     rz_effective z = Some (map stored_rule (fst (resolveZoneRestrictions (fst (ancestorChain (rz_name z) zones))))))"

definition fold_modes :: "effective_restriction list \<Rightarrow> fold_state \<Rightarrow> bool" where
  "fold_modes rules s \<longleftrightarrow> distinct (keys (fo_acc s)) \<and> (\<forall>key e. map_of (fo_acc s) key = Some e \<longrightarrow> rkey e = key)
     \<and> (\<forall>q \<in> set rules. \<exists>e. map_of (fo_acc s) (rkey q) = Some e \<and> modeRank (e_mode q) \<le> modeRank (e_mode e))"

text \<open>A hall with an open aisle and a closed vault, their projections as the Zone Controller writes them.\<close>

definition closed_zone :: "string \<Rightarrow> string \<Rightarrow> bool \<Rightarrow> restricted_zone" where
  "closed_zone n p shut = \<lparr>rz_name = n, rz_parent = p, rz_generation = 1,
     rz_restrictions = (if shut then Some \<lparr>zs_entry = Some \<lparr>en_mode = RestrictionDenied, en_reason = []\<rparr>, zs_capabilities = [], zs_operating = []\<rparr> else None),
     rz_effective = None, rz_resolved = None\<rparr>"

definition sample_floor :: "restricted_zone list" where
  "sample_floor = (let zs = [closed_zone ''hall'' [] False, closed_zone ''aisle'' ''hall'' False, closed_zone ''vault'' ''hall'' True]
     in map (\<lambda>z. snd (reconcileRestrictions zs Map.empty z)) zs)"

text \<open>
  A rule as the schema admits it: bounds only under Limited, an allow-list with a value. \<open>rule_fits\<close> is what
  the check asks of a zone's own rule under an ancestor's: a rule that requires the subject only has not
  to meet a denial, any other is at least as strict and does not deny what the ancestor requires.
\<close>

definition schema_rule :: "effective_restriction \<Rightarrow> bool" where
  "schema_rule r \<longleftrightarrow> plain_max (e_max r) \<and> e_allowed r \<noteq> Some [] \<and> (\<forall>m. e_mode r \<noteq> RestrictionOther m)
     \<and> (e_mode r \<noteq> RestrictionLimited \<longrightarrow> e_max r = [] \<and> e_allowed r = None)"

definition rule_fits :: "effective_restriction \<Rightarrow> effective_restriction \<Rightarrow> bool" where
  "rule_fits own anc \<longleftrightarrow>
     (if e_mode own = RestrictionRequired then e_mode anc \<noteq> RestrictionDenied
      else covers own anc \<and> \<not> (e_mode own = RestrictionDenied \<and> e_mode anc = RestrictionRequired))"

subsection \<open>Lemmas\<close>

lemma restrictionKey_inject [simp]: "restrictionKey a x = restrictionKey b y \<longleftrightarrow> a = b \<and> x = y"
  by (cases a; cases b) (auto simp: restrictionKey_def axis_string_def)

lemma covers_refl: "plain_max (e_max e) \<Longrightarrow> covers e e"
  by (auto simp: covers_def max_covers_def allowed_covers_def plain_max_def)

lemma rank_Denied: "modeRank RestrictionDenied \<le> modeRank m \<longleftrightarrow> m = RestrictionDenied"
  by (cases m) (simp_all add: modeRank_def)

lemma max_covers_trans: "max_covers a b \<Longrightarrow> max_covers b c \<Longrightarrow> max_covers a c"
  by (fastforce simp: max_covers_def)

lemma allowed_covers_trans: "allowed_covers a b \<Longrightarrow> allowed_covers b c \<Longrightarrow> allowed_covers a c"
  by (fastforce simp: allowed_covers_def)

lemma covers_trans: "covers a b \<Longrightarrow> covers b c \<Longrightarrow> covers a c"
  unfolding covers_def using rank_Denied max_covers_trans allowed_covers_trans by (metis le_trans)

lemma tighterMax_covers:
  assumes "plain_max a" "plain_max b"
  shows "plain_max (tighterMax a b)" "max_covers (tighterMax a b) a" "max_covers (tighterMax a b) b"
  using assms by (auto simp: tighterMax_def plain_max_def max_covers_def split: if_splits)

lemma intersectAllowed_covers:
  "allowed_covers (intersectAllowed a b) a" "allowed_covers (intersectAllowed a b) b"
  by (auto simp: intersectAllowed_def allowed_covers_def split: option.splits)

lemma merge_mode_fields [simp]:
  "e_axis (merge_mode z i b c) = e_axis c" "e_subject (merge_mode z i b c) = e_subject c"
  "e_max (merge_mode z i b c) = e_max c" "e_allowed (merge_mode z i b c) = e_allowed c"
  "e_mode (merge_mode z i b c) = (if modeRank (e_mode i) > modeRank (e_mode c) then e_mode i else e_mode c)"
  by (simp_all add: merge_mode_def)

lemma merge_denied_fields [simp]:
  "e_axis (merge_denied d c) = e_axis c" "e_subject (merge_denied d c) = e_subject c" "e_mode (merge_denied d c) = e_mode c"
  "e_max (merge_denied d c) = (if e_mode c = RestrictionDenied then [] else e_max c)"
  "e_allowed (merge_denied d c) = (if e_mode c = RestrictionDenied then None else e_allowed c)"
  by (simp_all add: merge_denied_def Let_def)

lemma merge_bounds_fields [simp]:
  "e_axis (fst (merge_bounds z i c b)) = e_axis c" "e_subject (fst (merge_bounds z i c b)) = e_subject c"
  "e_mode (fst (merge_bounds z i c b)) = e_mode c" "e_max (fst (merge_bounds z i c b)) = tighterMax (e_max c) (e_max i)"
  "e_allowed (fst (merge_bounds z i c b)) = intersectAllowed (e_allowed c) (e_allowed i)"
  by (simp_all add: merge_bounds_def Let_def)

lemma foldRule_acc:
  "fo_acc (foldRule zone inn s) = (case map_of (fo_acc s) (rkey inn) of
     None \<Rightarrow> put (rkey inn) inn (fo_acc s)
   | Some cur \<Rightarrow> put (rkey inn) (merged zone inn cur (go_value (fo_bound s) (rkey inn))
        (go_value (first_seen (e_mode inn = RestrictionDenied) (rkey inn) zone (fo_denied s)) (rkey inn))) (fo_acc s))"
  by (simp add: foldRule_def Let_def merged_def rkey_def split: option.splits prod.splits)

lemma merged_mode: "e_mode (merged z i c b d) = (if modeRank (e_mode i) > modeRank (e_mode c) then e_mode i else e_mode c)"
  by (simp add: merged_def)

lemma merged_covers:
  assumes "plain_max (e_max c)" "plain_max (e_max i)"
  shows "covers (merged z i c b d) c" "covers (merged z i c b d) i" "plain_max (e_max (merged z i c b d))"
  using tighterMax_covers [OF assms] by (auto simp: merged_def covers_def intersectAllowed_covers plain_max_def)

lemma merged_permits: "permits_value c v \<Longrightarrow> permits_value i v \<Longrightarrow> permits_value (merged z i c b d) v"
  by (auto simp: permits_value_def merged_def intersectAllowed_def split: option.splits if_splits)

lemma rkey_merged [simp]: "rkey (merged z i c b d) = rkey c"
  by (simp add: rkey_def merged_def)

lemma entry_inv_merged:
  assumes "entry_inv qs c" "plain_max (e_max i)"
  shows "entry_inv (qs @ [i]) (merged z i c b d)"
proof -
  have c: "plain_max (e_max c)" using assms(1) by (simp add: entry_inv_def)
  show ?thesis
    using assms(1) merged_covers [OF c assms(2), of z b d] covers_trans
    by (auto simp: entry_inv_def merged_mode intro!: merged_permits)
qed

lemma fold_inv_step:
  assumes "fold_inv rules s" "plain_max (e_max r)"
  shows "fold_inv (rules @ [r]) (foldRule z r s)"
proof (cases "map_of (fo_acc s) (rkey r)")
  case None
  then have "filter (\<lambda>q. rkey q = rkey r) rules = []" using assms(1) by (fastforce simp: fold_inv_def filter_empty_conv)
  moreover have "entry_inv [r] r" using assms(2) covers_refl by (simp add: entry_inv_def)
  ultimately show ?thesis using assms(1) None by (auto simp: fold_inv_def foldRule_acc)
next
  case (Some c)
  then have c: "rkey c = rkey r" "entry_inv (filter (\<lambda>q. rkey q = rkey r) rules) c" using assms(1) by (auto simp: fold_inv_def)
  show ?thesis using assms(1) Some c entry_inv_merged [OF c(2) assms(2)] by (auto simp: fold_inv_def foldRule_acc)
qed

lemma fold_inv_fold:
  "(\<And>r. r \<in> set rules \<Longrightarrow> plain_max (e_max r)) \<Longrightarrow> fold_inv rules (fold (\<lambda>e. foldRule (e_from e) e) rules fold_init)"
proof (induction rules rule: rev_induct)
  case Nil
  then show ?case by (simp add: fold_inv_def fold_init_def keys_def)
qed (simp add: fold_inv_step)

lemma emit_fields [simp]: "e_axis (emit w b e) = e_axis e" "e_subject (emit w b e) = e_subject e"
  by (simp_all add: emit_def Let_def)

lemma emit_covers: "plain_max (e_max e) \<Longrightarrow> covers (emit w b e) e"
  using covers_refl by (simp add: emit_def covers_def Let_def)

lemma stored_rule_fields [simp]:
  "e_axis (stored_rule e) = e_axis e" "e_subject (stored_rule e) = e_subject e" "e_mode (stored_rule e) = e_mode e"
  "rkey (stored_rule e) = rkey e"
  by (simp_all add: stored_rule_def rkey_def)

lemma resolved_iff:
  "u \<in> set (fst (resolveZoneRestrictions chain)) \<longleftrightarrow>
     (\<exists>key x. (key, x) \<in> set (fo_acc (fold_chain chain)) \<and> u = emit chain_note (go_value (fo_bound (fold_chain chain)) key) x)"
  by (auto simp: resolveZoneRestrictions_def Let_def image_iff) force

lemma resolved_entry:
  "map_of (fo_acc (fold_chain chain)) key = Some e \<Longrightarrow> \<exists>w b. emit w b e \<in> set (fst (resolveZoneRestrictions chain))"
  unfolding resolved_iff by (blast dest: map_of_SomeD)

lemma fold_never_weaker:
  assumes "r \<in> set rules" "\<forall>q \<in> set rules. plain_max (e_max q) \<and> (\<forall>m. e_mode q \<noteq> RestrictionOther m)"
    and "(\<exists>q \<in> set rules. rkey q = rkey r \<and> e_mode q = RestrictionRequired)
      \<longrightarrow> (\<exists>v. \<forall>q \<in> set rules. rkey q = rkey r \<longrightarrow> permits_value q v)"
  obtains e where "map_of (fo_acc (fold (\<lambda>e. foldRule (e_from e) e) rules fold_init)) (rkey r) = Some e"
    and "rkey e = rkey r" "\<And>w b. covers (stored_rule (emit w b e)) r"
proof -
  let ?s = "fold (\<lambda>e. foldRule (e_from e) e) rules fold_init"
  have inv: "fold_inv rules ?s" using assms(2) by (intro fold_inv_fold) simp
  then obtain e where e: "map_of (fo_acc ?s) (rkey r) = Some e" using assms(1) by (auto simp: fold_inv_def)
  let ?qs = "filter (\<lambda>q. rkey q = rkey r) rules"
  have i: "rkey e = rkey r" "entry_inv ?qs e" using inv e by (auto simp: fold_inv_def)
  have "covers (stored_rule (emit w b e)) r" for w b
  proof (cases "e_allowed (emit w b e) = Some [] \<and> e_mode (emit w b e) \<noteq> RestrictionDenied")
    case True
    then have t: "e_allowed e = Some []" "e_mode e \<noteq> RestrictionLimited" "e_mode e \<noteq> RestrictionDenied"
      by (auto simp: emit_def Let_def split: if_splits)
    obtain q where q: "q \<in> set ?qs" "e_mode q = e_mode e" using i(2) by (auto simp: entry_inv_def)
    then have "e_mode q = RestrictionRequired" using t assms(2) by (cases "e_mode e") auto
    then obtain v where "\<forall>q \<in> set ?qs. permits_value q v" using assms(3) q(1) by auto
    then have "permits_value e v" using i(2) by (simp add: entry_inv_def)
    then show ?thesis using t(1) by (simp add: permits_value_def)
  next
    case False
    have "covers (emit w b e) e" "covers e r" using i assms(1) emit_covers by (auto simp: entry_inv_def)
    then have "covers (emit w b e) r" using covers_trans by blast
    then show ?thesis using False by (auto simp: stored_rule_def covers_def)
  qed
  then show ?thesis using that e i(1) by blast
qed

text \<open>
  Claim C14. The fold never drops a constraint it read. For every rule declared anywhere in a zone's
  chain, what is published for its axis and subject is at least as strict: it denies, or its mode ranks as
  high, its bound is no larger and its allow-list no wider. The bounds are decimals as the schema
  admits them. Where the subject is required by some zone, the allow-lists of the chain must share a
  value.
\<close>

theorem effective_never_weaker:
  assumes "r \<in> set (chain_rules chain)"
    and "\<forall>q \<in> set (chain_rules chain). plain_max (e_max q) \<and> (\<forall>m. e_mode q \<noteq> RestrictionOther m)"
    and "(\<exists>q \<in> set (chain_rules chain). rkey q = rkey r \<and> e_mode q = RestrictionRequired)
      \<longrightarrow> (\<exists>v. \<forall>q \<in> set (chain_rules chain). rkey q = rkey r \<longrightarrow> permits_value q v)"
  shows "\<exists>e \<in> set (map stored_rule (fst (resolveZoneRestrictions chain))).
     e_axis e = e_axis r \<and> e_subject e = e_subject r \<and> covers e r"
proof -
  obtain e where e: "map_of (fo_acc (fold_chain chain)) (rkey r) = Some e" "rkey e = rkey r"
    and c: "\<And>w b. covers (stored_rule (emit w b e)) r"
    using fold_never_weaker [OF assms] unfolding fold_chain_def by blast
  obtain w b where "emit w b e \<in> set (fst (resolveZoneRestrictions chain))" using resolved_entry [OF e(1)] by blast
  then show ?thesis using e(2) c by (intro bexI [of _ "stored_rule (emit w b e)"]) (simp_all add: rkey_def)
qed

text \<open>The same holds of the union over the zones that contain a robot, for every rule in force in one of them.\<close>

lemma union_never_weaker:
  defines "rules \<equiv> \<lambda>zones containing. map stored_rule (concat (List.map_filter (trusted_zone zones) (sort containing)))"
  assumes "r \<in> set (rules zones containing)"
    and "\<forall>q \<in> set (rules zones containing). plain_max (e_max q) \<and> (\<forall>m. e_mode q \<noteq> RestrictionOther m)"
    and "(\<exists>q \<in> set (rules zones containing). rkey q = rkey r \<and> e_mode q = RestrictionRequired)
      \<longrightarrow> (\<exists>v. \<forall>q \<in> set (rules zones containing). rkey q = rkey r \<longrightarrow> permits_value q v)"
  shows "\<exists>e \<in> set (unionEffectiveRestrictions zones containing). e_axis e = e_axis r \<and> e_subject e = e_subject r \<and> covers (stored_rule e) r"
proof -
  let ?s = "fold (\<lambda>e. foldRule (e_from e) e) (rules zones containing) fold_init"
  obtain e where e: "map_of (fo_acc ?s) (rkey r) = Some e" "rkey e = rkey r" and c: "\<And>w b. covers (stored_rule (emit w b e)) r"
    using fold_never_weaker [OF assms(2-)] by blast
  have "?s = fold (\<lambda>e. foldRule (e_from e) (stored_rule e)) (concat (List.map_filter (trusted_zone zones) (sort containing))) fold_init"
    by (simp add: rules_def fold_map o_def stored_rule_def if_distrib cong: if_cong)
  then have "emit union_note (go_value (fo_bound ?s) (rkey r)) e \<in> set (unionEffectiveRestrictions zones containing)"
    using map_of_SomeD [OF e(1)]
    by (force simp: unionEffectiveRestrictions_def unionEffectiveRestrictionsWithUnresolved_def Let_def image_iff)
  then show ?thesis using e(2) c by (intro bexI) (auto simp: rkey_def)
qed

lemma sample_rules: "chain_rules sample_chain =
    map (\<lambda>(n, m, vs). \<lparr>e_axis = ZoneAxisOperating, e_subject = ''chemical'', e_mode = m, e_max = [], e_allowed = vs, e_reason = [], e_from = n\<rparr>)
      [(''hall'', RestrictionLimited, Some [''quat'', ''soap'']), (''aisle'', RestrictionLimited, Some [''soap'']),
       (''bay'', RestrictionRequired, None)]"
  by (simp add: chain_rules_def sample_chain_def zone_rules_def site_zone_def chemical_rule_def)

theorem effective_never_weaker_witness:
  "\<exists>e \<in> set (map stored_rule (fst (resolveZoneRestrictions sample_chain))).
     e_axis e = ZoneAxisOperating \<and> e_subject e = ''chemical'' \<and> covers e (chain_rules sample_chain ! 1)"
  using effective_never_weaker [of "chain_rules sample_chain ! 1" sample_chain]
  by (simp add: sample_rules rkey_def plain_max_def permits_value_def)

text \<open>
  The allow-lists of a chain that share no value are a denial, unless a zone requires the subject: then
  the rule is published as Required with no list, which permits every value.
\<close>

lemma required_loses_allow_list:
  defines "chain \<equiv> [site_zone ''hall'' [] [chemical_rule RestrictionLimited [''quat'']],
     site_zone ''aisle'' ''hall'' [chemical_rule RestrictionLimited [''soap'']],
     site_zone ''bay'' ''aisle'' [chemical_rule RestrictionRequired []]]"
  shows "map (\<lambda>e. (e_mode e, e_allowed e)) (map stored_rule (fst (resolveZoneRestrictions chain))) = [(RestrictionRequired, None)]"
  unfolding chain_def by code_simp

text \<open>An allow-list that is not in order passes to the next zone that declares one, even a wider one.\<close>

lemma wider_list_takes_the_name:
  "map (\<lambda>e. (e_allowed e, e_from e)) (fst (resolveZoneRestrictions
     [site_zone ''hall'' [] [chemical_rule RestrictionLimited [''soap'', ''quat'']],
      site_zone ''aisle'' ''hall'' [chemical_rule RestrictionLimited [''quat'', ''soap'', ''bleach'']]]))
   = [(Some [''quat'', ''soap''], ''aisle'')]"
  by code_simp

lemma fold_modes_step:
  assumes "fold_modes rules s"
  shows "fold_modes (rules @ [r]) (foldRule z r s)"
proof (cases "map_of (fo_acc s) (rkey r)")
  case None
  then have "\<forall>q \<in> set rules. rkey q \<noteq> rkey r" using assms by (fastforce simp: fold_modes_def)
  then show ?thesis using assms None by (auto simp: fold_modes_def foldRule_acc)
next
  case (Some c)
  then have "rkey c = rkey r" using assms by (simp add: fold_modes_def)
  then show ?thesis using assms Some by (fastforce simp: fold_modes_def foldRule_acc merged_mode)
qed

lemma fold_modes_chain: "fold_modes (chain_rules chain) (fold_chain chain)"
proof -
  have "fold_modes rules (fold (\<lambda>e. foldRule (e_from e) e) rules fold_init)" for rules
    by (induction rules rule: rev_induct) (simp_all add: fold_modes_step, simp add: fold_modes_def fold_init_def keys_def)
  then show ?thesis by (simp add: fold_chain_def)
qed

lemma resolved_key_unique:
  assumes "e \<in> set (fst (resolveZoneRestrictions chain))" "e' \<in> set (fst (resolveZoneRestrictions chain))" "rkey e = rkey e'"
  shows "e = e'"
proof -
  have u: "\<exists>x. map_of (fo_acc (fold_chain chain)) (rkey u) = Some x \<and> u = emit chain_note (go_value (fo_bound (fold_chain chain)) (rkey u)) x"
    if m: "u \<in> set (fst (resolveZoneRestrictions chain))" for u
  proof -
    obtain key x where x: "(key, x) \<in> set (fo_acc (fold_chain chain))" "u = emit chain_note (go_value (fo_bound (fold_chain chain)) key) x"
      using m resolved_iff by blast
    then have m: "map_of (fo_acc (fold_chain chain)) key = Some x" using fold_modes_chain by (simp add: fold_modes_def set_map_of)
    then have "rkey x = key" using fold_modes_chain by (simp add: fold_modes_def)
    then have "rkey u = key" using x(2) by (simp add: rkey_def)
    then show ?thesis using x(2) m by blast
  qed
  show ?thesis using u [OF assms(1)] u [OF assms(2)] assms(3) by auto
qed

lemma projected_denial:
  assumes "projection_current zones" "listed_zone zones n = Some z" "unresolvedReason z = []"
    and "a \<in> set (fst (ancestorChain n zones))" "zone_denies a axis subject"
  shows "denies (findEffective z axis subject)"
proof -
  let ?chain = "fst (ancestorChain n zones)"
  have z: "z \<in> set zones" "rz_name z = n"
    using assms(2) by (auto simp: listed_zone_def dest: last_named_name) (auto simp: last_named_def dest: find_Some_D)
  obtain r where r: "r \<in> set (chain_rules ?chain)" "rkey r = restrictionKey axis subject" "e_mode r = RestrictionDenied"
    using assms(4,5) by (auto simp: chain_rules_def zone_denies_def rkey_def)
  obtain e where e: "map_of (fo_acc (fold_chain ?chain)) (rkey r) = Some e" "modeRank (e_mode r) \<le> modeRank (e_mode e)"
    using fold_modes_chain [of ?chain] r(1) by (auto simp: fold_modes_def)
  have d: "e_mode e = RestrictionDenied" using e(2) r(3) rank_Denied by simp
  have k: "rkey e = restrictionKey axis subject" using e(1) r(2) fold_modes_chain [of ?chain] by (simp add: fold_modes_def)
  obtain w b where m: "emit w b e \<in> set (fst (resolveZoneRestrictions ?chain))" using resolved_entry [OF e(1)] by blast
  have eff: "rz_effective z = Some (map stored_rule (fst (resolveZoneRestrictions ?chain)))"
    using assms(1,3) z by (simp add: projection_current_def)
  let ?P = "\<lambda>x. e_axis x = axis \<and> e_subject x = subject"
  have "\<exists>x \<in> set (map stored_rule (fst (resolveZoneRestrictions ?chain))). ?P x"
    using m k by (intro bexI [of _ "stored_rule (emit w b e)"]) (simp_all add: rkey_def)
  then have "find ?P (map stored_rule (fst (resolveZoneRestrictions ?chain))) \<noteq> None" unfolding find_None_iff by blast
  then obtain x where x: "find ?P (map stored_rule (fst (resolveZoneRestrictions ?chain))) = Some x" by blast
  have "x \<in> stored_rule ` set (fst (resolveZoneRestrictions ?chain))" "?P x" using find_Some_D [OF x] by simp_all
  then obtain y where y: "y \<in> set (fst (resolveZoneRestrictions ?chain))" "x = stored_rule y" "?P x" by blast
  then have "rkey y = rkey (emit w b e)" using k by (simp add: rkey_def)
  then have "y = emit w b e" using resolved_key_unique y(1) m by blast
  then have "e_mode x = RestrictionDenied" using y(2) d by (simp add: emit_def)
  then show ?thesis using eff x by (simp add: denies_def findEffective_def)
qed

lemma kept_leaf:
  assumes "projection_current zones" "leaf_fate zones n = LeafKept" "a \<in> set (fst (ancestorChain n zones))"
  shows "\<not> zone_denies a ZoneAxisEntry []"
proof (cases "listed_zone zones n")
  case None
  then show ?thesis using assms(3) by (simp add: ancestorChain_def)
next
  case (Some z)
  then show ?thesis using assms projected_denial [OF assms(1) Some] by (auto simp: leaf_fate_def split: if_splits)
qed

text \<open>
  Claim C38. An action that filter 11 lets through is dispatched into no zone that is denied to robots. With
  the projections current, no zone on the way from the root to a leaf it may use denies entry, no zone on
  the way to its target denies entry or a capability it requires, at least one leaf is left, and every
  leaf of the target that was taken out is named.
\<close>

theorem admitted_action_enters_no_denied_zone:
  assumes "projection_current zones" "evaluateZoneRestrictions action zones = Some v" "\<not> zv_refuse v"
  shows "\<exists>ls. zv_leaves v = Some ls \<and> ls \<noteq> [] \<and> set (resolveZoneLeaves (a_zone action) zones) = set ls \<union> set (zv_narrowed_out v)
    \<and> (\<forall>n \<in> set ls. \<forall>a \<in> set (fst (ancestorChain n zones)). \<not> zone_denies a ZoneAxisEntry [])
    \<and> (\<forall>a \<in> set (fst (ancestorChain (a_zone action) zones)). \<not> zone_denies a ZoneAxisEntry []
         \<and> (\<forall>c \<in> set (a_required action). \<not> zone_denies a ZoneAxisCapability c))"
proof -
  let ?leaves = "resolveZoneLeaves (a_zone action) zones"
  let ?ls = "filter (\<lambda>n. leaf_fate zones n = LeafKept) ?leaves"
  obtain self where self: "listed_zone zones (a_zone action) = Some self" "unresolvedReason self = []"
    and ok: "\<not> denies (findEffective self ZoneAxisEntry [])" "\<forall>c \<in> set (a_required action). \<not> denies (findEffective self ZoneAxisCapability c)"
    and rest: "\<forall>n \<in> set ?leaves. leaf_fate zones n \<noteq> LeafUnresolved" "?ls \<noteq> []" "zv_leaves v = Some ?ls"
      "zv_narrowed_out v = sort (filter (\<lambda>n. leaf_fate zones n = LeafNarrowedOut) ?leaves)"
    using assms(2,3) unfolding evaluateZoneRestrictions_def Let_def
    by (auto simp: refuse_zone_def list_ex_iff split: option.splits if_splits)
  have "leaf_fate zones n = LeafKept \<or> leaf_fate zones n = LeafNarrowedOut" if "n \<in> set ?leaves" for n
    using rest(1) that by (cases "leaf_fate zones n") auto
  then have "set ?leaves = set ?ls \<union> set (zv_narrowed_out v)" using rest(4) by auto
  then show ?thesis
    using rest(2,3) kept_leaf [OF assms(1)] ok projected_denial [OF assms(1) self] by (intro exI [of _ ?ls]) auto
qed

lemma sample_floor_current: "projection_current sample_floor"
  by code_simp

theorem admitted_action_enters_no_denied_zone_witness:
  "projection_current sample_floor
    \<and> (\<exists>v. evaluateZoneRestrictions (sample_action\<lparr>a_zone := ''hall''\<rparr>) sample_floor = Some v \<and> \<not> zv_refuse v \<and> zv_narrowed_out v = [''vault'']
         \<and> (\<exists>ls. zv_leaves v = Some ls \<and> ls \<noteq> []))"
proof -
  obtain v where v: "evaluateZoneRestrictions (sample_action\<lparr>a_zone := ''hall''\<rparr>) sample_floor = Some v" "\<not> zv_refuse v" "zv_narrowed_out v = [''vault'']"
  proof -
    have "map_option (\<lambda>v. (zv_refuse v, zv_narrowed_out v)) (evaluateZoneRestrictions (sample_action\<lparr>a_zone := ''hall''\<rparr>) sample_floor) = Some (False, [''vault''])"
      by code_simp
    then show ?thesis using that by (auto split: option.splits)
  qed
  show ?thesis using sample_floor_current admitted_action_enters_no_denied_zone [OF sample_floor_current v(1,2)] v by blast
qed

lemma allowed_fits:
  assumes "e_allowed own \<noteq> Some []" "e_allowed anc \<noteq> Some []"
  shows "allowed_covers (e_allowed own) (e_allowed anc) \<longleftrightarrow>
    rule_allowed anc = [] \<or> rule_allowed own \<noteq> [] \<and> filter (\<lambda>v. v \<notin> set (rule_allowed anc)) (rule_allowed own) = []"
  using assms by (auto simp: allowed_covers_def rule_allowed_def filter_empty_conv split: option.splits)

lemma weakensAncestor_fits:
  assumes "schema_rule own" "schema_rule anc"
  shows "weakensAncestor own anc = None \<longleftrightarrow> rule_fits own anc"
proof (cases "e_mode own")
  case RestrictionLimited
  have "e_mode anc = RestrictionLimited \<or> e_mode anc = RestrictionDenied \<or> e_mode anc = RestrictionRequired"
    using assms(2) by (cases "e_mode anc") (auto simp: schema_rule_def)
  moreover have "max_covers (e_max own) (e_max anc) \<longleftrightarrow>
      e_max anc = [] \<or> e_max own \<noteq> [] \<and> \<not> (case (parse_float (e_max anc), parse_float (e_max own)) of (Some a, Some b) \<Rightarrow> flt a b | _ \<Rightarrow> False)"
    using assms by (auto simp: max_covers_def schema_rule_def plain_max_def)
  moreover note allowed_fits [of own anc]
  ultimately show ?thesis using assms RestrictionLimited
    by (auto simp: weakensAncestor_def rule_fits_def covers_def modeRank_def Let_def schema_rule_def)
next
  case RestrictionRequired
  then show ?thesis using assms(1) by (auto simp: weakensAncestor_def rule_fits_def schema_rule_def rule_allowed_def Let_def)
next
  case RestrictionDenied
  then show ?thesis using assms by (auto simp: weakensAncestor_def rule_fits_def covers_def)
next
  case (RestrictionOther m)
  then show ?thesis using assms(1) by (simp add: schema_rule_def)
qed

lemma map_filter_Nil: "List.map_filter f xs = [] \<longleftrightarrow> (\<forall>x \<in> set xs. f x = None)"
  by (induction xs) (auto simp: List.map_filter_simps split: option.splits)



end
