(* ===== verification/Geometry.thy ===== *)
theory Geometry
  imports GoStrconv
begin

text \<open>
  Where a robot is (\<^verbatim>\<open>internal/zone\<close>): point in polygon, the arbitration of the current zone, the set of
  containing zones, and the test for a simple polygon (geometry.go, simple_polygon.go). Coordinates are
  \<^verbatim>\<open>float64\<close> values and each operation rounds on its own: the fused operations that some processors
  use are not modelled. A zero has no sign here; no division by zero occurs, so the sign is never seen.
\<close>

subsection \<open>Arithmetic on float64\<close>

definition rounded :: "rat \<Rightarrow> float64" where
  "rounded x = (case round_float64 x of Some v \<Rightarrow> v | None \<Rightarrow> Infinite (x < 0))"

fun fneg :: "float64 \<Rightarrow> float64" where
  "fneg NaN = NaN"
| "fneg (Infinite neg) = Infinite (\<not> neg)"
| "fneg (Fin a) = Fin (- a)"

fun fadd :: "float64 \<Rightarrow> float64 \<Rightarrow> float64" where
  "fadd (Fin a) (Fin b) = rounded (a + b)"
| "fadd (Infinite m) (Infinite n) = (if m = n then Infinite m else NaN)"
| "fadd (Infinite m) (Fin b) = Infinite m"
| "fadd (Fin a) (Infinite n) = Infinite n"
| "fadd _ _ = NaN"

definition fsub :: "float64 \<Rightarrow> float64 \<Rightarrow> float64" where
  "fsub a b = fadd a (fneg b)"

fun fmul :: "float64 \<Rightarrow> float64 \<Rightarrow> float64" where
  "fmul (Fin a) (Fin b) = rounded (a * b)"
| "fmul (Infinite m) (Infinite n) = Infinite (m \<noteq> n)"
| "fmul (Infinite m) (Fin b) = (if b = 0 then NaN else Infinite (m \<noteq> (b < 0)))"
| "fmul (Fin a) (Infinite n) = (if a = 0 then NaN else Infinite (n \<noteq> (a < 0)))"
| "fmul _ _ = NaN"

fun fdiv :: "float64 \<Rightarrow> float64 \<Rightarrow> float64" where
  "fdiv (Fin a) (Fin b) = (if b = 0 then (if a = 0 then NaN else Infinite (a < 0)) else rounded (a / b))"
| "fdiv (Infinite m) (Fin b) = Infinite (m \<noteq> (b < 0))"
| "fdiv (Fin a) (Infinite n) = Fin 0"
| "fdiv _ _ = NaN"

definition fmin :: "float64 \<Rightarrow> float64 \<Rightarrow> float64" where
  "fmin a b = (if a = NaN \<or> b = NaN then NaN else if flt b a then b else a)"

definition fmax :: "float64 \<Rightarrow> float64 \<Rightarrow> float64" where
  "fmax a b = (if a = NaN \<or> b = NaN then NaN else if flt a b then b else a)"

subsection \<open>Containment\<close>

record point =
  px :: float64
  py :: float64

record position =
  pos_x :: float64
  pos_y :: float64
  pos_floor :: int

record candidate =
  ca_name :: string
  ca_floor :: int
  ca_polygon :: "point list"
  ca_leaf :: bool
  ca_depth :: int
  ca_denies_entry :: bool

definition onSegment :: "float64 \<Rightarrow> float64 \<Rightarrow> point \<Rightarrow> point \<Rightarrow> bool" where
  "onSegment x y a b =
     (let cross = fsub (fmul (fsub (px b) (px a)) (fsub y (py a))) (fmul (fsub (py b) (py a)) (fsub x (px a)))
      in feq cross (Fin 0)
         \<and> fle (fmin (px a) (px b)) x \<and> fle x (fmax (px a) (px b)) \<and> fle (fmin (py a) (py b)) y \<and> fle y (fmax (py a) (py b)))"

text \<open>The loop over the edges: the vertex before, the vertices to come, and the parity so far.\<close>

fun ray_from :: "float64 \<Rightarrow> float64 \<Rightarrow> point \<Rightarrow> point list \<Rightarrow> bool \<Rightarrow> bool" where
  "ray_from x y pj [] inside = inside"
| "ray_from x y pj (p # ps) inside =
     (if onSegment x y p pj then True
      else ray_from x y p ps
        (if flt y (py p) \<noteq> flt y (py pj)
           \<and> flt x (fadd (fdiv (fmul (fsub (px pj) (px p)) (fsub y (py p))) (fsub (py pj) (py p))) (px p))
         then \<not> inside else inside))"

definition PointInPolygon :: "float64 \<Rightarrow> float64 \<Rightarrow> point list \<Rightarrow> bool" where
  "PointInPolygon x y poly = (if length poly < 3 then False else ray_from x y (last poly) poly False)"

definition polygonWithin :: "point list \<Rightarrow> point list \<Rightarrow> bool" where
  "polygonWithin inner outer = (list_all (\<lambda>p. PointInPolygon (px p) (py p) outer) inner \<and> inner \<noteq> [])"

definition matches :: "position \<Rightarrow> candidate \<Rightarrow> bool" where
  "matches pos z = (\<not> length (ca_polygon z) < 3 \<and> ca_floor z = pos_floor pos \<and> PointInPolygon (pos_x pos) (pos_y pos) (ca_polygon z))"

definition centroidSqDist :: "candidate \<Rightarrow> position \<Rightarrow> float64" where
  "centroidSqDist z pos =
     (if ca_polygon z = [] then Fin 0
      else let cx = fold (\<lambda>p acc. fadd acc (px p)) (ca_polygon z) (Fin 0);
               cy = fold (\<lambda>p acc. fadd acc (py p)) (ca_polygon z) (Fin 0);
               n = Fin (of_nat (length (ca_polygon z)));
               dx = fsub (fdiv cx n) (pos_x pos); dy = fsub (fdiv cy n) (pos_y pos)
           in fadd (fmul dx dx) (fmul dy dy))"

definition nested_denial :: "candidate list \<Rightarrow> nat \<Rightarrow> bool" where
  "nested_denial leaves i = (ca_denies_entry (leaves ! i)
     \<and> list_ex (\<lambda>j. i \<noteq> j \<and> polygonWithin (ca_polygon (leaves ! i)) (ca_polygon (leaves ! j))) [0 ..< length leaves])"

definition preferNestedDenials :: "candidate list \<Rightarrow> candidate list" where
  "preferNestedDenials leaves =
     (let nested = map ((!) leaves) (filter (nested_denial leaves) [0 ..< length leaves])
      in if nested = [] then leaves else nested)"

text \<open>The two searches keep the first candidate until a later one is better.\<close>

definition nearer :: "position \<Rightarrow> candidate \<Rightarrow> candidate \<Rightarrow> candidate" where
  "nearer pos z best =
     (let d = centroidSqDist z pos; bestDist = centroidSqDist best pos
      in if flt d bestDist \<or> feq d bestDist \<and> ca_name z < ca_name best then z else best)"

definition deeper :: "candidate \<Rightarrow> candidate \<Rightarrow> candidate" where
  "deeper z best = (if ca_depth z > ca_depth best \<or> ca_depth z = ca_depth best \<and> ca_name z < ca_name best then z else best)"

definition DeriveCurrentZone :: "position \<Rightarrow> candidate list \<Rightarrow> string" where
  "DeriveCurrentZone pos zones =
     (let matched = filter (matches pos) zones
      in case matched of
          [] \<Rightarrow> []
        | [z] \<Rightarrow> ca_name z
        | m # ms \<Rightarrow>
            (case filter ca_leaf matched of
               [] \<Rightarrow> ca_name (fold deeper ms m)
             | leaves \<Rightarrow> (case preferNestedDenials leaves of
                 [] \<Rightarrow> []
               | l # ls \<Rightarrow> ca_name (fold (nearer pos) ls l))))"

definition DeriveContainingZones :: "position \<Rightarrow> candidate list \<Rightarrow> string list" where
  "DeriveContainingZones pos zones = sort (map ca_name (filter (matches pos) zones))"

subsection \<open>Simple polygons\<close>

definition edgesAdjacent :: "nat \<Rightarrow> nat \<Rightarrow> nat \<Rightarrow> bool" where
  "edgesAdjacent i j n = (j = i + 1 \<or> i = 0 \<and> j = n - 1)"

definition orientation :: "point \<Rightarrow> point \<Rightarrow> point \<Rightarrow> float64" where
  "orientation p q r = fsub (fmul (fsub (px q) (px p)) (fsub (py r) (py p))) (fmul (fsub (py q) (py p)) (fsub (px r) (px p)))"

definition segmentsIntersect :: "point \<Rightarrow> point \<Rightarrow> point \<Rightarrow> point \<Rightarrow> bool" where
  "segmentsIntersect a1 a2 b1 b2 =
     (let d1 = orientation b1 b2 a1; d2 = orientation b1 b2 a2; d3 = orientation a1 a2 b1; d4 = orientation a1 a2 b2;
          pos = flt (Fin 0); neg = (\<lambda>d. flt d (Fin 0)); zero = (\<lambda>d. feq d (Fin 0))
      in (pos d1 \<and> neg d2 \<or> neg d1 \<and> pos d2) \<and> (pos d3 \<and> neg d4 \<or> neg d3 \<and> pos d4)
         \<or> zero d1 \<and> onSegment (px a1) (py a1) b1 b2
         \<or> zero d2 \<and> onSegment (px a2) (py a2) b1 b2
         \<or> zero d3 \<and> onSegment (px b1) (py b1) a1 a2
         \<or> zero d4 \<and> onSegment (px b2) (py b2) a1 a2)"

definition SelfIntersects :: "point list \<Rightarrow> bool" where
  "SelfIntersects poly =
     (let n = length poly
      in if n < 4 then False
         else list_ex (\<lambda>i. list_ex (\<lambda>j. \<not> edgesAdjacent i j n
                \<and> segmentsIntersect (poly ! i) (poly ! ((i + 1) mod n)) (poly ! j) (poly ! ((j + 1) mod n)))
              [i + 1 ..< n]) [0 ..< n])"

subsection \<open>Vocabulary of the specification\<close>

text \<open>
  The zone the arbitration settles on, by the sets alone: among the matched leaves the denials nested in
  another matched leaf, if any, by distance and name; without a leaf, by depth and name.
\<close>

definition nested_in :: "candidate set \<Rightarrow> candidate set" where
  "nested_in L = {d \<in> L. ca_denies_entry d \<and> (\<exists>z \<in> L. z \<noteq> d \<and> polygonWithin (ca_polygon d) (ca_polygon z))}"

definition closer :: "position \<Rightarrow> candidate \<Rightarrow> candidate \<Rightarrow> bool" where
  "closer pos z y \<longleftrightarrow> flt (centroidSqDist z pos) (centroidSqDist y pos)
     \<or> feq (centroidSqDist z pos) (centroidSqDist y pos) \<and> ca_name z < ca_name y"

definition deeper_than :: "candidate \<Rightarrow> candidate \<Rightarrow> bool" where
  "deeper_than z y \<longleftrightarrow> ca_depth z > ca_depth y \<or> ca_depth z = ca_depth y \<and> ca_name z < ca_name y"

definition arbitrated :: "position \<Rightarrow> candidate set \<Rightarrow> candidate \<Rightarrow> bool" where
  "arbitrated pos M c \<longleftrightarrow>
     (let L = {z \<in> M. ca_leaf z}; N = nested_in L
      in if L = {} then c \<in> M \<and> (\<forall>y \<in> M. y = c \<or> deeper_than c y)
         else if N = {} then c \<in> L \<and> (\<forall>y \<in> L. y = c \<or> closer pos c y)
         else c \<in> N \<and> (\<forall>y \<in> N. y = c \<or> closer pos c y))"

definition measured :: "position \<Rightarrow> candidate list \<Rightarrow> bool" where
  "measured pos zones \<longleftrightarrow> distinct (map ca_name zones) \<and> (\<forall>z \<in> set zones. matches pos z \<longrightarrow> centroidSqDist z pos \<noteq> NaN)"

text \<open>An open hall, a closed vault cut out of it, and a robot in the vault, at the middle of the hall.\<close>

definition square :: "int \<Rightarrow> int \<Rightarrow> int \<Rightarrow> point list" where
  "square x y w = map (\<lambda>(a, b). \<lparr>px = Fin (of_int a), py = Fin (of_int b)\<rparr>) [(x, y), (x + w, y), (x + w, y + w), (x, y + w)]"

definition sample_hall :: candidate where
  "sample_hall = \<lparr>ca_name = ''hall'', ca_floor = 0, ca_polygon = square 0 0 8, ca_leaf = True, ca_depth = 1, ca_denies_entry = False\<rparr>"

definition sample_vault :: candidate where
  "sample_vault = \<lparr>ca_name = ''vault'', ca_floor = 0, ca_polygon = square 3 3 4, ca_leaf = True, ca_depth = 1, ca_denies_entry = True\<rparr>"

definition sample_spot :: position where
  "sample_spot = \<lparr>pos_x = Fin 4, pos_y = Fin 4, pos_floor = 0\<rparr>"

subsection \<open>Lemmas\<close>

lemma fold_best:
  assumes tr: "\<And>a b c. lt a b \<Longrightarrow> lt b c \<Longrightarrow> lt a c"
    and tot: "\<And>a b. a \<in> A \<Longrightarrow> b \<in> A \<Longrightarrow> a = b \<or> lt a b \<or> lt b a"
    and f: "\<And>z b. f z b = (if lt z b then z else b)"
  shows "set (x # xs) \<subseteq> A \<Longrightarrow> fold f xs x \<in> set (x # xs) \<and> (\<forall>y \<in> set (x # xs). y = fold f xs x \<or> lt (fold f xs x) y)"
proof (induction xs arbitrary: x)
  case (Cons z zs)
  define b where "b = f z x"
  have b: "b \<in> {x, z}" "\<forall>y \<in> {x, z}. y = b \<or> lt b y" using Cons.prems tot [of x z] by (auto simp: b_def f)
  have sub: "set (b # zs) \<subseteq> A" using b(1) Cons.prems by auto
  note ih = Cons.IH [OF sub]
  have "y = fold f zs b \<or> lt (fold f zs b) y" if y: "y \<in> {x, z}" for y
  proof (cases "y = b")
    case True
    then show ?thesis using ih by simp
  next
    case False
    then have "lt b y" using b(2) y by blast
    moreover have "b = fold f zs b \<or> lt (fold f zs b) b" using ih by simp
    ultimately show ?thesis using tr by metis
  qed
  then show ?case using ih b(1) by (auto simp: b_def)
qed simp

lemma flt_total: "a \<noteq> NaN \<Longrightarrow> b \<noteq> NaN \<Longrightarrow> flt a b \<or> feq a b \<or> flt b a"
  by (cases a; cases b) (auto simp: feq_def)

lemma closer_trans: "closer pos a b \<Longrightarrow> closer pos b c \<Longrightarrow> closer pos a c"
  unfolding closer_def feq_def using flt_trans by (metis order_less_trans)

lemma closer_asym: "closer pos a b \<Longrightarrow> \<not> closer pos b a"
  unfolding closer_def feq_def using flt_trans flt_irrefl by (metis order_less_asym)

lemma closer_total:
  assumes "measured pos zones" "a \<in> set zones" "b \<in> set zones" "matches pos a" "matches pos b"
  shows "a = b \<or> closer pos a b \<or> closer pos b a"
proof (cases "a = b")
  case False
  then have "ca_name a \<noteq> ca_name b" using assms(1-3) by (auto simp: measured_def distinct_map inj_on_def)
  then show ?thesis using flt_total [of "centroidSqDist a pos" "centroidSqDist b pos"] assms
    by (auto simp: closer_def measured_def feq_def)
qed simp

lemma nested_denial_iff:
  assumes "distinct leaves" "i < length leaves"
  shows "nested_denial leaves i \<longleftrightarrow> leaves ! i \<in> nested_in (set leaves)"
proof -
  have "(\<exists>j < length leaves. i \<noteq> j \<and> polygonWithin (ca_polygon (leaves ! i)) (ca_polygon (leaves ! j)))
      \<longleftrightarrow> (\<exists>z \<in> set leaves. z \<noteq> leaves ! i \<and> polygonWithin (ca_polygon (leaves ! i)) (ca_polygon z))" (is "?l \<longleftrightarrow> ?r")
  proof
    assume ?l
    then obtain j where "j < length leaves" "i \<noteq> j" "polygonWithin (ca_polygon (leaves ! i)) (ca_polygon (leaves ! j))" by blast
    then show ?r using assms by (intro bexI [of _ "leaves ! j"]) (auto simp: nth_eq_iff_index_eq)
  next
    assume ?r
    then obtain z where "z \<in> set leaves" "z \<noteq> leaves ! i" "polygonWithin (ca_polygon (leaves ! i)) (ca_polygon z)" by blast
    then show ?l by (auto simp: in_set_conv_nth)
  qed
  then show ?thesis using assms(2) by (simp add: nested_denial_def nested_in_def list_ex_iff Bex_def)
qed

lemma nested_list:
  assumes "distinct leaves"
  shows "set (map ((!) leaves) (filter (nested_denial leaves) [0 ..< length leaves])) = nested_in (set leaves)"
proof -
  have "set (map ((!) leaves) (filter (nested_denial leaves) [0 ..< length leaves])) = {leaves ! i | i. i < length leaves \<and> leaves ! i \<in> nested_in (set leaves)}"
    using nested_denial_iff [OF assms] by auto
  also have "\<dots> = nested_in (set leaves)" by (auto simp: nested_in_def in_set_conv_nth)
  finally show ?thesis .
qed

lemma deeper_than_trans: "deeper_than a b \<Longrightarrow> deeper_than b c \<Longrightarrow> deeper_than a c"
  by (auto simp: deeper_than_def)

lemma deeper_than_asym: "deeper_than a b \<Longrightarrow> \<not> deeper_than b a"
  by (auto simp: deeper_than_def)

lemma deeper_than_total:
  assumes "distinct (map ca_name zones)" "a \<in> set zones" "b \<in> set zones"
  shows "a = b \<or> deeper_than a b \<or> deeper_than b a"
proof (cases "a = b")
  case False
  then have "ca_name a \<noteq> ca_name b" using assms by (auto simp: distinct_map inj_on_def)
  then show ?thesis using linorder_less_linear [of "ca_name a" "ca_name b"] by (auto simp: deeper_than_def)
qed simp

lemma nearest_chosen:
  assumes "measured pos zones" "set (l # ls) \<subseteq> set (filter (matches pos) zones)"
  shows "fold (nearer pos) ls l \<in> set (l # ls) \<and> (\<forall>y \<in> set (l # ls). y = fold (nearer pos) ls l \<or> closer pos (fold (nearer pos) ls l) y)"
proof -
  have tot: "a = b \<or> closer pos a b \<or> closer pos b a" if "a \<in> set (filter (matches pos) zones)" "b \<in> set (filter (matches pos) zones)" for a b
    using that closer_total [OF assms(1)] by simp
  have f: "nearer pos z b = (if closer pos z b then z else b)" for z b by (simp add: nearer_def closer_def Let_def)
  show ?thesis using assms(2) by (intro fold_best [OF closer_trans tot f])
qed

lemma deepest_chosen:
  assumes "distinct (map ca_name zones)" "set (m # ms) \<subseteq> set zones"
  shows "fold deeper ms m \<in> set (m # ms) \<and> (\<forall>y \<in> set (m # ms). y = fold deeper ms m \<or> deeper_than (fold deeper ms m) y)"
proof -
  have f: "deeper z b = (if deeper_than z b then z else b)" for z b by (simp add: deeper_def deeper_than_def)
  show ?thesis using assms(2) by (intro fold_best [OF deeper_than_trans deeper_than_total [OF assms(1)] f])
qed

lemma preferred_set:
  assumes "distinct leaves"
  shows "set (preferNestedDenials leaves) = (if nested_in (set leaves) = {} then set leaves else nested_in (set leaves))"
proof -
  define N where "N = map ((!) leaves) (filter (nested_denial leaves) [0 ..< length leaves])"
  have "set N = nested_in (set leaves)" unfolding N_def by (rule nested_list [OF assms])
  then show ?thesis unfolding preferNestedDenials_def Let_def N_def [symmetric] by (cases N) auto
qed

lemma arbitrated_single: "arbitrated pos {z} z"
  by (auto simp: arbitrated_def Let_def nested_in_def)

lemma arbitrated_leaf:
  "L = {z \<in> M. ca_leaf z} \<Longrightarrow> L \<noteq> {} \<Longrightarrow> S = (if nested_in L = {} then L else nested_in L) \<Longrightarrow> c \<in> S
    \<Longrightarrow> \<forall>y \<in> S. y = c \<or> closer pos c y \<Longrightarrow> arbitrated pos M c"
  by (auto simp: arbitrated_def Let_def split: if_splits)

lemma current_zone_arbitrated:
  assumes "measured pos zones" "filter (matches pos) zones \<noteq> []"
  obtains c where "arbitrated pos (set (filter (matches pos) zones)) c" "DeriveCurrentZone pos zones = ca_name c"
proof -
  let ?M = "filter (matches pos) zones" and ?L = "filter ca_leaf (filter (matches pos) zones)"
  have dn: "distinct (map ca_name zones)" "distinct ?L" using assms(1) by (auto simp: measured_def distinct_map)
  have L: "set ?L = {z \<in> set ?M. ca_leaf z}" by auto
  obtain m ms where M: "?M = m # ms" using assms(2) by (cases ?M) auto
  show ?thesis
  proof (cases "ms = []")
    case True
    then show ?thesis using that [of m] M arbitrated_single by (simp add: DeriveCurrentZone_def)
  next
    case False
    show ?thesis
    proof (cases ?L)
      case Nil
      have "fold deeper ms m \<in> set ?M \<and> (\<forall>y \<in> set ?M. y = fold deeper ms m \<or> deeper_than (fold deeper ms m) y)"
        using deepest_chosen [OF dn(1), of m ms] M by (metis filter_is_subset)
      then show ?thesis using that [of "fold deeper ms m"] False M Nil L
        by (cases ms) (simp_all add: DeriveCurrentZone_def arbitrated_def Let_def)
    next
      case (Cons l ls)
      let ?P = "preferNestedDenials ?L"
      note P = preferred_set [OF dn(2)]
      have "?L \<noteq> []" using Cons by simp
      then have "?P \<noteq> []" using P by (metis set_empty)
      then obtain p ps where p: "?P = p # ps" by (cases ?P) auto
      have sub: "set (p # ps) \<subseteq> set ?M" using P p by (auto simp: nested_in_def split: if_splits)
      note n = nearest_chosen [OF assms(1) sub]
      have "DeriveCurrentZone pos zones = ca_name (fold (nearer pos) ps p)"
        using False M Cons p by (cases ms) (simp_all add: DeriveCurrentZone_def)
      moreover have "set ?L \<noteq> {}" using Cons by simp
      then have "arbitrated pos (set ?M) (fold (nearer pos) ps p)"
        using n P unfolding p by (intro arbitrated_leaf [OF L, of "set (p # ps)"]) blast+
      ultimately show ?thesis using that by blast
    qed
  qed
qed

lemma best_unique:
  assumes "\<And>a b. lt a b \<Longrightarrow> \<not> lt b a" "c \<in> S" "\<forall>y \<in> S. y = c \<or> lt c y" "d \<in> S" "\<forall>y \<in> S. y = d \<or> lt d y"
  shows "c = d"
  using assms by metis

lemma arbitrated_unique:
  assumes "arbitrated pos M c" "arbitrated pos M d"
  shows "c = d"
proof -
  let ?L = "{z \<in> M. ca_leaf z}"
  consider "?L = {}" | "?L \<noteq> {}" "nested_in ?L = {}" | "?L \<noteq> {}" "nested_in ?L \<noteq> {}" by blast
  then show ?thesis
  proof cases
    case 1
    then show ?thesis using assms best_unique [of deeper_than c M d, OF deeper_than_asym] unfolding arbitrated_def Let_def by metis
  next
    case 2
    then show ?thesis using assms best_unique [of "closer pos" c ?L d, OF closer_asym] unfolding arbitrated_def Let_def by metis
  next
    case 3
    then show ?thesis using assms best_unique [of "closer pos" c "nested_in ?L" d, OF closer_asym] unfolding arbitrated_def Let_def by metis
  qed
qed

text \<open>
  Claim C40. The current zone does not depend on the order in which the zones are read: any order of the same
  zones, with distinct names and measurable distances, gives the same zone, and the containing zones
  are the same list.
\<close>

theorem current_zone_order_independent:
  assumes "mset zones' = mset zones" "measured pos zones"
  shows "DeriveCurrentZone pos zones' = DeriveCurrentZone pos zones \<and> DeriveContainingZones pos zones' = DeriveContainingZones pos zones"
proof -
  have sets: "set zones' = set zones" using assms(1) by (metis set_mset_mset)
  have "mset (map ca_name zones') = mset (map ca_name zones)" using assms(1) by simp
  then have m': "measured pos zones'" using assms(2) sets unfolding measured_def by (metis mset_eq_imp_distinct_iff)
  have f: "mset (filter (matches pos) zones') = mset (filter (matches pos) zones)" using assms(1) by (simp add: mset_filter)
  have "DeriveCurrentZone pos zones' = DeriveCurrentZone pos zones"
  proof (cases "filter (matches pos) zones = []")
    case True
    then show ?thesis using f by (simp add: DeriveCurrentZone_def)
  next
    case False
    then have "filter (matches pos) zones' \<noteq> []" using f by (metis mset_zero_iff)
    then obtain c d where "arbitrated pos (set (filter (matches pos) zones)) c" "DeriveCurrentZone pos zones = ca_name c"
      and "arbitrated pos (set (filter (matches pos) zones')) d" "DeriveCurrentZone pos zones' = ca_name d"
      using current_zone_arbitrated [OF assms(2) False] current_zone_arbitrated [OF m'] by metis
    moreover have "set (filter (matches pos) zones') = set (filter (matches pos) zones)" using sets by simp
    ultimately show ?thesis using arbitrated_unique by metis
  qed
  moreover have "DeriveContainingZones pos zones' = DeriveContainingZones pos zones"
    unfolding DeriveContainingZones_def using f by (intro properties_for_sort) simp_all
  ultimately show ?thesis ..
qed

text \<open>
  Claim C15. A closed zone cut out of an open one wins where they overlap. When the position lies in a leaf that
  denies entry and that lies within another leaf containing the position, the current zone is such a
  closed leaf, however near the middle of the open one the robot is; and the current zone is always one
  of the containing zones.
\<close>

theorem nested_exclusion_wins:
  assumes "measured pos zones" "d \<in> set zones" "z \<in> set zones" "d \<noteq> z" "matches pos d" "matches pos z" "ca_leaf d" "ca_leaf z"
    and "ca_denies_entry d" "polygonWithin (ca_polygon d) (ca_polygon z)"
  shows "\<exists>c \<in> set zones. matches pos c \<and> ca_leaf c \<and> ca_denies_entry c \<and> DeriveCurrentZone pos zones = ca_name c
    \<and> ca_name c \<in> set (DeriveContainingZones pos zones)"
proof -
  let ?M = "filter (matches pos) zones"
  have "?M \<noteq> []" using assms(2,5) by (auto simp: filter_empty_conv)
  then obtain c where c: "arbitrated pos (set ?M) c" "DeriveCurrentZone pos zones = ca_name c"
    using current_zone_arbitrated [OF assms(1)] by blast
  have "d \<in> nested_in {y \<in> set ?M. ca_leaf y}" using assms(2-) by (auto simp: nested_in_def)
  then have "c \<in> nested_in {y \<in> set ?M. ca_leaf y}" using c(1) by (auto simp: arbitrated_def Let_def nested_in_def split: if_splits)
  then show ?thesis using c(2) by (intro bexI [of _ c]) (auto simp: nested_in_def DeriveContainingZones_def)
qed

lemma bit_length_bound: "n < 2 ^ m \<Longrightarrow> bit_length n \<le> m"
proof (induction m arbitrary: n)
  case 0
  then show ?case by (simp add: bit_length.simps)
next
  case (Suc m)
  then have "n div 2 < 2 ^ m" by simp
  then show ?case using Suc.IH by (subst bit_length.simps) simp
qed

lemma bit_length_1: "bit_length (Suc 0) = 1"
  by (subst bit_length.simps) (simp add: bit_length.simps [of 0])

lemma top_exp_int: "0 < n \<Longrightarrow> n < 2 ^ 53 \<Longrightarrow> top_exp (of_nat n) \<le> 52"
proof -
  assume n: "0 < n" "n < 2 ^ 53"
  have q: "quotient_of (of_nat n) = (int n, 1)" using quotient_of_int [of "int n"] by simp
  show ?thesis using bit_length_bound [OF n(2)] by (simp add: top_exp_def q bit_length_1 Let_def)
qed

lemma round_even_int: "round_even (of_int k) = k"
  by (simp add: round_even_def Let_def)

lemma pow2_le: "e \<le> 0 \<Longrightarrow> of_nat n / pow2 e = of_int (int n * 2 ^ nat (- e))"
  by (cases "e = 0") (simp_all add: pow2_def)

lemma round_float64_nat:
  assumes "0 < n" "n < 2 ^ 53"
  shows "round_float64 (of_nat n) = Some (Fin (of_nat n))" "round_float64 (- of_nat n) = Some (Fin (- of_nat n))"
proof -
  define e where "e = max (top_exp (of_nat n) - 52) (- 1074)"
  have e: "e \<le> 0" using top_exp_int [OF assms] by (simp add: e_def)
  have p: "pow2 e \<noteq> 0" by (simp add: pow2_def)
  have v: "of_int (round_even (of_nat n / pow2 e)) * pow2 e = (of_nat n :: rat)"
    unfolding pow2_le [OF e] round_even_int unfolding pow2_le [OF e, symmetric] using p by simp
  have "(of_nat n :: rat) < 2 ^ 53" using assms(2) by (metis of_nat_less_iff of_nat_numeral of_nat_power)
  also have "(2 :: rat) ^ 53 \<le> 2 ^ 1024" by (rule power_increasing) simp_all
  also have "\<dots> = pow2 1024" by (simp only: pow2_def) simp
  finally have "\<not> pow2 1024 \<le> (of_nat n :: rat)" by simp
  then show "round_float64 (of_nat n) = Some (Fin (of_nat n))" "round_float64 (- of_nat n) = Some (Fin (- of_nat n))"
    using assms(1) v by (simp_all add: round_float64_def Let_def e_def [symmetric])
qed

text \<open>An integer below two to the 53 is a \<^verbatim>\<open>float64\<close> and rounding keeps it.\<close>

lemma rounded_numeral [simp]:
  "numeral k < (2 :: nat) ^ 53 \<Longrightarrow> rounded (numeral k) = Fin (numeral k)"
  "numeral k < (2 :: nat) ^ 53 \<Longrightarrow> rounded (- numeral k) = Fin (- numeral k)"
  "rounded 0 = Fin 0" "rounded 1 = Fin 1" "rounded (- 1) = Fin (- 1)"
  using round_float64_nat [of "numeral k"] round_float64_nat [of 1]
  by (simp_all add: rounded_def) (simp add: round_float64_def)

lemmas sample_defs = sample_hall_def sample_vault_def sample_spot_def square_def

lemma sample_inside: "matches sample_spot sample_hall" "matches sample_spot sample_vault"
  by (simp_all add: sample_defs matches_def PointInPolygon_def onSegment_def fsub_def fmin_def fmax_def fle_def feq_def Let_def)

lemma sample_within: "polygonWithin (ca_polygon sample_vault) (ca_polygon sample_hall)"
  by (simp add: sample_defs polygonWithin_def PointInPolygon_def onSegment_def fsub_def fmin_def fmax_def fle_def feq_def Let_def)

lemma sample_measured: "measured sample_spot [sample_hall, sample_vault]"
  by (simp add: measured_def sample_defs centroidSqDist_def fsub_def Let_def)

theorem current_zone_order_independent_witness:
  "measured sample_spot [sample_hall, sample_vault]
    \<and> DeriveCurrentZone sample_spot [sample_vault, sample_hall] = DeriveCurrentZone sample_spot [sample_hall, sample_vault]"
  using current_zone_order_independent [OF _ sample_measured, of "[sample_vault, sample_hall]"] sample_measured by (simp add: add_mset_commute)

lemma sample_zones:
  "ca_leaf sample_vault" "ca_leaf sample_hall" "ca_denies_entry sample_vault" "\<not> ca_denies_entry sample_hall" "ca_name sample_vault = ''vault''"
  "sample_vault \<noteq> sample_hall" "sample_vault \<in> set [sample_hall, sample_vault]" "sample_hall \<in> set [sample_hall, sample_vault]"
  by (simp_all add: sample_hall_def sample_vault_def)

theorem nested_exclusion_wins_witness:
  "ca_denies_entry sample_vault \<and> \<not> ca_denies_entry sample_hall
    \<and> DeriveCurrentZone sample_spot [sample_hall, sample_vault] = ''vault''"
proof -
  obtain c where "c \<in> set [sample_hall, sample_vault]" "ca_denies_entry c" "DeriveCurrentZone sample_spot [sample_hall, sample_vault] = ca_name c"
    using nested_exclusion_wins [OF sample_measured sample_zones(7,8,6) sample_inside(2,1) sample_zones(1-3) sample_within] by blast
  moreover from this have "c = sample_vault" using sample_zones(4) by auto
  ultimately show ?thesis using sample_zones(3-5) by simp
qed

end
