(* ===== verification/Admission.thy ===== *)
theory Admission
  imports StopState Guard Restrictions Geometry
begin

text \<open>
  The admission webhooks that keep an emergency stop in force (\<^verbatim>\<open>internal/webhook\<close>): the guards of the
  stop's annotations and finalizer, the FleetZone validator, the guard of robots/status, and the guards
  of the deletes of a Robot, a FleetZone, a SwarmadaConfig and a FleetAction.

  An admission request is decided from the objects in it and from what the API server answers while it
  is decided; \<open>admission_env\<close> holds those answers. A decision is \<open>None\<close> when the request is admitted, or
  the kind of the error that refuses it; the text of a refusal is left out. The SubjectAccessReview
  is a parameter, since the API server answers it.
\<close>

subsection \<open>What a decision reads\<close>

record user_info =
  ui_username :: string
  ui_groups :: "string list"

datatype group_resource = RobotGR | FleetZoneGR | SwarmadaConfigGR | FleetTaskGR

datatype api_error = Forbidden | Invalid | InternalError | PlainError

type_synonym authorizer = "user_info \<Rightarrow> string \<Rightarrow> group_resource \<Rightarrow> string \<Rightarrow> string \<Rightarrow> bool option"

text \<open>
  \<open>ad_principal\<close> is the manager's own ServiceAccount, \<open>ad_request\<close> the user of the admission request,
  \<open>ad_reader\<close> whether the uncached reader is configured, \<open>ad_namespace\<close> the deletion timestamp of the
  namespace. The restrictions and the polygon of a zone are fields the zone's record leaves out.
\<close>

record admission_env =
  ad_principal :: "string option"
  ad_request :: "user_info option"
  ad_authz :: "authorizer option"
  ad_reader :: bool
  ad_namespace :: "time option api_read"
  ad_zones :: "fleet_zone list option"
  ad_zone :: "string \<Rightarrow> fleet_zone api_read"
  ad_configs :: "swarmada_config list option"
  ad_robots :: "robot list option"
  ad_actions :: "fleet_action list option"
  ad_action :: "string \<Rightarrow> fleet_action api_read"
  ad_now :: time
  ad_restrictions :: "fleet_zone \<Rightarrow> zone_restrictions option"
  ad_polygon :: "fleet_zone \<Rightarrow> point list option"

definition estopTriggerVerb :: string where "estopTriggerVerb = ''estop-trigger''"
definition estopClearVerb :: string where "estopClearVerb = ''estop-clear''"
definition AnnEstopActor :: string where "AnnEstopActor = ''swarmada.io/estop-actor''"
definition EstopResumeAnnotation :: string where "EstopResumeAnnotation = ''swarmada.io/estop-resume''"
definition EstopResumeProcessedAnnotation :: string where "EstopResumeProcessedAnnotation = ''swarmada.io/estop-resume-processed''"
definition EstopResumeClaimedAnnotation :: string where "EstopResumeClaimedAnnotation = ''swarmada.io/estop-resume-claimed''"
definition StopFinalizer :: string where "StopFinalizer = ''swarmada.io/estop-in-force''"

subsection \<open>Identities\<close>

definition serviceAccountUserPrefix :: string where "serviceAccountUserPrefix = ''system:serviceaccount:''"
definition serviceAccountsGroup :: string where "serviceAccountsGroup = ''system:serviceaccounts''"

definition isServiceAccountUsername :: "string \<Rightarrow> bool" where
  "isServiceAccountUsername u = (case cut_prefix serviceAccountUserPrefix u of
     None \<Rightarrow> False
   | Some rest \<Rightarrow>
       (let ns = takeWhile (\<lambda>c. c \<noteq> CHR '':'') rest; sa = drop (length ns) rest
        in sa \<noteq> [] \<and> ns \<noteq> [] \<and> tl sa \<noteq> [] \<and> CHR '':'' \<notin> set (tl sa)))"

definition SetControllerPrincipal :: "string \<Rightarrow> string option \<Rightarrow> bool \<times> string option" where
  "SetControllerPrincipal u p = (if isServiceAccountUsername u then (True, Some u) else (False, p))"

definition isControllerServiceAccount :: "admission_env \<Rightarrow> string \<Rightarrow> bool" where
  "isControllerServiceAccount env u = (ad_principal env = Some u)"

definition isServiceAccountPrincipal :: "string \<Rightarrow> string list \<Rightarrow> bool" where
  "isServiceAccountPrincipal u groups = (cut_prefix serviceAccountUserPrefix u \<noteq> None \<or> serviceAccountsGroup \<in> set groups)"

definition isGarbageCollector :: "string \<Rightarrow> bool" where
  "isGarbageCollector u =
     (u = ''system:serviceaccount:kube-system:generic-garbage-collector'' \<or> u = ''system:kube-controller-manager'')"

definition by_controller :: "admission_env \<Rightarrow> bool" where
  "by_controller env = (case ad_request env of None \<Rightarrow> False | Some u \<Rightarrow> isControllerServiceAccount env (ui_username u))"

definition namespaceTerminating :: "admission_env \<Rightarrow> api_error + bool" where
  "namespaceTerminating env = (case ad_namespace env of
     ReadFailed \<Rightarrow> Inl PlainError
   | NotFound \<Rightarrow> Inr False
   | Found ts \<Rightarrow> Inr (ts \<noteq> None))"

text \<open>What every refusal does last: admit in a namespace that is being deleted, and refuse elsewhere.\<close>

definition unless_terminating :: "admission_env \<Rightarrow> api_error option \<Rightarrow> api_error option" where
  "unless_terminating env refusal = (case namespaceTerminating env of
     Inl err \<Rightarrow> Some err
   | Inr terminating \<Rightarrow> if terminating then None else refusal)"

subsection \<open>The guards of the stop's metadata\<close>

definition GuardEstopProcessedMarker :: "admission_env \<Rightarrow> (string \<rightharpoonup> string) \<Rightarrow> (string \<rightharpoonup> string) \<Rightarrow> api_error option" where
  "GuardEstopProcessedMarker env old new =
     (if old ProcessedAnnotation = new ProcessedAnnotation \<or> by_controller env then None else Some Forbidden)"

definition anyAnnotationChanged :: "(string \<rightharpoonup> string) \<Rightarrow> (string \<rightharpoonup> string) \<Rightarrow> string list \<Rightarrow> bool" where
  "anyAnnotationChanged old new ks = list_ex (\<lambda>k. old k \<noteq> new k) ks"

definition estopActorStampKeys :: "string list" where
  "estopActorStampKeys = [TriggerAnnotation]"

definition robotEstopActorStampKeys :: "string list" where
  "robotEstopActorStampKeys = [TriggerAnnotation, EstopResumeAnnotation]"

definition guardEstopActor :: "admission_env \<Rightarrow> (string \<rightharpoonup> string) \<Rightarrow> (string \<rightharpoonup> string) \<Rightarrow> string list \<Rightarrow> api_error option" where
  "guardEstopActor env old new stampKeys =
     (if old AnnEstopActor = new AnnEstopActor then None
      else case ad_request env of
          None \<Rightarrow> Some Forbidden
        | Some u \<Rightarrow>
            if (if anyAnnotationChanged old new stampKeys
                then new AnnEstopActor = None \<or> ui_username u \<noteq> [] \<and> new AnnEstopActor = Some (ui_username u)
                else new AnnEstopActor = None \<and> isControllerServiceAccount env (ui_username u))
            then None else Some Forbidden)"

text \<open>The stamper: \<open>old\<close> is \<open>None\<close> on a create, and when the stored object cannot be decoded.\<close>

definition transitioned :: "(string \<rightharpoonup> string) option \<Rightarrow> (string \<rightharpoonup> string) \<Rightarrow> string \<Rightarrow> bool" where
  "transitioned old new key = (case old of None \<Rightarrow> new key \<noteq> None | Some m \<Rightarrow> m key \<noteq> new key)"

definition stampActorOn :: "string \<Rightarrow> (string \<rightharpoonup> string) option \<Rightarrow> string \<Rightarrow> (string \<rightharpoonup> string) \<Rightarrow> (string \<rightharpoonup> string)" where
  "stampActorOn user old key new =
     (if \<not> transitioned old new key then new
      else if user = [] then new(AnnEstopActor := None)
      else new(AnnEstopActor \<mapsto> user))"

definition stampEstopActor :: "string \<Rightarrow> (string \<rightharpoonup> string) option \<Rightarrow> (string \<rightharpoonup> string) \<Rightarrow> string list \<Rightarrow> (string \<rightharpoonup> string) \<times> string list" where
  "stampEstopActor user old new fins =
     (let new' = stampActorOn user old TriggerAnnotation new
      in (new', if new' TriggerAnnotation \<noteq> None \<and> StopFinalizer \<notin> set fins then fins @ [StopFinalizer] else fins))"

definition estopVerbForAnnotations :: "(string \<rightharpoonup> string) \<Rightarrow> (string \<rightharpoonup> string) \<Rightarrow> string option" where
  "estopVerbForAnnotations old new = (case (old TriggerAnnotation, new TriggerAnnotation) of
     (None, Some _) \<Rightarrow> Some estopTriggerVerb
   | (Some a, Some b) \<Rightarrow> if a \<noteq> b then Some estopTriggerVerb else None
   | (Some _, None) \<Rightarrow> Some estopClearVerb
   | (None, None) \<Rightarrow> None)"

definition authorizeEstopVerb :: "admission_env \<Rightarrow> group_resource \<Rightarrow> string \<Rightarrow> string \<Rightarrow> string \<Rightarrow> api_error option" where
  "authorizeEstopVerb env gr ns name verb = (case (ad_authz env, ad_request env) of
     (Some authz, Some user) \<Rightarrow>
       (case authz user verb gr ns name of None \<Rightarrow> Some InternalError | Some allowed \<Rightarrow> if allowed then None else Some Forbidden)
   | _ \<Rightarrow> Some Forbidden)"

definition refuseStopFinalizerRemoval :: "admission_env \<Rightarrow> group_resource \<Rightarrow> string \<Rightarrow> string \<Rightarrow> (string \<rightharpoonup> string)
    \<Rightarrow> string list \<Rightarrow> string list \<Rightarrow> api_error option" where
  "refuseStopFinalizerRemoval env gr ns name old_ann old_fin new_fin =
     (if StopFinalizer \<notin> set old_fin \<or> StopFinalizer \<in> set new_fin
       \<or> old_ann TriggerAnnotation = None \<and> old_ann ProcessedAnnotation = None \<or> by_controller env
      then None
      else if \<not> ad_reader env then authorizeEstopVerb env gr ns name estopClearVerb
      else case namespaceTerminating env of
          Inl err \<Rightarrow> Some err
        | Inr terminating \<Rightarrow> if terminating then None else authorizeEstopVerb env gr ns name estopClearVerb)"

end
