(* ===== verification/Spec2Isabelle.thy ===== *)
theory Spec2Isabelle
  imports FlowValidate TdeResource Scheduler Contract ExecutorGate Fence AuditLog Capability Restrictions Geometry Admission
begin

text \<open>
  A verification development of the Swarmada control plane, a Kubernetes operator in Go that dispatches
  work to fleets of robots, keeps robots apart in shared zones and stops them in an emergency.

  \<^bold>\<open>The program.\<close> A FleetTask holds a flow tree; its evaluator asks for FleetActions as children settle. A
  FleetAction is placed on a robot by the scheduler's filters and the restrictions of the zones, is let
  through by the Traffic Deconfliction Engine, which reserves zones and shared resources, and by the
  executor gate, which makes sure that no other robot may still run it. It goes out with a fencing token,
  under the term of the leader, unless a stop holds the robot. Stops are triggered on a robot, a zone or
  a namespace; the scope package decides whom they reach, the safety dispatcher sends them, writes the
  state of each robot and lets an operator clear and resume, and the admission webhooks keep the
  annotations of a stop from being removed. An audit log chains what was done.

  \<^bold>\<open>Theories and sources.\<close> Paths are below \<^verbatim>\<open>src/\<close>.

  \<^item> \<^verbatim>\<open>Prelude\<close>, \<^verbatim>\<open>GoStrconv\<close>, \<^verbatim>\<open>GoJson\<close>: what the sources use of Go. Sized integers wrap, a time is a number of
    nanoseconds, a float64 is a rational, an infinity or not a number, a map filled in order is an
    association list. \<^verbatim>\<open>GoJson\<close> has the JSON encoder, UTF-8 and SHA-256, whose constants are computed from the
    roots of primes that define them. The locale \<open>strict_weak_order\<close> is the contract of a comparison,
    interpreted on the wait queues, the victims of a preemption and the ranking of robots.
  \<^item> \<^verbatim>\<open>Api\<close> (\<^verbatim>\<open>api/v1\<close>, \<^verbatim>\<open>internal/robotid\<close>): the resources as records, their string enumerations as datatypes with
    a constructor for every other value.
  \<^item> \<^verbatim>\<open>FlowTypes\<close>, \<^verbatim>\<open>Flow\<close>, \<^verbatim>\<open>FlowValidate\<close> (\<^verbatim>\<open>internal/flow\<close>): the tree, one pass of the evaluator as a function of the
    tree and of the children, and the validator. Shown: the validator decides well-formedness; a pass over an
    accepted tree is never stuck, asks only for members, and a settled tree asks for nothing. The locale
    \<open>request_relation\<close> proves facts on the requests of a pass once, for soundness and for monotonicity.
  \<^item> \<^verbatim>\<open>TdeQueue\<close>, \<^verbatim>\<open>Tde\<close>, \<^verbatim>\<open>TdeResource\<close> (\<^verbatim>\<open>internal/tde\<close>): the engine as a record, each operation under its zone locks as one
    step. Shown: capacities of zones and resources hold and queues keep their policy in every reachable
    state, denial changes nothing, recovery rebuilds from the status. The locales \<open>queue_invariant\<close> and
    \<open>named_queue_invariant\<close> carry an invariant of queues through every operation.
  \<^item> \<^verbatim>\<open>Scheduler\<close> (\<^verbatim>\<open>internal/scheduler\<close>): the filters and the choice of a robot, which is the first of the best.
  \<^item> \<^verbatim>\<open>CasCounter\<close>, \<^verbatim>\<open>Leadership\<close>, \<^verbatim>\<open>Fencing\<close> (\<^verbatim>\<open>internal/leadership\<close>, \<^verbatim>\<open>internal/command/fencing.go\<close>, \<^verbatim>\<open>term.go\<close>,
    \<^verbatim>\<open>internal/controller/fencing_store.go\<close>): a counter that racing processes draw from with optimistic writes. The
    locale \<open>cas_counter\<close> shows that issued values rise; leader terms and generations interpret it.
  \<^item> \<^verbatim>\<open>Guard\<close>, \<^verbatim>\<open>ExecutorGate\<close> (\<^verbatim>\<open>internal/executorguard\<close>, \<^verbatim>\<open>internal/controller/executor_gate.go\<close>): the decision whether an action
    may be dispatched again and the gate that acts on it. Shown: no second executor, and a refused deletion
    or an orphaned record is released in time.
  \<^item> \<^verbatim>\<open>Contract\<close> (\<^verbatim>\<open>internal/contract\<close>): the versions of the adapter protocol.
  \<^item> \<^verbatim>\<open>EstopScope\<close> (\<^verbatim>\<open>internal/estopscope\<close>): the zone tree and whom a stop reaches. Shown: the coverage is exact, the
    guard includes what the fan-out sees, the walk answers or refuses, an admitted edit uncovers no zone.
  \<^item> \<^verbatim>\<open>StopState\<close>, \<^verbatim>\<open>SafetyStreams\<close> (\<^verbatim>\<open>internal/safety\<close>): the writer of a robot's stop state with its epochs and retries, the
    clear, the supervised resume, the streams, the awaited answers and the records of stops. The sections of
    the dispatcher interleave in an inductive relation. Shown: only an operator's clear and a later
    confirmation release a robot, and every write is a transition of the stop state machine.
  \<^item> \<^verbatim>\<open>Fence\<close> (\<^verbatim>\<open>internal/command/fence.go\<close>): the fences of stops and the order of work with them. Shown: work sent
    after a stop was sent after its clear.
  \<^item> \<^verbatim>\<open>AuditLog\<close> (\<^verbatim>\<open>internal/audit\<close>, \<^verbatim>\<open>cmd/swarmctl/audit.go\<close>): recording, resuming and verifying the chain. Shown: what was
    recorded verifies, and the last hash fixes the log up to a collision of SHA-256.
  \<^item> \<^verbatim>\<open>Capability\<close> (\<^verbatim>\<open>internal/controller/robot_controller.go\<close>): the capabilities and the health derived of a robot.
  \<^item> \<^verbatim>\<open>Restrictions\<close> (\<^verbatim>\<open>internal/controller/zone_restrictions.go\<close>, \<^verbatim>\<open>dispatch_zone_restrictions.go\<close>,
    \<^verbatim>\<open>internal/webhook/fleetzone_restrictions_fzr7.go\<close>): the fold over a zone's ancestors, the filter of dispatch and the
    check at admission. Shown: inheritance never weakens a rule.
  \<^item> \<^verbatim>\<open>Geometry\<close> (\<^verbatim>\<open>internal/zone\<close>): point in polygon and the choice of the current zone, with rounding arithmetic.
  \<^item> \<^verbatim>\<open>Admission\<close> (\<^verbatim>\<open>internal/webhook\<close>, in part): identities and the guards of a stop's marker, actor and finalizer.

  \<^bold>\<open>Effects.\<close> A call of the API server is an input of the model: a read is found, not found or failed, a write is
  written, conflicted or failed. A section under a lock is one function, and concurrency is the
  interleaving of sections. Errors are constructors; their texts, log lines and events are left out.

  \<^bold>\<open>Bounds.\<close> The numbers are those of the sources: 64 ancestors in a walk of the zone tree (\<^verbatim>\<open>MaxAncestors\<close>), depth 32
  and 1024 nodes of a flow, 8 attempts at the leader-term floor, 5 at a write that releases a stop and 30 at every
  other write of a stop state. A retry loop of the sources takes its number
  of attempts as an argument of the recursion, so it ends where the code gives up. The only fuel is in
  \<^verbatim>\<open>Subtree\<close>, which gets two steps more than the tree has zones; the lemma \<open>Subtree_in_steps\<close> shows that they suffice.

  \<^bold>\<open>Not modelled.\<close> The reconcile loops that call the parts above (actions, tasks, stops, zones, robots, rollouts,
  adapters), the remaining webhooks, the gRPC servers, telemetry, registries and signatures, compute and
  edge, the command line apart from the verification of the log, generated code and the programs in
  Python. They are transport, wiring or sequences of API calls around the decisions modelled here; a
  theorem here speaks of those decisions and takes what the loops pass to them as its inputs.
\<close>

end
